(* ===== verification/Prelude.thy ===== *)
theory Prelude
  imports Main "HOL-Library.Word" "HOL-Library.FSet" "HOL-Library.Finite_Map"
begin

text \<open>
  Shared vocabulary of the development: the machine integers and identifiers of
  \<^verbatim>\<open>crates/graphus-core/src/lib.rs\<close>, the error values the modelled code returns, the
  collections of rewrite rules the component proofs use, and generic lemmas on finite maps,
  finite sets, lists and words.

  A Rust \<^verbatim>\<open>u64\<close> is a \<open>64 word\<close>; the newtypes \<^verbatim>\<open>TxnId\<close>, \<^verbatim>\<open>Timestamp\<close>, \<^verbatim>\<open>PageId\<close>, \<^verbatim>\<open>Lsn\<close>
  wrap one and are type synonyms here. A \<^verbatim>\<open>HashMap\<close> or \<^verbatim>\<open>BTreeMap\<close> is a finite map
  (\<open>fmap\<close>), a \<^verbatim>\<open>HashSet\<close> or \<^verbatim>\<open>BTreeSet\<close> a finite set (\<open>fset\<close>), a \<^verbatim>\<open>Vec\<close> a list.
\<close>

unbundle bit_operations_syntax

type_synonym u8 = "8 word"
type_synonym u16 = "16 word"
type_synonym u32 = "32 word"
type_synonym u64 = "64 word"

type_synonym txn_id = u64
type_synonym timestamp = u64
type_synonym key = u64
type_synonym bytes = "u8 list"

subsection \<open>Rule collections\<close>

named_theorems invs \<open>definitions of the well-formedness invariants\<close>
named_theorems ops \<open>definitions of the operations of a component\<close>

subsection \<open>Errors\<close>

text \<open>
  \<^verbatim>\<open>GraphusError::Transaction\<close> carries a message built with \<^verbatim>\<open>format!\<close>; the model keeps one
  constructor per message with the values the message names. \<open>Panicked\<close> is a failed
  \<^verbatim>\<open>assert!\<close>.
\<close>

datatype graphus_error =
    TimestampsExhausted
  | TxnIdsExhausted
  | AdmissionLimit nat
  | InactiveTxn txn_id
  | NoLiveHead key
  | WriteWriteConflict key txn_id
  | WriteConflict key
  | SerializationFailure txn_id
  | DurabilityRefused
  | Panicked

subsection \<open>Checked arithmetic\<close>

text \<open>\<^verbatim>\<open>checked_add\<close> of a fixed-width unsigned integer.\<close>

definition checked_add :: "'a::len word \<Rightarrow> 'a word \<Rightarrow> 'a word option" where
  "checked_add a b = (if a + b < a then None else Some (a + b))"

lemma checked_add_unat:
  "checked_add a b = (if unat a + unat b < 2 ^ LENGTH('a) then Some (a + b) else None)"
    for a b :: "'a::len word"
  using no_olen_add_nat [of a b] by (auto simp: checked_add_def)

lemma checked_add_SomeD:
  "checked_add a b = Some c \<Longrightarrow> c = a + b \<and> unat c = unat a + unat b"
  by (auto simp: checked_add_unat unat_add_lem split: if_splits)

lemma checked_add_one_SomeD:
  "checked_add a (1 :: 'a::len word) = Some c \<Longrightarrow> a < c \<and> c \<noteq> 0"
  by (drule checked_add_SomeD) (auto simp: word_less_nat_alt unat_eq_0 [symmetric])

subsection \<open>The least key of a finite map\<close>

text \<open>\<^verbatim>\<open>BTreeMap::first_key_value\<close>, the key only.\<close>

definition fm_first_key :: "('k::linorder, 'v) fmap \<Rightarrow> 'k option" where
  "fm_first_key m =
     (case sorted_list_of_fset (fmdom m) of [] \<Rightarrow> None | k # _ \<Rightarrow> Some k)"

lemma sorted_list_of_fset_set [simp]: "set (sorted_list_of_fset A) = fset A"
  by (simp add: sorted_list_of_fset.rep_eq)

lemma sorted_list_of_fset_sorted [simp]: "sorted (sorted_list_of_fset A)"
  by (simp add: sorted_list_of_fset.rep_eq)

lemma sorted_list_of_fset_distinct [simp]: "distinct (sorted_list_of_fset A)"
  by (simp add: sorted_list_of_fset.rep_eq)

lemma sorted_list_of_fset_Nil_iff [simp]: "sorted_list_of_fset A = [] \<longleftrightarrow> A = {||}"
  by (metis bot_fset.rep_eq fset_inject set_empty sorted_list_of_fset_set)

lemma sorted_list_of_fset_fempty [simp]: "sorted_list_of_fset {||} = []"
  by simp

lemma fset_empty_iff [simp]: "fset A = {} \<longleftrightarrow> A = {||}"
  by (metis bot_fset.rep_eq fset_inject)

lemma fm_first_key_None [simp]: "fm_first_key m = None \<longleftrightarrow> fmdom m = {||}"
  by (auto simp: fm_first_key_def split: list.splits)

lemma fm_first_key_Some:
  "fm_first_key m = Some k \<longleftrightarrow> k |\<in>| fmdom m \<and> (\<forall>k'. k' |\<in>| fmdom m \<longrightarrow> k \<le> k')"
proof -
  have iff: "fmdom m \<noteq> {||} \<Longrightarrow>
    sorted_list_of_fset (fmdom m) = k # ks \<Longrightarrow>
    k |\<in>| fmdom m \<and> (\<forall>k'. k' |\<in>| fmdom m \<longrightarrow> k \<le> k')" for k ks
    using sorted_list_of_fset_set [of "fmdom m"] sorted_list_of_fset_sorted [of "fmdom m"]
    by auto
  show ?thesis
  proof (cases "sorted_list_of_fset (fmdom m)")
    case Nil
    then show ?thesis by (auto simp: fm_first_key_def)
  next
    case (Cons k0 ks)
    then have "fmdom m \<noteq> {||}" by auto
    from iff [OF this Cons] Cons show ?thesis
      by (auto simp: fm_first_key_def intro: order.antisym)
  qed
qed

subsection \<open>Entries of a finite map\<close>

text \<open>
  \<^verbatim>\<open>m.entry(k).or_default()\<close> followed by an in-place change of the entry, and
  \<^verbatim>\<open>if let Some(v) = m.get_mut(k) { .. }\<close>, which changes nothing when the key is absent.
\<close>

definition fm_entry :: "'k \<Rightarrow> 'v \<Rightarrow> ('v \<Rightarrow> 'v) \<Rightarrow> ('k, 'v) fmap \<Rightarrow> ('k, 'v) fmap" where
  "fm_entry k d f m = fmupd k (f (case fmlookup m k of None \<Rightarrow> d | Some v \<Rightarrow> v)) m"

definition fm_adjust :: "'k \<Rightarrow> ('v \<Rightarrow> 'v) \<Rightarrow> ('k, 'v) fmap \<Rightarrow> ('k, 'v) fmap" where
  "fm_adjust k f m = (case fmlookup m k of None \<Rightarrow> m | Some v \<Rightarrow> fmupd k (f v) m)"

lemma fmlookup_fm_entry [simp]:
  "fmlookup (fm_entry k d f m) k' =
     (if k = k' then Some (f (case fmlookup m k of None \<Rightarrow> d | Some v \<Rightarrow> v))
      else fmlookup m k')"
  by (simp add: fm_entry_def)

lemma fmdom_fm_entry [simp]: "fmdom (fm_entry k d f m) = finsert k (fmdom m)"
  by (simp add: fm_entry_def)

lemma fmlookup_fm_adjust [simp]:
  "fmlookup (fm_adjust k f m) k' =
     (if k = k' then map_option f (fmlookup m k) else fmlookup m k')"
  by (simp add: fm_adjust_def split: option.splits)

lemma fmdom_fm_adjust [simp]: "fmdom (fm_adjust k f m) = fmdom m"
  by (auto simp: fm_adjust_def fmlookup_dom_iff split: option.splits)

text \<open>\<^verbatim>\<open>HashMap::retain\<close>.\<close>

definition fm_retain :: "('k \<Rightarrow> 'v \<Rightarrow> bool) \<Rightarrow> ('k, 'v) fmap \<Rightarrow> ('k, 'v) fmap" where
  "fm_retain P m = fmfilter (\<lambda>k. case fmlookup m k of None \<Rightarrow> False | Some v \<Rightarrow> P k v) m"

lemma fmlookup_fm_retain [simp]:
  "fmlookup (fm_retain P m) k =
     (case fmlookup m k of None \<Rightarrow> None | Some v \<Rightarrow> if P k v then Some v else None)"
  by (simp add: fm_retain_def split: option.splits)

text \<open>A lookup with a default, for maps whose missing entries mean an empty collection.\<close>

definition fm_get :: "'v \<Rightarrow> ('k, 'v) fmap \<Rightarrow> 'k \<Rightarrow> 'v" where
  "fm_get d m k = (case fmlookup m k of None \<Rightarrow> d | Some v \<Rightarrow> v)"

end
