(* ===== verification/Version_Stamp.thy ===== *)
theory Version_Stamp
  imports Prelude
begin

text \<open>
  The version-stamp convention of \<^verbatim>\<open>crates/graphus-core/src/lib.rs\<close> (module \<^verbatim>\<open>version\<close>): one
  \<^verbatim>\<open>u64\<close> header word holds nothing, a commit timestamp, or the id of a transaction still in
  flight, told apart by bit 63. The lemmas show that the encoding and the decoding invert each
  other on the words the manager writes, so a committed and an in-flight stamp never alias.
  The module also holds the statement counter \<^verbatim>\<open>CommandId\<close>.
\<close>

subsection \<open>The stamp word\<close>

definition INFLIGHT_BIT :: u64 where
  "INFLIGHT_BIT = push_bit 63 1"

definition PAYLOAD_MASK :: u64 where
  "PAYLOAD_MASK = INFLIGHT_BIT - 1"

definition MAX_TIMESTAMP :: u64 where
  "MAX_TIMESTAMP = PAYLOAD_MASK"

datatype version_stamp =
    NoStamp
  | Committed timestamp
  | InFlight txn_id

definition from_raw :: "u64 \<Rightarrow> version_stamp" where
  "from_raw w =
     (if w = 0 then NoStamp
      else if w AND INFLIGHT_BIT \<noteq> 0 then InFlight (w AND PAYLOAD_MASK)
      else Committed w)"

fun to_raw :: "version_stamp \<Rightarrow> u64" where
  "to_raw NoStamp = 0"
| "to_raw (Committed ts) = ts"
| "to_raw (InFlight txn) = INFLIGHT_BIT OR (txn AND PAYLOAD_MASK)"

definition in_flight :: "txn_id \<Rightarrow> graphus_error + u64" where
  "in_flight txn =
     (if txn = 0 then Inl Panicked
      else if txn AND INFLIGHT_BIT \<noteq> 0 then Inl Panicked
      else Inr (to_raw (InFlight txn)))"

definition committed :: "timestamp \<Rightarrow> u64" where
  "committed ts = to_raw (Committed ts)"

subsection \<open>Identifiers that fit the convention\<close>

text \<open>The ids and timestamps the manager issues: nonzero and at most 63 bits wide.\<close>

definition valid_id :: "u64 \<Rightarrow> bool" where
  "valid_id w \<longleftrightarrow> w \<noteq> 0 \<and> w \<le> MAX_TIMESTAMP"

lemma INFLIGHT_BIT_eq: "INFLIGHT_BIT = 2 ^ 63"
  by (simp add: INFLIGHT_BIT_def push_bit_eq_mult)

lemma PAYLOAD_MASK_eq: "PAYLOAD_MASK = mask 63"
  by (simp add: PAYLOAD_MASK_def INFLIGHT_BIT_eq mask_eq_exp_minus_1)

lemma MAX_TIMESTAMP_eq: "MAX_TIMESTAMP = 9223372036854775807"
  by (simp add: MAX_TIMESTAMP_def PAYLOAD_MASK_def INFLIGHT_BIT_eq)

lemma bit_INFLIGHT_BIT [simp]: "bit INFLIGHT_BIT n \<longleftrightarrow> n = 63"
proof -
  have "bit INFLIGHT_BIT n \<longleftrightarrow> 63 \<le> n \<and> n < 64 \<and> n - 63 = 0"
    unfolding INFLIGHT_BIT_def by (simp only: bit_push_bit_iff bit_1_iff possible_bit_word) auto
  then show ?thesis by auto
qed

lemma bit_PAYLOAD_MASK [simp]: "bit PAYLOAD_MASK n \<longleftrightarrow> n < 63"
  by (auto simp: PAYLOAD_MASK_eq bit_simps)

lemma and_INFLIGHT_BIT: "w AND INFLIGHT_BIT = 0 \<longleftrightarrow> \<not> bit w 63"
proof
  assume "w AND INFLIGHT_BIT = 0"
  then have "\<not> bit (w AND INFLIGHT_BIT) 63" by simp
  then show "\<not> bit w 63" by (simp add: bit_and_iff)
next
  assume "\<not> bit w 63"
  then show "w AND INFLIGHT_BIT = 0"
    by (intro bit_word_eqI) (auto simp: bit_and_iff)
qed

lemma odd_div_iff: "(x::nat) < 2 * m \<Longrightarrow> odd (x div m) \<longleftrightarrow> m \<le> x"
proof (cases "x < m")
  case False
  moreover assume "x < 2 * m"
  ultimately have "x div m = 1" by (intro div_nat_eqI) auto
  with False show ?thesis by simp
qed simp

lemma le_MAX_TIMESTAMP: "w \<le> MAX_TIMESTAMP \<longleftrightarrow> \<not> bit w 63"
proof -
  have "unat w < 2 * 2 ^ 63"
    using unsigned_less [of w, where 'a = nat] by simp
  then have "bit w 63 \<longleftrightarrow> 2 ^ 63 \<le> unat w"
    using odd_div_iff [of "unat w" "2 ^ 63"]
    by (metis bit_iff_odd bit_unsigned_iff possible_bit_nat)
  also have "\<dots> \<longleftrightarrow> \<not> w \<le> MAX_TIMESTAMP"
    by (simp add: MAX_TIMESTAMP_eq word_le_nat_alt not_le Suc_le_eq [symmetric])
  finally show ?thesis by blast
qed

lemma valid_id_bit: "valid_id w \<longleftrightarrow> w \<noteq> 0 \<and> \<not> bit w 63"
  by (simp add: valid_id_def le_MAX_TIMESTAMP)

subsection \<open>Encoding and decoding invert each other\<close>

lemma bit_to_raw_InFlight: "bit (to_raw (InFlight t)) n \<longleftrightarrow> n = 63 \<or> n < 63 \<and> bit t n"
  by (auto simp: bit_or_iff bit_and_iff)

lemma to_raw_InFlight_nonzero [simp]: "to_raw (InFlight t) \<noteq> 0"
  using bit_to_raw_InFlight [of t 63] by (metis bit_0_eq bot_apply bot_bool_def)

lemma less_64_cases: "n < 64 \<Longrightarrow> n < 63 \<or> n = (63::nat)"
  by auto

lemma payload_InFlight: "valid_id t \<Longrightarrow> to_raw (InFlight t) AND PAYLOAD_MASK = t"
  by (intro bit_word_eqI)
     (auto simp: bit_and_iff valid_id_bit bit_to_raw_InFlight simp del: to_raw.simps
        dest: less_64_cases)

lemma from_raw_zero [simp]: "from_raw 0 = NoStamp"
  by (simp add: from_raw_def)

lemma from_raw_to_raw_Committed [simp]: "valid_id ts \<Longrightarrow> from_raw ts = Committed ts"
  by (simp add: from_raw_def valid_id_bit and_INFLIGHT_BIT)

lemma from_raw_to_raw_InFlight [simp]:
  "valid_id t \<Longrightarrow> from_raw (to_raw (InFlight t)) = InFlight t"
  using payload_InFlight [of t]
  by (simp add: from_raw_def and_INFLIGHT_BIT bit_to_raw_InFlight del: to_raw.simps)

lemma to_raw_from_raw: "to_raw (from_raw w) = w"
proof (cases "bit w 63")
  case True
  have "INFLIGHT_BIT OR (w AND PAYLOAD_MASK AND PAYLOAD_MASK) = w"
    by (rule bit_word_eqI) (use True in \<open>auto simp: bit_or_iff bit_and_iff dest: less_64_cases\<close>)
  moreover have "w \<noteq> 0" using True by auto
  ultimately show ?thesis
    using True by (simp add: from_raw_def and_INFLIGHT_BIT and.assoc)
next
  case False
  then show ?thesis by (simp add: from_raw_def and_INFLIGHT_BIT)
qed

lemma in_flight_valid [simp]: "valid_id t \<Longrightarrow> in_flight t = Inr (to_raw (InFlight t))"
  by (simp add: in_flight_def valid_id_bit and_INFLIGHT_BIT)

lemma in_flight_InrD: "in_flight t = Inr w \<Longrightarrow> valid_id t \<and> w = to_raw (InFlight t)"
  by (auto simp: in_flight_def valid_id_bit and_INFLIGHT_BIT split: if_splits)

lemma to_raw_InFlight_inj:
  "valid_id t \<Longrightarrow> valid_id u \<Longrightarrow> to_raw (InFlight t) = to_raw (InFlight u) \<longleftrightarrow> t = u"
  by (metis from_raw_to_raw_InFlight version_stamp.inject(2))

lemma InFlight_not_committed: "valid_id ts \<Longrightarrow> to_raw (InFlight t) \<noteq> ts"
  using bit_to_raw_InFlight [of t 63] by (auto simp: valid_id_bit simp del: to_raw.simps)

lemmas stamp_simps = from_raw_zero from_raw_to_raw_Committed from_raw_to_raw_InFlight
  in_flight_valid to_raw_InFlight_inj InFlight_not_committed committed_def to_raw.simps(2)

declare to_raw.simps(3) [simp del]

subsection \<open>Statement counters\<close>

type_synonym command_id = u32

definition CommandId_FIRST :: command_id where
  "CommandId_FIRST = 1"

definition CommandId_NONE :: command_id where
  "CommandId_NONE = 0"

text \<open>\<^verbatim>\<open>u32::saturating_add(1)\<close>.\<close>

definition CommandId_next :: "command_id \<Rightarrow> command_id" where
  "CommandId_next c = (if c = - 1 then - 1 else c + 1)"

lemma CommandId_next_less: "c \<noteq> - 1 \<Longrightarrow> c < CommandId_next c"
proof -
  assume c: "c \<noteq> - 1"
  then have "1 + c \<noteq> 0" by (metis add.commute add_eq_0_iff)
  then have "unat (1 + c) = Suc (unat c)" by (rule unatSuc)
  with c show ?thesis by (simp add: CommandId_next_def word_less_nat_alt add.commute)
qed

end
