(* ===== verification/Oracle.thy ===== *)
theory Oracle
  imports Version_Stamp
begin

text \<open>
  The timestamp oracle, \<^verbatim>\<open>crates/graphus-txn/src/oracle.rs\<close>: a monotonic counter that issues begin
  and commit timestamps and the multiset of begin timestamps of the running transactions, whose
  least element is the low-water mark of garbage collection.
\<close>

record timestamp_oracle =
  next_counter :: u64
  active_begins :: "(timestamp, u32) fmap"

definition oracle_new :: timestamp_oracle where
  "oracle_new = \<lparr>next_counter = 0, active_begins = fmempty\<rparr>"

definition tick :: "timestamp_oracle \<Rightarrow> (graphus_error + timestamp) \<times> timestamp_oracle" where
  "tick orc =
     (case checked_add (next_counter orc) 1 of
        None \<Rightarrow> (Inl TimestampsExhausted, orc)
      | Some n \<Rightarrow>
          if n \<le> MAX_TIMESTAMP then (Inr n, orc\<lparr>next_counter := n\<rparr>)
          else (Inl TimestampsExhausted, orc))"

definition oracle_begin ::
  "timestamp_oracle \<Rightarrow> (graphus_error + timestamp) \<times> timestamp_oracle" where
  "oracle_begin orc =
     (case tick orc of
        (Inl e, orc') \<Rightarrow> (Inl e, orc')
      | (Inr ts, orc') \<Rightarrow>
          (Inr ts, orc'\<lparr>active_begins := fm_entry ts 0 (\<lambda>c. c + 1) (active_begins orc')\<rparr>))"

definition oracle_commit ::
  "timestamp_oracle \<Rightarrow> (graphus_error + timestamp) \<times> timestamp_oracle" where
  "oracle_commit orc = tick orc"

definition release_begin :: "timestamp_oracle \<Rightarrow> timestamp \<Rightarrow> bool \<times> timestamp_oracle" where
  "release_begin orc begin_ts =
     (case fmlookup (active_begins orc) begin_ts of
        None \<Rightarrow> (False, orc)
      | Some c \<Rightarrow>
          let c' = c - 1 in
          (True, orc\<lparr>active_begins :=
                    (if c' = 0 then fmdrop begin_ts (active_begins orc)
                     else fmupd begin_ts c' (active_begins orc))\<rparr>))"

definition low_water_mark :: "timestamp_oracle \<Rightarrow> timestamp option" where
  "low_water_mark orc = fm_first_key (active_begins orc)"

definition oracle_active_count :: "timestamp_oracle \<Rightarrow> nat" where
  "oracle_active_count orc =
     sum_list (map (\<lambda>(_, c). unat c) (sorted_list_of_fmap (active_begins orc)))"

definition oracle_current :: "timestamp_oracle \<Rightarrow> timestamp" where
  "oracle_current orc = next_counter orc"

subsection \<open>Invariant\<close>

text \<open>
  Every tracked begin timestamp was issued by this oracle, and since the counter never repeats a
  value each is held by exactly one transaction.
\<close>

definition oracle_inv :: "timestamp_oracle \<Rightarrow> bool" where
  [invs]: "oracle_inv orc \<longleftrightarrow>
     next_counter orc \<le> MAX_TIMESTAMP \<and>
     (\<forall>ts c. fmlookup (active_begins orc) ts = Some c \<longrightarrow>
        valid_id ts \<and> ts \<le> next_counter orc \<and> c = 1)"

definition live_begins :: "timestamp_oracle \<Rightarrow> timestamp set" where
  "live_begins orc = fset (fmdom (active_begins orc))"

lemma oracle_inv_new: "oracle_inv oracle_new"
  by (simp add: oracle_inv_def oracle_new_def)

lemma tick_cases:
  obtains (ok) n where "tick orc = (Inr n, orc\<lparr>next_counter := n\<rparr>)"
      "next_counter orc < n" "valid_id n"
  | (full) "tick orc = (Inl TimestampsExhausted, orc)"
proof (cases "checked_add (next_counter orc) 1")
  case None
  then show ?thesis by (intro full) (simp add: tick_def)
next
  case (Some n)
  then have "next_counter orc < n" "n \<noteq> 0" by (auto dest: checked_add_one_SomeD)
  with Some show ?thesis
    by (cases "n \<le> MAX_TIMESTAMP") (auto intro: ok full simp: tick_def valid_id_def)
qed

lemma tick_below_max:
  assumes "next_counter orc < MAX_TIMESTAMP"
  shows "tick orc = (Inr (next_counter orc + 1), orc\<lparr>next_counter := next_counter orc + 1\<rparr>)"
proof -
  from assms have lt: "unat (next_counter orc) < 9223372036854775807"
    by (simp add: word_less_nat_alt MAX_TIMESTAMP_eq)
  then have "checked_add (next_counter orc) 1 = Some (next_counter orc + 1)"
    by (simp add: checked_add_unat)
  moreover have "next_counter orc + 1 \<le> MAX_TIMESTAMP"
    using assms by (rule inc_le)
  ultimately show ?thesis by (simp add: tick_def)
qed

lemma oracle_begin_cases:
  assumes "oracle_inv orc"
  obtains (ok) n orc' where "oracle_begin orc = (Inr n, orc')" "oracle_inv orc'"
      "next_counter orc < n" "next_counter orc' = n" "valid_id n"
      "live_begins orc' = insert n (live_begins orc)" "n \<notin> live_begins orc"
  | (full) "oracle_begin orc = (Inl TimestampsExhausted, orc)"
proof (cases orc rule: tick_cases)
  case (ok n)
  from assms ok have n: "fmlookup (active_begins orc) n = None"
    by (metis (no_types, lifting) invs leD option.exhaust)
  let ?orc = "orc\<lparr>next_counter := n, active_begins := fm_entry n 0 (\<lambda>c. c + 1) (active_begins orc)\<rparr>"
  have "oracle_begin orc = (Inr n, ?orc)"
    using ok by (simp add: oracle_begin_def)
  moreover have "oracle_inv ?orc"
    using assms ok n by (fastforce simp: oracle_inv_def valid_id_def)
  moreover have "live_begins ?orc = insert n (live_begins orc)" "n \<notin> live_begins orc"
    using n by (auto simp: live_begins_def fmlookup_dom_iff)
  ultimately show thesis using ok that(1) by simp
next
  case full
  then show thesis by (intro that(2)) (simp add: oracle_begin_def)
qed

lemma release_begin_live:
  assumes "oracle_inv orc" "ts \<in> live_begins orc"
  shows "release_begin orc ts = (True, orc\<lparr>active_begins := fmdrop ts (active_begins orc)\<rparr>)"
  using assms by (auto simp: release_begin_def oracle_inv_def live_begins_def fmlookup_dom_iff)

lemma release_begin_inv:
  assumes "oracle_inv orc"
  shows "oracle_inv (snd (release_begin orc ts))"
    and "live_begins (snd (release_begin orc ts)) = live_begins orc - {ts}"
    and "next_counter (snd (release_begin orc ts)) = next_counter orc"
  using assms
  by (auto simp: release_begin_def oracle_inv_def live_begins_def fmlookup_dom_iff
      split: option.splits if_splits)

lemma low_water_mark_None: "low_water_mark orc = None \<longleftrightarrow> live_begins orc = {}"
  by (simp add: low_water_mark_def live_begins_def)

lemma low_water_mark_Some:
  "low_water_mark orc = Some ts \<longleftrightarrow> ts \<in> live_begins orc \<and> (\<forall>t \<in> live_begins orc. ts \<le> t)"
  by (auto simp: low_water_mark_def live_begins_def fm_first_key_Some)

end
