(* ===== verification/Visibility.thy ===== *)
theory Visibility
  imports Version_Stamp
begin

text \<open>
  Read snapshots, the commit registry and the MVCC visibility predicate:
  \<^verbatim>\<open>crates/graphus-txn/src/snapshot.rs\<close> and \<^verbatim>\<open>crates/graphus-txn/src/visibility.rs\<close>.
\<close>

subsection \<open>Isolation levels, views and snapshots\<close>

datatype isolation_level = Serializable | SnapshotLevel

definition runs_ssi :: "isolation_level \<Rightarrow> bool" where
  "runs_ssi l = (case l of Serializable \<Rightarrow> True | SnapshotLevel \<Rightarrow> False)"

datatype view = ViewNew | ViewOld

definition command_hides_own_write :: "view \<Rightarrow> command_id \<Rightarrow> command_id \<Rightarrow> bool" where
  "command_hides_own_write vw writer current =
     (if writer = CommandId_NONE then False
      else case vw of
        ViewNew \<Rightarrow> writer > current
      | ViewOld \<Rightarrow> writer \<ge> current)"

record snapshot =
  owner :: txn_id
  snap_ts :: timestamp
  command :: command_id
  snap_view :: view

definition snapshot_new :: "txn_id \<Rightarrow> timestamp \<Rightarrow> snapshot" where
  "snapshot_new own ts =
     \<lparr>owner = own, snap_ts = ts, command = CommandId_FIRST, snap_view = ViewNew\<rparr>"

definition at_command :: "txn_id \<Rightarrow> timestamp \<Rightarrow> command_id \<Rightarrow> view \<Rightarrow> snapshot" where
  "at_command own ts c vw = \<lparr>owner = own, snap_ts = ts, command = c, snap_view = vw\<rparr>"

definition with_view :: "snapshot \<Rightarrow> view \<Rightarrow> snapshot" where
  "with_view s vw = s\<lparr>snap_view := vw\<rparr>"

definition with_command :: "snapshot \<Rightarrow> command_id \<Rightarrow> snapshot" where
  "with_command s c = s\<lparr>command := c\<rparr>"

definition hides_own_command :: "snapshot \<Rightarrow> command_id \<Rightarrow> bool" where
  "hides_own_command s writer = command_hides_own_write (snap_view s) writer (command s)"

subsection \<open>The commit registry\<close>

datatype txn_outcome = OutcomeInFlight | OutcomeCommitted timestamp | OutcomeAborted

record commit_registry =
  outcomes :: "(txn_id, txn_outcome) fmap"

definition registry_new :: commit_registry where
  "registry_new = \<lparr>outcomes = fmempty\<rparr>"

definition reg_register_begin :: "commit_registry \<Rightarrow> txn_id \<Rightarrow> commit_registry" where
  "reg_register_begin r txn = r\<lparr>outcomes := fmupd txn OutcomeInFlight (outcomes r)\<rparr>"

definition reg_record_commit :: "commit_registry \<Rightarrow> txn_id \<Rightarrow> timestamp \<Rightarrow> commit_registry" where
  "reg_record_commit r txn ts = r\<lparr>outcomes := fmupd txn (OutcomeCommitted ts) (outcomes r)\<rparr>"

definition reg_record_abort :: "commit_registry \<Rightarrow> txn_id \<Rightarrow> commit_registry" where
  "reg_record_abort r txn = r\<lparr>outcomes := fmupd txn OutcomeAborted (outcomes r)\<rparr>"

definition reg_forget :: "commit_registry \<Rightarrow> txn_id \<Rightarrow> commit_registry" where
  "reg_forget r txn = r\<lparr>outcomes := fmdrop txn (outcomes r)\<rparr>"

definition reg_len :: "commit_registry \<Rightarrow> nat" where
  "reg_len r = fcard (fmdom (outcomes r))"

definition reg_is_empty :: "commit_registry \<Rightarrow> bool" where
  "reg_is_empty r \<longleftrightarrow> fmdom (outcomes r) = {||}"

text \<open>The source collects the writers in hash order; the model keeps the set.\<close>

definition committed_writers :: "commit_registry \<Rightarrow> txn_id fset" where
  "committed_writers r =
     ffilter (\<lambda>t. case fmlookup (outcomes r) t of
                    Some (OutcomeCommitted _) \<Rightarrow> True | _ \<Rightarrow> False)
       (fmdom (outcomes r))"

definition prune_settled :: "commit_registry \<Rightarrow> timestamp option \<Rightarrow> nat \<times> commit_registry" where
  "prune_settled r low_water =
     (let keep = (\<lambda>_ out. case out of
                        OutcomeInFlight \<Rightarrow> True
                      | OutcomeAborted \<Rightarrow> False
                      | OutcomeCommitted ts \<Rightarrow>
                          (case low_water of None \<Rightarrow> False | Some mark \<Rightarrow> ts > mark));
          r' = r\<lparr>outcomes := fm_retain keep (outcomes r)\<rparr>
      in (reg_len r - reg_len r', r'))"

definition outcome :: "commit_registry \<Rightarrow> txn_id \<Rightarrow> txn_outcome" where
  "outcome r txn =
     (case fmlookup (outcomes r) txn of Some out \<Rightarrow> out | None \<Rightarrow> OutcomeAborted)"

definition resolve_commit_ts :: "commit_registry \<Rightarrow> u64 \<Rightarrow> timestamp option" where
  "resolve_commit_ts r w =
     (case from_raw w of
        NoStamp \<Rightarrow> None
      | Committed ts \<Rightarrow> Some ts
      | InFlight txn \<Rightarrow>
          (case outcome r txn of
             OutcomeCommitted ts \<Rightarrow> Some ts
           | OutcomeInFlight \<Rightarrow> None
           | OutcomeAborted \<Rightarrow> None))"

subsection \<open>Visibility\<close>

definition creator_visible :: "snapshot \<Rightarrow> u64 \<Rightarrow> commit_registry \<Rightarrow> bool" where
  "creator_visible s xmin r =
     (case from_raw xmin of
        NoStamp \<Rightarrow> False
      | Committed ts \<Rightarrow> ts \<le> snap_ts s
      | InFlight writer \<Rightarrow>
          if writer = owner s then True
          else case outcome r writer of
                 OutcomeCommitted ts \<Rightarrow> ts \<le> snap_ts s
               | OutcomeInFlight \<Rightarrow> False
               | OutcomeAborted \<Rightarrow> False)"

definition expirer_hides :: "snapshot \<Rightarrow> u64 \<Rightarrow> commit_registry \<Rightarrow> bool" where
  "expirer_hides s xmax r =
     (case from_raw xmax of
        NoStamp \<Rightarrow> False
      | Committed ts \<Rightarrow> ts \<le> snap_ts s
      | InFlight writer \<Rightarrow>
          if writer = owner s then True
          else case outcome r writer of
                 OutcomeCommitted ts \<Rightarrow> ts \<le> snap_ts s
               | OutcomeInFlight \<Rightarrow> False
               | OutcomeAborted \<Rightarrow> False)"

definition is_visible :: "snapshot \<Rightarrow> u64 \<Rightarrow> u64 \<Rightarrow> commit_registry \<Rightarrow> bool" where
  "is_visible s xmin xmax r \<longleftrightarrow> creator_visible s xmin r \<and> \<not> expirer_hides s xmax r"

subsection \<open>Registry lemmas\<close>

lemma outcome_register_begin [simp]:
  "outcome (reg_register_begin r t) u = (if u = t then OutcomeInFlight else outcome r u)"
  by (simp add: outcome_def reg_register_begin_def)

lemma outcome_record_commit [simp]:
  "outcome (reg_record_commit r t ts) u = (if u = t then OutcomeCommitted ts else outcome r u)"
  by (simp add: outcome_def reg_record_commit_def)

lemma outcome_record_abort [simp]:
  "outcome (reg_record_abort r t) u = (if u = t then OutcomeAborted else outcome r u)"
  by (simp add: outcome_def reg_record_abort_def)

lemma outcome_forget [simp]:
  "outcome (reg_forget r t) u = (if u = t then OutcomeAborted else outcome r u)"
  by (simp add: outcome_def reg_forget_def)

lemma outcome_registry_new [simp]: "outcome registry_new t = OutcomeAborted"
  by (simp add: outcome_def registry_new_def)

lemma outcome_prune_settled:
  "outcome (snd (prune_settled r lw)) t =
     (case outcome r t of
        OutcomeInFlight \<Rightarrow> OutcomeInFlight
      | OutcomeAborted \<Rightarrow> OutcomeAborted
      | OutcomeCommitted ts \<Rightarrow>
          (case lw of None \<Rightarrow> OutcomeAborted
           | Some mark \<Rightarrow> if ts > mark then OutcomeCommitted ts else OutcomeAborted))"
  by (auto simp: outcome_def prune_settled_def Let_def split: option.splits txn_outcome.splits)

lemma prune_settled_in_flight:
  "outcome (snd (prune_settled r lw)) t = OutcomeInFlight \<longleftrightarrow> outcome r t = OutcomeInFlight"
  by (auto simp: outcome_prune_settled split: txn_outcome.splits option.splits)

lemma prune_settled_count:
  "fst (prune_settled r lw) + reg_len (snd (prune_settled r lw)) = reg_len r"
  by (auto simp: prune_settled_def Let_def reg_len_def fm_retain_def
      intro!: le_add_diff_inverse2 fcard_mono)

subsection \<open>Visibility through the resolved commit timestamp\<close>

text \<open>The stamp of the snapshot's own uncommitted write.\<close>

definition own_stamp :: "snapshot \<Rightarrow> u64 \<Rightarrow> bool" where
  "own_stamp s w \<longleftrightarrow> from_raw w = InFlight (owner s)"

lemma creator_visible_resolve:
  "creator_visible s w r \<longleftrightarrow>
     own_stamp s w \<or> (\<exists>ts. resolve_commit_ts r w = Some ts \<and> \<not> own_stamp s w \<and> ts \<le> snap_ts s)"
  by (auto simp: creator_visible_def resolve_commit_ts_def own_stamp_def
      split: version_stamp.splits txn_outcome.splits)

lemma expirer_hides_eq_creator_visible: "expirer_hides s w r = creator_visible s w r"
  by (simp add: expirer_hides_def creator_visible_def)

end
