(* ===== verification/Versioned_Store.thy ===== *)
theory Versioned_Store
  imports Visibility
begin

text \<open>
  The multiversion record store, \<^verbatim>\<open>crates/graphus-txn/src/store.rs\<close>: the operations of the trait
  \<^verbatim>\<open>VersionedStore\<close> as a record of functions, the in-memory implementation
  \<^verbatim>\<open>MemVersionedStore\<close>, the contract between them as the locale \<open>versioned_store\<close>, and the
  garbage-collection entry point of \<^verbatim>\<open>crates/graphus-txn/src/gc.rs\<close>.

  The contract is stated through the chain of versions of a key, newest first: every operation
  of the trait is one function on chains.
\<close>

subsection \<open>Versions and the store interface\<close>

record version =
  xmin :: u64
  xmax :: u64
  payload :: bytes

definition is_live :: "version \<Rightarrow> bool" where
  "is_live v \<longleftrightarrow> xmax v = 0"

text \<open>
  The trait's methods. An \<open>Inl\<close> result leaves the store as it was.
\<close>

record 's store_ops =
  create_version :: "'s \<Rightarrow> key \<Rightarrow> txn_id \<Rightarrow> bytes \<Rightarrow> graphus_error + 's"
  expire_version :: "'s \<Rightarrow> key \<Rightarrow> txn_id \<Rightarrow> graphus_error + 's"
  read_visible :: "'s \<Rightarrow> key \<Rightarrow> snapshot \<Rightarrow> commit_registry \<Rightarrow> bytes option"
  commit_writer :: "'s \<Rightarrow> txn_id \<Rightarrow> timestamp \<Rightarrow> graphus_error + 's"
  abort_writer :: "'s \<Rightarrow> txn_id \<Rightarrow> graphus_error + 's"
  gc :: "'s \<Rightarrow> timestamp option \<Rightarrow> commit_registry \<Rightarrow> nat \<times> 's"
  version_count :: "'s \<Rightarrow> nat"
  head_xmin :: "'s \<Rightarrow> key \<Rightarrow> u64 option"

subsection \<open>The in-memory store\<close>

record mem_store =
  chains :: "(key, version list) fmap"

definition mem_new :: mem_store where
  "mem_new = \<lparr>chains = fmempty\<rparr>"

definition mem_chain :: "mem_store \<Rightarrow> key \<Rightarrow> version list option" where
  "mem_chain s k = fmlookup (chains s) k"

fun supersede_head :: "u64 \<Rightarrow> version list \<Rightarrow> version list" where
  "supersede_head stamp [] = []"
| "supersede_head stamp (head # rest) =
     (if xmax head = 0 then head\<lparr>xmax := stamp\<rparr> else head) # rest"

definition mem_create_version ::
  "mem_store \<Rightarrow> key \<Rightarrow> txn_id \<Rightarrow> bytes \<Rightarrow> graphus_error + mem_store" where
  "mem_create_version s k writer body =
     (case in_flight writer of
        Inl e \<Rightarrow> Inl e
      | Inr stamp \<Rightarrow>
          Inr (s\<lparr>chains := fm_entry k []
                   (\<lambda>chain. \<lparr>xmin = stamp, xmax = 0, payload = body\<rparr> # supersede_head stamp chain)
                   (chains s)\<rparr>))"

definition mem_expire_version :: "mem_store \<Rightarrow> key \<Rightarrow> txn_id \<Rightarrow> graphus_error + mem_store" where
  "mem_expire_version s k writer =
     (case in_flight writer of
        Inl e \<Rightarrow> Inl e
      | Inr stamp \<Rightarrow>
          (case fmlookup (chains s) k of
             Some (head # rest) \<Rightarrow>
               if xmax head = 0
               then Inr (s\<lparr>chains := fmupd k (head\<lparr>xmax := stamp\<rparr> # rest) (chains s)\<rparr>)
               else Inl (NoLiveHead k)
           | _ \<Rightarrow> Inl (NoLiveHead k)))"

definition mem_read_visible ::
  "mem_store \<Rightarrow> key \<Rightarrow> snapshot \<Rightarrow> commit_registry \<Rightarrow> bytes option" where
  "mem_read_visible s k sn r =
     (case fmlookup (chains s) k of
        None \<Rightarrow> None
      | Some chain \<Rightarrow>
          map_option payload (find (\<lambda>v. is_visible sn (xmin v) (xmax v) r) chain))"

definition stamp_version :: "u64 \<Rightarrow> u64 \<Rightarrow> version \<Rightarrow> version" where
  "stamp_version inflight cmt v =
     (let v1 = (if xmin v = inflight then v\<lparr>xmin := cmt\<rparr> else v)
      in if xmax v1 = inflight then v1\<lparr>xmax := cmt\<rparr> else v1)"

definition mem_commit_writer ::
  "mem_store \<Rightarrow> txn_id \<Rightarrow> timestamp \<Rightarrow> graphus_error + mem_store" where
  "mem_commit_writer s writer ts =
     (case in_flight writer of
        Inl e \<Rightarrow> Inl e
      | Inr inflight \<Rightarrow>
          Inr (s\<lparr>chains := fmmap (map (stamp_version inflight (committed ts))) (chains s)\<rparr>))"

definition abort_chain :: "u64 \<Rightarrow> version list \<Rightarrow> version list" where
  "abort_chain inflight chain =
     map (\<lambda>v. if xmax v = inflight then v\<lparr>xmax := 0\<rparr> else v)
       (filter (\<lambda>v. xmin v \<noteq> inflight) chain)"

definition mem_abort_writer :: "mem_store \<Rightarrow> txn_id \<Rightarrow> graphus_error + mem_store" where
  "mem_abort_writer s writer =
     (case in_flight writer of
        Inl e \<Rightarrow> Inl e
      | Inr inflight \<Rightarrow>
          Inr (s\<lparr>chains := fm_retain (\<lambda>_ c. c \<noteq> [])
                             (fmmap (abort_chain inflight) (chains s))\<rparr>))"

definition gc_keeps :: "timestamp option \<Rightarrow> commit_registry \<Rightarrow> version \<Rightarrow> bool" where
  "gc_keeps low_water r v =
     (case resolve_commit_ts r (xmax v) of
        None \<Rightarrow> True
      | Some xmax_commit \<Rightarrow>
          (case low_water of Some mark \<Rightarrow> xmax_commit > mark | None \<Rightarrow> False))"

definition mem_gc ::
  "mem_store \<Rightarrow> timestamp option \<Rightarrow> commit_registry \<Rightarrow> nat \<times> mem_store" where
  "mem_gc s low_water r =
     (sum_list (map (\<lambda>(_, c). length c - length (filter (gc_keeps low_water r) c))
                 (sorted_list_of_fmap (chains s))),
      s\<lparr>chains := fm_retain (\<lambda>_ c. c \<noteq> [])
                    (fmmap (filter (gc_keeps low_water r)) (chains s))\<rparr>)"

definition mem_version_count :: "mem_store \<Rightarrow> nat" where
  "mem_version_count s = sum_list (map (\<lambda>(_, c). length c) (sorted_list_of_fmap (chains s)))"

definition mem_head_xmin :: "mem_store \<Rightarrow> key \<Rightarrow> u64 option" where
  "mem_head_xmin s k =
     (case fmlookup (chains s) k of Some (v # _) \<Rightarrow> Some (xmin v) | _ \<Rightarrow> None)"

definition mem_ops :: "mem_store store_ops" where
  "mem_ops =
     \<lparr>create_version = mem_create_version, expire_version = mem_expire_version,
      read_visible = mem_read_visible, commit_writer = mem_commit_writer,
      abort_writer = mem_abort_writer, gc = mem_gc,
      version_count = mem_version_count, head_xmin = mem_head_xmin\<rparr>"

subsection \<open>One garbage-collection pass\<close>

record gc_report =
  report_low_water :: "timestamp option"
  versions_reclaimed :: nat
  txns_pruned :: nat

definition collect ::
  "'s store_ops \<Rightarrow> 's \<Rightarrow> timestamp option \<Rightarrow> commit_registry \<Rightarrow> gc_report \<times> 's" where
  "collect S s low_water r =
     (let (n, s') = gc S s low_water r
      in (\<lparr>report_low_water = low_water, versions_reclaimed = n, txns_pruned = 0\<rparr>, s'))"

subsection \<open>The operations on one chain\<close>

definition chain_create :: "u64 \<Rightarrow> bytes \<Rightarrow> version list \<Rightarrow> version list" where
  "chain_create stamp body c = \<lparr>xmin = stamp, xmax = 0, payload = body\<rparr> # supersede_head stamp c"

definition chain_commit :: "u64 \<Rightarrow> timestamp \<Rightarrow> version list \<Rightarrow> version list" where
  "chain_commit stamp ts c = map (stamp_version stamp (committed ts)) c"

definition chain_gc :: "timestamp option \<Rightarrow> commit_registry \<Rightarrow> version list \<Rightarrow> version list" where
  "chain_gc lw r c = filter (gc_keeps lw r) c"

definition chain_read :: "snapshot \<Rightarrow> commit_registry \<Rightarrow> version list \<Rightarrow> bytes option" where
  "chain_read sn r c = map_option payload (find (\<lambda>v. is_visible sn (xmin v) (xmax v) r) c)"

text \<open>
  What a store promises to the transaction manager: \<open>versions s k\<close> is the chain of \<open>k\<close>, newest
  first, and each method acts on it as the chain function of the same name.
\<close>

locale versioned_store =
  fixes S :: "'s store_ops"
    and versions :: "'s \<Rightarrow> key \<Rightarrow> version list"
  assumes create_law: "valid_id w \<Longrightarrow> \<exists>s'. create_version S s k w body = Inr s' \<and>
      versions s' = (versions s)(k := chain_create (to_raw (InFlight w)) body (versions s k))"
    and expire_live_law: "valid_id w \<Longrightarrow> versions s k = v # vs \<Longrightarrow> xmax v = 0 \<Longrightarrow>
      \<exists>s'. expire_version S s k w = Inr s' \<and>
        versions s' = (versions s)(k := v\<lparr>xmax := to_raw (InFlight w)\<rparr> # vs)"
    and expire_dead_law: "valid_id w \<Longrightarrow> (\<And>v vs. versions s k = v # vs \<Longrightarrow> xmax v \<noteq> 0) \<Longrightarrow>
      expire_version S s k w = Inl (NoLiveHead k)"
    and read_law: "read_visible S s k sn r = chain_read sn r (versions s k)"
    and commit_law: "valid_id w \<Longrightarrow> \<exists>s'. commit_writer S s w ts = Inr s' \<and>
      versions s' = (\<lambda>k. chain_commit (to_raw (InFlight w)) ts (versions s k))"
    and abort_law: "valid_id w \<Longrightarrow> \<exists>s'. abort_writer S s w = Inr s' \<and>
      versions s' = (\<lambda>k. abort_chain (to_raw (InFlight w)) (versions s k))"
    and gc_law: "versions (snd (gc S s lw r)) = (\<lambda>k. chain_gc lw r (versions s k))"
    and head_law: "head_xmin S s k =
      (case versions s k of [] \<Rightarrow> None | v # _ \<Rightarrow> Some (xmin v))"

definition mem_versions :: "mem_store \<Rightarrow> key \<Rightarrow> version list" where
  "mem_versions s = fm_get [] (chains s)"

lemma abort_chain_Nil [simp]: "abort_chain w [] = []"
  by (simp add: abort_chain_def)

interpretation mem: versioned_store mem_ops mem_versions
proof (unfold_locales, goal_cases)
  case (1 w s k body)
  then show ?case
    by (auto simp: mem_ops_def mem_create_version_def mem_versions_def fm_get_def chain_create_def
        split: option.splits)
next
  case (2 w s k v vs)
  then show ?case
    by (auto simp: mem_ops_def mem_expire_version_def mem_versions_def fm_get_def
        split: option.splits)
next
  case (3 w s k)
  then show ?case
    by (auto simp: mem_ops_def mem_expire_version_def mem_versions_def fm_get_def
        split: option.splits list.splits)
next
  case (4 s k sn r)
  then show ?case
    by (auto simp: mem_ops_def mem_read_visible_def mem_versions_def fm_get_def chain_read_def
        split: option.splits)
next
  case (5 w s ts)
  then show ?case
    by (auto simp: mem_ops_def mem_commit_writer_def mem_versions_def fm_get_def chain_commit_def
        split: option.splits)
next
  case (6 w s)
  then show ?case
    by (auto simp: mem_ops_def mem_abort_writer_def mem_versions_def fm_get_def
        split: option.splits)
next
  case (7 s lw r)
  then show ?case
    by (auto simp: mem_ops_def mem_gc_def mem_versions_def fm_get_def chain_gc_def
        split: option.splits)
next
  case (8 s k)
  then show ?case
    by (auto simp: mem_ops_def mem_head_xmin_def mem_versions_def fm_get_def
        split: option.splits list.splits)
qed

end
