(* ===== verification/Version_Chain.thy ===== *)
theory Version_Chain
  imports Versioned_Store
begin

text \<open>
  Lemmas on one version chain, used for every store that meets the contract \<open>versioned_store\<close>:
  which chain operations a given snapshot cannot observe, the order of the stamps along a chain
  and how each operation keeps it, and the uniqueness of the version a snapshot sees.
\<close>

subsection \<open>Visibility of the stamps\<close>

lemma from_raw_InFlight_iff: "valid_id t \<Longrightarrow> from_raw w = InFlight t \<longleftrightarrow> w = to_raw (InFlight t)"
  by (metis from_raw_to_raw_InFlight to_raw_from_raw)

lemma hides_zero [simp]: "\<not> expirer_hides sn 0 r"
  by (simp add: expirer_hides_def)

lemma pending_invisible:
  "valid_id w \<Longrightarrow> w \<noteq> owner sn \<Longrightarrow> outcome r w = OutcomeInFlight \<Longrightarrow>
     \<not> creator_visible sn (to_raw (InFlight w)) r"
  by (simp add: creator_visible_def)

lemma pending_no_hide:
  "valid_id w \<Longrightarrow> w \<noteq> owner sn \<Longrightarrow> outcome r w = OutcomeInFlight \<Longrightarrow>
     \<not> expirer_hides sn (to_raw (InFlight w)) r"
  by (simp add: expirer_hides_def)

lemma own_creator_visible:
  "valid_id (owner sn) \<Longrightarrow> creator_visible sn (to_raw (InFlight (owner sn))) r"
  by (simp add: creator_visible_def)

lemma own_expirer_hides:
  "valid_id (owner sn) \<Longrightarrow> expirer_hides sn (to_raw (InFlight (owner sn))) r"
  by (simp add: expirer_hides_def)

lemma creator_visible_settled: "valid_id ts \<Longrightarrow> creator_visible sn ts r \<longleftrightarrow> ts \<le> snap_ts sn"
  by (simp add: creator_visible_def)

lemma expirer_hides_settled: "valid_id ts \<Longrightarrow> expirer_hides sn ts r \<longleftrightarrow> ts \<le> snap_ts sn"
  by (simp add: expirer_hides_def)

text \<open>A stamp's visibility depends on the registry only through its own writer's outcome.\<close>

lemma creator_visible_cong:
  "(\<And>t. from_raw w = InFlight t \<Longrightarrow> t \<noteq> owner sn \<Longrightarrow> outcome r t = outcome r' t) \<Longrightarrow>
     creator_visible sn w r = creator_visible sn w r'"
  by (auto simp: creator_visible_def split: version_stamp.splits)

lemma expirer_hides_cong:
  "(\<And>t. from_raw w = InFlight t \<Longrightarrow> t \<noteq> owner sn \<Longrightarrow> outcome r t = outcome r' t) \<Longrightarrow>
     expirer_hides sn w r = expirer_hides sn w r'"
  by (auto simp: expirer_hides_def split: version_stamp.splits)

subsection \<open>Reads along a chain\<close>

lemma chain_read_Nil [simp]: "chain_read sn r [] = None"
  by (simp add: chain_read_def)

lemma chain_read_Cons:
  "chain_read sn r (v # c) =
     (if is_visible sn (xmin v) (xmax v) r then Some (payload v) else chain_read sn r c)"
  by (simp add: chain_read_def)

lemma chain_read_map:
  assumes "\<And>v. v \<in> set c \<Longrightarrow>
      is_visible sn (xmin (f v)) (xmax (f v)) r' = is_visible sn (xmin v) (xmax v) r"
    and "\<And>v. payload (f v) = payload v"
  shows "chain_read sn r' (map f c) = chain_read sn r c"
  using assms by (induction c) (simp_all add: chain_read_Cons)

lemma chain_read_filter:
  assumes "\<And>v. v \<in> set c \<Longrightarrow> is_visible sn (xmin v) (xmax v) r \<Longrightarrow> P v"
  shows "chain_read sn r (filter P c) = chain_read sn r c"
  using assms by (induction c) (auto simp: chain_read_Cons)

lemma chain_read_registry:
  assumes "\<And>v. v \<in> set c \<Longrightarrow>
      is_visible sn (xmin v) (xmax v) r' = is_visible sn (xmin v) (xmax v) r"
  shows "chain_read sn r' c = chain_read sn r c"
  using chain_read_map [of c sn id r' r] assms by simp

subsection \<open>What another transaction's snapshot cannot observe\<close>

lemma payload_stamp_version [simp]: "payload (stamp_version st ts v) = payload v"
  by (simp add: stamp_version_def Let_def)

lemma xmin_stamp_version [simp]:
  "xmin (stamp_version st ts v) = (if xmin v = st then ts else xmin v)"
  by (simp add: stamp_version_def Let_def)

lemma xmax_stamp_version [simp]:
  "xmax (stamp_version st ts v) = (if xmax v = st then ts else xmax v)"
  by (simp add: stamp_version_def Let_def)

lemma chain_read_create_other:
  assumes "valid_id w" "w \<noteq> owner sn" "outcome r w = OutcomeInFlight"
  shows "chain_read sn r (chain_create (to_raw (InFlight w)) body c) = chain_read sn r c"
proof (cases c)
  case Nil
  with assms show ?thesis
    by (simp add: chain_create_def chain_read_Cons is_visible_def pending_invisible)
next
  case (Cons v vs)
  with assms show ?thesis
    by (auto simp: chain_create_def chain_read_Cons is_visible_def pending_invisible
        pending_no_hide)
qed

lemma chain_read_create_own:
  assumes "valid_id (owner sn)"
  shows "chain_read sn r (chain_create (to_raw (InFlight (owner sn))) body c) = Some body"
  using assms by (simp add: chain_create_def chain_read_Cons is_visible_def own_creator_visible)

lemma chain_read_expire_other:
  assumes "valid_id w" "w \<noteq> owner sn" "outcome r w = OutcomeInFlight" "xmax v = 0"
  shows "chain_read sn r (v\<lparr>xmax := to_raw (InFlight w)\<rparr> # vs) = chain_read sn r (v # vs)"
  using assms by (simp add: chain_read_Cons is_visible_def pending_no_hide)

lemma chain_read_commit_other:
  assumes w: "valid_id w" "w \<noteq> owner sn" "outcome r w = OutcomeInFlight"
    and ts: "valid_id ts" "snap_ts sn < ts"
  shows "chain_read sn (reg_record_commit r w ts) (chain_commit (to_raw (InFlight w)) ts c)
       = chain_read sn r c"
  unfolding chain_commit_def
proof (rule chain_read_map)
  have same: "creator_visible sn (if x = to_raw (InFlight w) then committed ts else x)
      (reg_record_commit r w ts) = creator_visible sn x r" for x
  proof (cases "x = to_raw (InFlight w)")
    case True
    with w ts show ?thesis
      by (simp add: creator_visible_settled pending_invisible committed_def)
  next
    case False
    with w show ?thesis
      by (auto intro!: creator_visible_cong simp: from_raw_InFlight_iff)
  qed
  show "is_visible sn (xmin (stamp_version (to_raw (InFlight w)) (committed ts) v))
          (xmax (stamp_version (to_raw (InFlight w)) (committed ts) v)) (reg_record_commit r w ts)
        = is_visible sn (xmin v) (xmax v) r" for v
    unfolding is_visible_def expirer_hides_eq_creator_visible by (simp add: same)
qed simp

lemma chain_read_abort_other:
  assumes w: "valid_id w" "w \<noteq> owner sn" "outcome r w = OutcomeInFlight"
  shows "chain_read sn (reg_record_abort r w) (abort_chain (to_raw (InFlight w)) c)
       = chain_read sn r c"
proof -
  have reg: "creator_visible sn x (reg_record_abort r w) = creator_visible sn x r" for x
    using w by (auto simp: creator_visible_def split: version_stamp.splits)
  let ?st = "to_raw (InFlight w)"
  have "chain_read sn (reg_record_abort r w) (abort_chain ?st c)
      = chain_read sn r (filter (\<lambda>v. xmin v \<noteq> ?st) c)"
    unfolding abort_chain_def
    by (rule chain_read_map)
       (use w in \<open>auto simp: is_visible_def expirer_hides_eq_creator_visible reg
          pending_invisible creator_visible_def [of sn 0]\<close>)
  also have "\<dots> = chain_read sn r c"
    by (rule chain_read_filter) (use w in \<open>auto simp: is_visible_def pending_invisible\<close>)
  finally show ?thesis .
qed

lemma chain_read_gc:
  assumes "\<And>mark. lw = Some mark \<Longrightarrow> mark \<le> snap_ts sn" "lw \<noteq> None"
  shows "chain_read sn r (chain_gc lw r c) = chain_read sn r c"
  unfolding chain_gc_def
proof (rule chain_read_filter)
  fix v :: version
  assume vis: "is_visible sn (xmin v) (xmax v) r"
  from assms obtain mark where lw: "lw = Some mark" "mark \<le> snap_ts sn" by auto
  show "gc_keeps lw r v"
  proof (rule ccontr)
    assume "\<not> gc_keeps lw r v"
    with lw obtain c where "resolve_commit_ts r (xmax v) = Some c" "c \<le> snap_ts sn"
      by (auto simp: gc_keeps_def split: option.splits)
    then have "creator_visible sn (xmax v) r"
      by (auto simp: creator_visible_resolve)
    with vis show False by (simp add: is_visible_def expirer_hides_eq_creator_visible)
  qed
qed

subsection \<open>Stamps in use\<close>

text \<open>
  \<open>stamp_ok W now w\<close>: the word is a commit timestamp issued by now, or the in-flight stamp of one
  of the transactions in \<open>W\<close>.
\<close>

definition settled :: "timestamp \<Rightarrow> u64 \<Rightarrow> bool" where
  "settled now w \<longleftrightarrow> valid_id w \<and> w \<le> now"

definition stamp_ok :: "txn_id set \<Rightarrow> timestamp \<Rightarrow> u64 \<Rightarrow> bool" where
  "stamp_ok W now w \<longleftrightarrow> settled now w \<or> (\<exists>t \<in> W. valid_id t \<and> w = to_raw (InFlight t))"

definition chain_ok :: "txn_id set \<Rightarrow> timestamp \<Rightarrow> version list \<Rightarrow> bool" where
  [invs]: "chain_ok W now c \<longleftrightarrow>
     (\<forall>v \<in> set c. stamp_ok W now (xmin v) \<and> (xmax v = 0 \<or> stamp_ok W now (xmax v)))"

lemma settled_mono: "settled now w \<Longrightarrow> now \<le> now' \<Longrightarrow> settled now' w"
  by (auto simp: settled_def)

lemma stamp_ok_mono: "stamp_ok W now w \<Longrightarrow> W \<subseteq> W' \<Longrightarrow> now \<le> now' \<Longrightarrow> stamp_ok W' now' w"
  by (auto simp: stamp_ok_def intro: settled_mono)

lemma chain_ok_mono: "chain_ok W now c \<Longrightarrow> W \<subseteq> W' \<Longrightarrow> now \<le> now' \<Longrightarrow> chain_ok W' now' c"
  by (auto simp: chain_ok_def intro: stamp_ok_mono)

lemma stamp_ok_nonzero: "stamp_ok W now w \<Longrightarrow> w \<noteq> 0"
  by (auto simp: stamp_ok_def settled_def valid_id_def)

lemma stamp_ok_InFlight: "t \<in> W \<Longrightarrow> valid_id t \<Longrightarrow> stamp_ok W now (to_raw (InFlight t))"
  by (auto simp: stamp_ok_def)

lemma settled_less_pending: "settled now w \<Longrightarrow> w < to_raw (InFlight t)"
proof -
  assume "settled now w"
  then have "w \<le> MAX_TIMESTAMP" by (simp add: settled_def valid_id_def)
  moreover have "\<not> to_raw (InFlight t) \<le> MAX_TIMESTAMP"
    by (simp add: le_MAX_TIMESTAMP bit_to_raw_InFlight)
  ultimately show ?thesis by simp
qed

lemma chain_ok_create:
  "chain_ok W now c \<Longrightarrow> t \<in> W \<Longrightarrow> valid_id t \<Longrightarrow>
     chain_ok W now (chain_create (to_raw (InFlight t)) body c)"
  by (cases c) (auto simp: chain_ok_def chain_create_def stamp_ok_InFlight)

lemma stamp_ok_commit:
  assumes "stamp_ok W now w" "valid_id t" "valid_id ts" "now \<le> ts"
  shows "stamp_ok (W - {t}) ts (if w = to_raw (InFlight t) then ts else w)"
  using assms by (auto simp: stamp_ok_def settled_def InFlight_not_committed)

lemma chain_ok_commit:
  assumes "chain_ok W now c" "valid_id t" "valid_id ts" "now \<le> ts"
  shows "chain_ok (W - {t}) ts (chain_commit (to_raw (InFlight t)) ts c)"
  using assms stamp_ok_commit [OF _ assms(2-4), of W]
  by (fastforce simp: chain_ok_def chain_commit_def committed_def)

lemma stamp_ok_remove:
  "stamp_ok W now w \<Longrightarrow> w \<noteq> to_raw (InFlight t) \<Longrightarrow> stamp_ok (W - {t}) now w"
  by (auto simp: stamp_ok_def)

lemma chain_ok_abort:
  "chain_ok W now c \<Longrightarrow> chain_ok (W - {t}) now (abort_chain (to_raw (InFlight t)) c)"
  by (auto simp: chain_ok_def abort_chain_def intro: stamp_ok_remove)

lemma chain_ok_gc: "chain_ok W now c \<Longrightarrow> chain_ok W now (chain_gc lw r c)"
  by (auto simp: chain_ok_def chain_gc_def)

lemma chain_ok_expire:
  "chain_ok W now (v # c) \<Longrightarrow> t \<in> W \<Longrightarrow> valid_id t \<Longrightarrow>
     chain_ok W now (v\<lparr>xmax := to_raw (InFlight t)\<rparr> # c)"
  by (auto simp: chain_ok_def stamp_ok_InFlight)

text \<open>Reads of a chain in use depend on the registry only through its pending writers.\<close>

lemma stamp_ok_from_raw:
  "stamp_ok W now w \<Longrightarrow> from_raw w = InFlight t \<Longrightarrow> t \<in> W"
  by (auto simp: stamp_ok_def settled_def)

lemma chain_read_registry_ok:
  assumes "chain_ok W now c" "\<And>t. t \<in> W \<Longrightarrow> outcome r' t = outcome r t"
  shows "chain_read sn r' c = chain_read sn r c"
proof (rule chain_read_registry)
  fix v :: version
  assume "v \<in> set c"
  with assms(1) have "stamp_ok W now (xmin v)" "xmax v = 0 \<or> stamp_ok W now (xmax v)"
    by (auto simp: chain_ok_def)
  then show "is_visible sn (xmin v) (xmax v) r' = is_visible sn (xmin v) (xmax v) r"
    using assms(2)
    by (auto simp: is_visible_def dest: stamp_ok_from_raw
        intro!: arg_cong2 [where f = "(\<and>)"] creator_visible_cong
          arg_cong [where f = Not] expirer_hides_cong)
qed

subsection \<open>The order of the stamps along a chain\<close>

text \<open>
  Newest first, the raw words only go down: a version ends at or before the point where the next
  newer one starts. An in-flight stamp has bit 63 set, so as a word it lies above every timestamp,
  and one comparison covers settled and pending stamps alike.
\<close>

fun chain_sorted :: "version list \<Rightarrow> bool" where
  "chain_sorted [] \<longleftrightarrow> True"
| "chain_sorted (v # vs) \<longleftrightarrow>
     (xmax v = 0 \<or> xmin v \<le> xmax v) \<and>
     (\<forall>u \<in> set vs. xmax u \<noteq> 0 \<and> xmax u \<le> xmin v) \<and>
     chain_sorted vs"

lemma chain_sorted_head:
  assumes "chain_sorted (v # vs)" "u \<in> set (v # vs)"
  shows "xmin u \<le> xmin v"
proof (cases "u = v")
  case False
  then have u: "u \<in> set vs" using assms by simp
  then have "xmax u \<noteq> 0" "xmax u \<le> xmin v" using assms(1) by auto
  moreover have "xmax u = 0 \<or> xmin u \<le> xmax u" using assms(1) u by (induction vs) auto
  ultimately show ?thesis by simp
qed simp

lemma chain_sorted_filter: "chain_sorted c \<Longrightarrow> chain_sorted (filter P c)"
  by (induction c) auto

lemma chain_sorted_gc: "chain_sorted c \<Longrightarrow> chain_sorted (chain_gc lw r c)"
  by (simp add: chain_gc_def chain_sorted_filter)

lemma stamp_ok_le_pending:
  "stamp_ok W now w \<Longrightarrow> W \<subseteq> {t} \<Longrightarrow> w \<le> to_raw (InFlight t)"
  by (auto simp: stamp_ok_def intro: less_imp_le settled_less_pending)

lemma stamp_ok_cases_one:
  assumes "stamp_ok W now w" "W \<subseteq> {t}"
  obtains "settled now w" "w < to_raw (InFlight t)" | "w = to_raw (InFlight t)"
  using assms by (auto simp: stamp_ok_def dest: settled_less_pending)

lemma chain_sorted_create:
  assumes "chain_sorted c" "chain_ok W now c" "W \<subseteq> {t}"
  shows "chain_sorted (chain_create (to_raw (InFlight t)) body c)"
  using assms
  by (cases c) (auto simp: chain_create_def chain_ok_def intro: stamp_ok_le_pending)

lemma chain_sorted_expire:
  assumes "chain_sorted (v # c)" "chain_ok W now (v # c)" "W \<subseteq> {t}"
  shows "chain_sorted (v\<lparr>xmax := to_raw (InFlight t)\<rparr> # c)"
  using assms by (auto simp: chain_ok_def dest: stamp_ok_le_pending)

lemma stamp_commit_mono:
  assumes "stamp_ok W now x" "stamp_ok W now y" "W \<subseteq> {t}" "now \<le> ts" "x \<le> y"
  shows "(if x = to_raw (InFlight t) then ts else x) \<le> (if y = to_raw (InFlight t) then ts else y)"
proof (cases rule: stamp_ok_cases_one [OF assms(1,3)])
  case 1
  then have "x \<le> ts" using assms(4) by (auto simp: settled_def)
  with 1 assms(5) show ?thesis by auto
next
  case 2
  then have "y = x" using stamp_ok_le_pending [OF assms(2,3)] assms(5) by simp
  then show ?thesis by simp
qed

lemma chain_ok_Cons:
  "chain_ok W now (v # c) \<longleftrightarrow>
     stamp_ok W now (xmin v) \<and> (xmax v = 0 \<or> stamp_ok W now (xmax v)) \<and> chain_ok W now c"
  by (auto simp: chain_ok_def)

lemma chain_sorted_commit:
  assumes "chain_sorted c" "chain_ok W now c" "W \<subseteq> {t}" "valid_id ts" "now \<le> ts"
  shows "chain_sorted (chain_commit (to_raw (InFlight t)) ts c)"
  using assms(1,2)
proof (induction c)
  case Nil
  then show ?case by (simp add: chain_commit_def)
next
  case (Cons v c)
  let ?f = "\<lambda>x. if x = to_raw (InFlight t) then ts else x"
  have mono: "?f x \<le> ?f y" if "stamp_ok W now x" "stamp_ok W now y" "x \<le> y" for x y
    using stamp_commit_mono [OF that(1,2) assms(3,5) that(3)] .
  from assms(4) have "ts \<noteq> 0" by (simp add: valid_id_def)
  have "?f (xmax v) = 0 \<or> ?f (xmin v) \<le> ?f (xmax v)"
    using Cons.prems mono [of "xmin v" "xmax v"] by (auto simp: chain_ok_Cons)
  moreover have "?f (xmax u) \<noteq> 0 \<and> ?f (xmax u) \<le> ?f (xmin v)" if "u \<in> set c" for u
    using Cons.prems that mono [of "xmax u" "xmin v"] \<open>ts \<noteq> 0\<close>
    by (auto simp: chain_ok_def)
  moreover have "chain_sorted (chain_commit (to_raw (InFlight t)) ts c)"
    using Cons by (simp add: chain_ok_Cons)
  ultimately show ?case by (simp add: chain_commit_def committed_def)
qed

lemma chain_sorted_abort:
  assumes "chain_sorted c" "chain_ok W now c" "W \<subseteq> {t}"
  shows "chain_sorted (abort_chain (to_raw (InFlight t)) c)"
  using assms(1,2)
proof (induction c)
  case Nil
  then show ?case by simp
next
  case (Cons v c)
  let ?st = "to_raw (InFlight t)"
  from Cons have IH: "chain_sorted (abort_chain ?st c)" by (simp add: chain_ok_Cons)
  show ?case
  proof (cases "xmin v = ?st")
    case True
    with IH show ?thesis by (simp add: abort_chain_def)
  next
    case False
    with Cons.prems assms(3) have lt: "xmin v < ?st"
      by (auto simp: chain_ok_Cons elim: stamp_ok_cases_one)
    then have "xmax u \<noteq> ?st" if "u \<in> set c" for u
      using Cons.prems that by auto
    with Cons.prems IH False show ?thesis
      by (auto simp: abort_chain_def)
  qed
qed

text \<open>A chain that carries no stamp of a transaction is unchanged by its abort or commit.\<close>

lemma stamp_ok_other:
  "stamp_ok W now w \<Longrightarrow> t \<notin> W \<Longrightarrow> valid_id t \<Longrightarrow> w \<noteq> to_raw (InFlight t)"
  by (metis from_raw_InFlight_iff stamp_ok_from_raw)

lemma abort_chain_other:
  assumes "chain_ok W now c" "t \<notin> W" "valid_id t"
  shows "abort_chain (to_raw (InFlight t)) c = c"
proof -
  have "xmin v \<noteq> to_raw (InFlight t) \<and> (xmax v = to_raw (InFlight t) \<longrightarrow> xmax v = 0)" if "v \<in> set c" for v
    using assms that by (auto simp: chain_ok_def dest: stamp_ok_other)
  then show ?thesis unfolding abort_chain_def
    by (induction c) auto
qed

lemma chain_commit_other:
  assumes "chain_ok W now c" "t \<notin> W" "valid_id t"
  shows "chain_commit (to_raw (InFlight t)) ts c = c"
proof -
  have "stamp_version (to_raw (InFlight t)) (committed ts) v = v" if "v \<in> set c" for v
  proof -
    have "xmin v \<noteq> to_raw (InFlight t)" "xmax v \<noteq> to_raw (InFlight t)"
      using assms that by (auto simp: chain_ok_def dest: stamp_ok_other stamp_ok_nonzero
          intro: to_raw_InFlight_nonzero)
    then show ?thesis by (simp add: stamp_version_def Let_def)
  qed
  then show ?thesis by (simp add: chain_commit_def map_idI)
qed

lemma chain_sorted_abort_any:
  assumes "chain_sorted c" "chain_ok W now c" "\<And>x y. x \<in> W \<Longrightarrow> y \<in> W \<Longrightarrow> x = y" "valid_id t"
  shows "chain_sorted (abort_chain (to_raw (InFlight t)) c)"
  using assms chain_sorted_abort [of c W now t] abort_chain_other [of W now c t]
  by (cases "t \<in> W") auto

lemma chain_sorted_commit_any:
  assumes "chain_sorted c" "chain_ok W now c" "\<And>x y. x \<in> W \<Longrightarrow> y \<in> W \<Longrightarrow> x = y" "valid_id t"
    and "valid_id ts" "now \<le> ts"
  shows "chain_sorted (chain_commit (to_raw (InFlight t)) ts c)"
  using assms chain_sorted_commit [of c W now t ts] chain_commit_other [of W now c t]
  by (cases "t \<in> W") auto

subsection \<open>The committed state as of a timestamp\<close>

text \<open>
  \<open>value_at ts c\<close> is the committed value of the key at time \<open>ts\<close>: the payload of the version
  created by then and not yet expired by then, with no reference to any transaction.
\<close>

definition live_at :: "timestamp \<Rightarrow> version \<Rightarrow> bool" where
  "live_at ts v \<longleftrightarrow> settled ts (xmin v) \<and> \<not> settled ts (xmax v)"

definition value_at :: "timestamp \<Rightarrow> version list \<Rightarrow> bytes option" where
  "value_at ts c = map_option payload (find (live_at ts) c)"

lemma not_settled_zero [simp]: "\<not> settled now 0"
  by (simp add: settled_def valid_id_def)

lemma not_settled_pending [simp]: "\<not> settled now (to_raw (InFlight t))"
  using settled_less_pending [of now "to_raw (InFlight t)" t] by auto

lemma is_visible_live_at:
  assumes "stamp_ok W now (xmin v)" "xmax v = 0 \<or> stamp_ok W now (xmax v)"
    and "owner sn \<notin> W" "\<And>t. t \<in> W \<Longrightarrow> outcome r t = OutcomeInFlight"
  shows "is_visible sn (xmin v) (xmax v) r = live_at (snap_ts sn) v"
proof -
  have "creator_visible sn w r = settled (snap_ts sn) w" if w: "stamp_ok W now w" for w
  proof (cases "settled now w")
    case True
    then show ?thesis by (simp add: settled_def creator_visible_settled)
  next
    case False
    with w obtain t where t: "t \<in> W" "valid_id t" "w = to_raw (InFlight t)"
      by (auto simp: stamp_ok_def)
    with assms(3,4) have "\<not> creator_visible sn w r"
      using pending_invisible [of t sn r] by blast
    with t show ?thesis by simp
  qed
  then show ?thesis
    using assms(1,2)
    by (auto simp: is_visible_def live_at_def expirer_hides_eq_creator_visible
        creator_visible_def [of sn 0])
qed

lemma chain_read_value_at:
  assumes "chain_ok W now c" "owner sn \<notin> W" "\<And>t. t \<in> W \<Longrightarrow> outcome r t = OutcomeInFlight"
  shows "chain_read sn r c = value_at (snap_ts sn) c"
proof -
  have "find (\<lambda>v. is_visible sn (xmin v) (xmax v) r) c = find (live_at (snap_ts sn)) c"
    using assms is_visible_live_at [OF _ _ assms(2,3)]
    by (intro find_cong) (auto simp: chain_ok_def)
  then show ?thesis by (simp add: chain_read_def value_at_def)
qed

lemma live_at_unique:
  assumes "chain_sorted (v # c)" "live_at ts v" "u \<in> set c" "chain_ok W now (v # c)"
  shows "\<not> live_at ts u"
proof
  assume u: "live_at ts u"
  from assms have le: "xmax u \<noteq> 0" "xmax u \<le> xmin v" by auto
  moreover from assms(2) have v: "valid_id (xmin v)" "xmin v \<le> ts"
    by (auto simp: live_at_def settled_def)
  ultimately have "settled ts (xmax u)"
    by (auto simp: settled_def valid_id_def)
  with u show False by (simp add: live_at_def)
qed

end
