(* ===== verification/Ssi.thy ===== *)
theory Ssi
  imports Version_Stamp "HOL-Library.List_Lexorder" "HOL-Library.Product_Lexorder"
begin

text \<open>
  The conflict tracker of serializable snapshot isolation, \<^verbatim>\<open>crates/graphus-txn/src/ssi.rs\<close>:
  SIREAD markers on keys and on predicates, rw-antidependency edges between concurrent
  transactions, and the choice of the transaction to abort when a dangerous structure
  \<open>T\<^sub>i\<^sub>n \<rightarrow> T\<^sub>p\<^sub>i\<^sub>v\<^sub>o\<^sub>t \<rightarrow> T\<^sub>o\<^sub>u\<^sub>t\<close> forms.
\<close>

subsection \<open>Predicate markers and their total order\<close>

datatype predicate_read =
    AllNodes
  | Label u32
  | Equality u32 u32 bytes
  | AnyRel
  | RelType u32
  | RelEquality u32 u32 bytes

text \<open>The derived \<^verbatim>\<open>Ord\<close>: the variant first, then the fields in their order.\<close>

fun pred_rank :: "predicate_read \<Rightarrow> nat \<times> u32 \<times> u32 \<times> bytes" where
  "pred_rank AllNodes = (0, 0, 0, [])"
| "pred_rank (Label l) = (1, l, 0, [])"
| "pred_rank (Equality l p v) = (2, l, p, v)"
| "pred_rank AnyRel = (3, 0, 0, [])"
| "pred_rank (RelType t) = (4, t, 0, [])"
| "pred_rank (RelEquality t p v) = (5, t, p, v)"

lemma pred_rank_inj: "pred_rank p = pred_rank q \<longleftrightarrow> p = q"
  by (cases p; cases q) auto

instantiation predicate_read :: linorder
begin

definition less_eq_predicate_read :: "predicate_read \<Rightarrow> predicate_read \<Rightarrow> bool" where
  "p \<le> q \<longleftrightarrow> pred_rank p \<le> pred_rank q"

definition less_predicate_read :: "predicate_read \<Rightarrow> predicate_read \<Rightarrow> bool" where
  "p < q \<longleftrightarrow> pred_rank p < pred_rank q"

instance
proof
  fix p q r :: predicate_read
  show "p < q \<longleftrightarrow> p \<le> q \<and> \<not> q \<le> p"
    by (auto simp only: less_predicate_read_def less_eq_predicate_read_def less_le_not_le)
  show "p \<le> p"
    by (simp only: less_eq_predicate_read_def order.refl)
  show "p \<le> q \<Longrightarrow> q \<le> r \<Longrightarrow> p \<le> r"
    unfolding less_eq_predicate_read_def by (rule order.trans)
  show "p \<le> q \<Longrightarrow> q \<le> p \<Longrightarrow> p = q"
    unfolding less_eq_predicate_read_def by (metis order.antisym pred_rank_inj)
  show "p \<le> q \<or> q \<le> p"
    by (simp only: less_eq_predicate_read_def linear)
qed

end

subsection \<open>State\<close>

record txn_conflict =
  reads :: "key fset"
  predicate_reads :: "predicate_read fset"
  writes :: "key fset"
  predicate_writes :: "predicate_read fset"
  in_conflict :: bool
  out_conflict :: bool
  out_edges :: "txn_id fset"
  in_edges :: "txn_id fset"
  commit_ts :: "timestamp option"
  begin_ts :: timestamp

record ssi_tracker =
  txns :: "(txn_id, txn_conflict) fmap"
  readers_of :: "(key, txn_id fset) fmap"
  predicate_readers_of :: "(predicate_read, txn_id fset) fmap"
  writers_of :: "(key, txn_id fset) fmap"
  predicate_writers_of :: "(predicate_read, txn_id fset) fmap"
  doomed :: "txn_id fset"
  snapshot_txns :: "txn_id fset"

definition ssi_new :: ssi_tracker where
  "ssi_new = \<lparr>txns = fmempty, readers_of = fmempty, predicate_readers_of = fmempty,
     writers_of = fmempty, predicate_writers_of = fmempty, doomed = {||}, snapshot_txns = {||}\<rparr>"

definition conflict_new :: "timestamp \<Rightarrow> txn_conflict" where
  "conflict_new ts = \<lparr>reads = {||}, predicate_reads = {||}, writes = {||}, predicate_writes = {||},
     in_conflict = False, out_conflict = False, out_edges = {||}, in_edges = {||},
     commit_ts = None, begin_ts = ts\<rparr>"

subsection \<open>The reader's marker buffer\<close>

record ssi_read_buffer =
  buf_reader :: txn_id
  buf_keys :: "key list"
  buf_predicates :: "predicate_read list"

definition buffer_new :: "txn_id \<Rightarrow> ssi_read_buffer" where
  "buffer_new rd = \<lparr>buf_reader = rd, buf_keys = [], buf_predicates = []\<rparr>"

definition buffer_is_empty :: "ssi_read_buffer \<Rightarrow> bool" where
  "buffer_is_empty b \<longleftrightarrow> buf_keys b = [] \<and> buf_predicates b = []"

definition buffer_record_read :: "ssi_read_buffer \<Rightarrow> key \<Rightarrow> ssi_read_buffer" where
  "buffer_record_read b k = b\<lparr>buf_keys := buf_keys b @ [k]\<rparr>"

definition buffer_record_predicate_read ::
  "ssi_read_buffer \<Rightarrow> predicate_read \<Rightarrow> ssi_read_buffer" where
  "buffer_record_predicate_read b p = b\<lparr>buf_predicates := buf_predicates b @ [p]\<rparr>"

definition buffer_absorb :: "ssi_read_buffer \<Rightarrow> ssi_read_buffer \<Rightarrow> ssi_read_buffer" where
  "buffer_absorb b other =
     b\<lparr>buf_keys := buf_keys b @ buf_keys other,
       buf_predicates := buf_predicates b @ buf_predicates other\<rparr>"

text \<open>\<^verbatim>\<open>sort_unstable\<close> followed by \<^verbatim>\<open>dedup\<close>, which drops consecutive repetitions.\<close>

definition sort_dedup :: "'a::linorder list \<Rightarrow> 'a list" where
  "sort_dedup xs = remdups_adj (sort xs)"

definition into_sorted_markers ::
  "ssi_read_buffer \<Rightarrow> txn_id \<times> key list \<times> predicate_read list" where
  "into_sorted_markers b =
     (buf_reader b, sort_dedup (buf_keys b), sort_dedup (buf_predicates b))"

subsection \<open>Registration and snapshot demotion\<close>

definition ssi_register :: "ssi_tracker \<Rightarrow> txn_id \<Rightarrow> timestamp \<Rightarrow> ssi_tracker" where
  "ssi_register t txn ts =
     (case fmlookup (txns t) txn of
        Some _ \<Rightarrow> t
      | None \<Rightarrow> t\<lparr>txns := fmupd txn (conflict_new ts) (txns t)\<rparr>)"

definition mark_snapshot :: "ssi_tracker \<Rightarrow> txn_id \<Rightarrow> ssi_tracker" where
  "mark_snapshot t txn = t\<lparr>snapshot_txns := finsert txn (snapshot_txns t)\<rparr>"

definition is_snapshot :: "ssi_tracker \<Rightarrow> txn_id \<Rightarrow> bool" where
  "is_snapshot t txn \<longleftrightarrow> txn |\<in>| snapshot_txns t"

subsection \<open>Edges\<close>

definition are_concurrent :: "ssi_tracker \<Rightarrow> txn_id \<Rightarrow> txn_id \<Rightarrow> bool" where
  "are_concurrent t a b =
     (case (fmlookup (txns t) a, fmlookup (txns t) b) of
        (Some ta, Some tb) \<Rightarrow>
          (let a_before_b = (case commit_ts ta of Some c \<Rightarrow> c \<le> begin_ts tb | None \<Rightarrow> False);
               b_before_a = (case commit_ts tb of Some c \<Rightarrow> c \<le> begin_ts ta | None \<Rightarrow> False)
           in \<not> a_before_b \<and> \<not> b_before_a)
      | _ \<Rightarrow> False)"

definition pivot_committed :: "ssi_tracker \<Rightarrow> txn_id \<Rightarrow> bool" where
  "pivot_committed t p =
     (case fmlookup (txns t) p of
        Some c \<Rightarrow> in_conflict c \<and> out_conflict c \<and> commit_ts c \<noteq> None
      | None \<Rightarrow> False)"

definition ssi_active :: "ssi_tracker \<Rightarrow> txn_id \<Rightarrow> bool" where
  "ssi_active t p = (case fmlookup (txns t) p of Some c \<Rightarrow> commit_ts c = None | None \<Rightarrow> False)"

definition add_edge :: "ssi_tracker \<Rightarrow> txn_id \<Rightarrow> txn_id \<Rightarrow> ssi_tracker" where
  "add_edge t src dst =
     (if src = dst then t
      else
        let t1 = t\<lparr>txns := fm_adjust src
                    (\<lambda>c. c\<lparr>out_conflict := True, out_edges := finsert dst (out_edges c)\<rparr>) (txns t)\<rparr>;
            t2 = t1\<lparr>txns := fm_adjust dst
                    (\<lambda>c. c\<lparr>in_conflict := True, in_edges := finsert src (in_edges c)\<rparr>) (txns t1)\<rparr>;
            t3 = (if pivot_committed t2 dst \<and> ssi_active t2 src
                  then t2\<lparr>doomed := finsert src (doomed t2)\<rparr> else t2)
        in if pivot_committed t3 src \<and> ssi_active t3 dst
           then t3\<lparr>doomed := finsert dst (doomed t3)\<rparr> else t3)"

text \<open>
  The loops over a collected hash set run in some unspecified order; the model takes the
  ascending one, and \<open>add_edges_out_order\<close> below shows that the order does not matter.
\<close>

definition add_edges_out :: "ssi_tracker \<Rightarrow> txn_id \<Rightarrow> txn_id fset \<Rightarrow> ssi_tracker" where
  "add_edges_out t src dsts = fold (\<lambda>w s. add_edge s src w) (sorted_list_of_fset dsts) t"

definition add_edges_in :: "ssi_tracker \<Rightarrow> txn_id fset \<Rightarrow> txn_id \<Rightarrow> ssi_tracker" where
  "add_edges_in t srcs dst = fold (\<lambda>r s. add_edge s r dst) (sorted_list_of_fset srcs) t"

subsection \<open>Recording reads and writes\<close>

definition ssi_record_read :: "ssi_tracker \<Rightarrow> txn_id \<Rightarrow> key \<Rightarrow> ssi_tracker" where
  "ssi_record_read t rd k =
     (let t1 = t\<lparr>txns := fm_adjust rd (\<lambda>c. c\<lparr>reads := finsert k (reads c)\<rparr>) (txns t),
                 readers_of := fm_entry k {||} (finsert rd) (readers_of t)\<rparr>;
          ws = ffilter (\<lambda>w. w \<noteq> rd \<and> are_concurrent t1 rd w) (fm_get {||} (writers_of t1) k)
      in add_edges_out t1 rd ws)"

definition ssi_record_write :: "ssi_tracker \<Rightarrow> txn_id \<Rightarrow> key \<Rightarrow> ssi_tracker" where
  "ssi_record_write t wr k =
     (let t1 = t\<lparr>txns := fm_adjust wr (\<lambda>c. c\<lparr>writes := finsert k (writes c)\<rparr>) (txns t),
                 writers_of := fm_entry k {||} (finsert wr) (writers_of t)\<rparr>;
          rs = ffilter (\<lambda>r. r \<noteq> wr \<and> are_concurrent t1 r wr) (fm_get {||} (readers_of t1) k)
      in add_edges_in t1 rs wr)"

definition record_predicate_read :: "ssi_tracker \<Rightarrow> txn_id \<Rightarrow> predicate_read \<Rightarrow> ssi_tracker" where
  "record_predicate_read t rd p =
     (let t1 = t\<lparr>txns := fm_adjust rd
                   (\<lambda>c. c\<lparr>predicate_reads := finsert p (predicate_reads c)\<rparr>) (txns t),
                 predicate_readers_of := fm_entry p {||} (finsert rd) (predicate_readers_of t)\<rparr>;
          ws = ffilter (\<lambda>w. w \<noteq> rd \<and> are_concurrent t1 rd w)
                 (fm_get {||} (predicate_writers_of t1) p)
      in add_edges_out t1 rd ws)"

fun record_predicate_write :: "ssi_tracker \<Rightarrow> txn_id \<Rightarrow> predicate_read list \<Rightarrow> ssi_tracker" where
  "record_predicate_write t wr [] = t"
| "record_predicate_write t wr (p # ps) =
     (let t1 = t\<lparr>txns := fm_adjust wr
                   (\<lambda>c. c\<lparr>predicate_writes := finsert p (predicate_writes c)\<rparr>) (txns t),
                 predicate_writers_of := fm_entry p {||} (finsert wr) (predicate_writers_of t)\<rparr>;
          rs = ffilter (\<lambda>r. r \<noteq> wr \<and> are_concurrent t1 r wr)
                 (fm_get {||} (predicate_readers_of t1) p)
      in record_predicate_write (add_edges_in t1 rs wr) wr ps)"

definition merge_read_buffer :: "ssi_tracker \<Rightarrow> ssi_read_buffer \<Rightarrow> ssi_tracker" where
  "merge_read_buffer t buf =
     (if buf_reader buf |\<in>| snapshot_txns t then t
      else
        let t1 = fold (\<lambda>k s. ssi_record_read s (buf_reader buf) k) (sort_dedup (buf_keys buf)) t
        in fold (\<lambda>p s. record_predicate_read s (buf_reader buf) p)
             (sort_dedup (buf_predicates buf)) t1)"

subsection \<open>Choosing a victim\<close>

definition doom :: "ssi_tracker \<Rightarrow> txn_id \<Rightarrow> bool \<times> ssi_tracker" where
  "doom t victim =
     (case fmlookup (txns t) victim of
        None \<Rightarrow> (False, t)
      | Some c \<Rightarrow>
          if commit_ts c \<noteq> None then (False, t)
          else (True, t\<lparr>doomed := finsert victim (doomed t)\<rparr>))"

definition detect_pivot_abort :: "ssi_tracker \<Rightarrow> txn_id \<Rightarrow> txn_id option" where
  "detect_pivot_abort s txn =
     (if txn |\<in>| doomed s then Some txn
      else case fmlookup (txns s) txn of
        None \<Rightarrow> None
      | Some t \<Rightarrow>
          if writes t = {||} \<and> \<not> out_conflict t then None
          else if in_conflict t \<and> out_conflict t \<and>
                  fBex (out_edges t) (\<lambda>out. case fmlookup (txns s) out of
                     None \<Rightarrow> False
                   | Some c \<Rightarrow> commit_ts c \<noteq> None \<or> are_concurrent s txn out)
          then Some txn
          else fm_first_key (fm_retain (\<lambda>pid p. pid \<noteq> txn \<and> in_conflict p \<and> out_conflict p \<and>
                                        txn |\<in>| out_edges p \<and> commit_ts p = None) (txns s)))"

definition ssi_record_commit :: "ssi_tracker \<Rightarrow> txn_id \<Rightarrow> timestamp \<Rightarrow> ssi_tracker" where
  "ssi_record_commit t txn ts = t\<lparr>txns := fm_adjust txn (\<lambda>c. c\<lparr>commit_ts := Some ts\<rparr>) (txns t)\<rparr>"

subsection \<open>Forgetting\<close>

text \<open>Removing a transaction from one entry of a reverse index, and the entry once empty.\<close>

definition index_remove :: "txn_id \<Rightarrow> 'k \<Rightarrow> ('k, txn_id fset) fmap \<Rightarrow> ('k, txn_id fset) fmap" where
  "index_remove txn k idx =
     (case fmlookup idx k of
        None \<Rightarrow> idx
      | Some s \<Rightarrow> let s' = s |-| {|txn|} in if s' = {||} then fmdrop k idx else fmupd k s' idx)"

definition drop_in_edge :: "txn_id \<Rightarrow> txn_conflict \<Rightarrow> txn_conflict" where
  "drop_in_edge txn c =
     (let es = in_edges c |-| {|txn|} in c\<lparr>in_edges := es, in_conflict := es \<noteq> {||}\<rparr>)"

definition drop_out_edge :: "txn_id \<Rightarrow> txn_conflict \<Rightarrow> txn_conflict" where
  "drop_out_edge txn c =
     (let es = out_edges c |-| {|txn|} in c\<lparr>out_edges := es, out_conflict := es \<noteq> {||}\<rparr>)"

definition ssi_forget :: "ssi_tracker \<Rightarrow> txn_id \<Rightarrow> ssi_tracker" where
  "ssi_forget s txn =
     (let s1 = s\<lparr>doomed := doomed s |-| {|txn|}, snapshot_txns := snapshot_txns s |-| {|txn|}\<rparr>
      in case fmlookup (txns s1) txn of
           None \<Rightarrow> s1
         | Some t \<Rightarrow>
             let m0 = fmdrop txn (txns s1);
                 m1 = fold (\<lambda>target. fm_adjust target (drop_in_edge txn))
                        (sorted_list_of_fset (out_edges t)) m0;
                 m2 = fold (\<lambda>source. fm_adjust source (drop_out_edge txn))
                        (sorted_list_of_fset (in_edges t)) m1
             in s1\<lparr>
                  readers_of := fold (index_remove txn) (sorted_list_of_fset (reads t)) (readers_of s1),
                  predicate_readers_of := fold (index_remove txn)
                    (sorted_list_of_fset (predicate_reads t)) (predicate_readers_of s1),
                  writers_of := fold (index_remove txn) (sorted_list_of_fset (writes t)) (writers_of s1),
                  predicate_writers_of := fold (index_remove txn)
                    (sorted_list_of_fset (predicate_writes t)) (predicate_writers_of s1),
                  txns := m2\<rparr>)"

definition prune_committed :: "ssi_tracker \<Rightarrow> timestamp option \<Rightarrow> nat \<times> ssi_tracker" where
  "prune_committed s low_water =
     (let victims = sorted_list_of_fset (fmdom (fm_retain (\<lambda>_ t. case commit_ts t of
                        None \<Rightarrow> False
                      | Some c \<Rightarrow> (case low_water of None \<Rightarrow> True | Some mark \<Rightarrow> c \<le> mark))
                      (txns s)))
      in (length victims, fold (\<lambda>v t. ssi_forget t v) victims s))"

definition is_pivot :: "ssi_tracker \<Rightarrow> txn_id \<Rightarrow> bool" where
  "is_pivot s txn =
     (case fmlookup (txns s) txn of Some t \<Rightarrow> in_conflict t \<and> out_conflict t | None \<Rightarrow> False)"

definition tracks :: "ssi_tracker \<Rightarrow> txn_id \<Rightarrow> bool" where
  "tracks s txn \<longleftrightarrow> txn |\<in>| fmdom (txns s) \<or> txn |\<in>| doomed s"

definition tracked_len :: "ssi_tracker \<Rightarrow> nat" where
  "tracked_len s = fcard (fmdom (txns s))"

end
