(* ===== verification/Manager.thy ===== *)
theory Manager
  imports Oracle Version_Chain Ssi
begin

text \<open>
  The transaction manager, \<^verbatim>\<open>crates/graphus-txn/src/manager.rs\<close>: begin, read, write, delete, commit
  and rollback over the oracle, the commit registry, the conflict tracker and a versioned store,
  with the idle reaper and garbage collection.

  The type parameters of \<^verbatim>\<open>TxnManager<S, D>\<close> are an explicit record of store operations and an
  explicit durability hook. \<^verbatim>\<open>Instant::now()\<close> is the argument \<open>now\<close> of the operations that read the
  clock. Every operation returns its result together with the manager it leaves behind, since
  several of them change the manager before they fail.
\<close>

type_synonym 'd durability_hook = "txn_id \<Rightarrow> 'd \<Rightarrow> (graphus_error + unit) \<times> 'd"

definition no_durability :: "unit durability_hook" where
  "no_durability txn d = (Inr (), d)"

record txn_config =
  max_active_txns :: nat
  idle_timeout :: nat

record active_txn =
  act_snapshot :: snapshot
  isolation :: isolation_level
  written :: "key fset"
  last_active :: nat

record ('s, 'd) txn_manager =
  mgr_oracle :: timestamp_oracle
  registry :: commit_registry
  ssi :: ssi_tracker
  store :: 's
  durability :: 'd
  active :: "(txn_id, active_txn) fmap"
  next_txn_id :: u64
  config :: txn_config

text \<open>\<^verbatim>\<open>TxnConfig::default\<close>: 100,000 transactions and 300 seconds, in nanoseconds.\<close>

definition config_default :: txn_config where
  "config_default = \<lparr>max_active_txns = 100000, idle_timeout = 300 * 10 ^ 9\<rparr>"

definition with_durability_and_config :: "'s \<Rightarrow> 'd \<Rightarrow> txn_config \<Rightarrow> ('s, 'd) txn_manager" where
  "with_durability_and_config s d cfg =
     \<lparr>mgr_oracle = oracle_new, registry = registry_new, ssi = ssi_new, store = s, durability = d,
      active = fmempty, next_txn_id = 0, config = cfg\<rparr>"

definition with_durability :: "'s \<Rightarrow> 'd \<Rightarrow> ('s, 'd) txn_manager" where
  "with_durability s d = with_durability_and_config s d config_default"

subsection \<open>Internals\<close>

definition touch :: "('s, 'd) txn_manager \<Rightarrow> txn_id \<Rightarrow> nat \<Rightarrow> ('s, 'd) txn_manager" where
  "touch m txn now = m\<lparr>active := fm_adjust txn (\<lambda>a. a\<lparr>last_active := now\<rparr>) (active m)\<rparr>"

definition active_snapshot :: "('s, 'd) txn_manager \<Rightarrow> txn_id \<Rightarrow> graphus_error + snapshot" where
  "active_snapshot m txn =
     (case fmlookup (active m) txn of
        Some a \<Rightarrow> Inr (act_snapshot a)
      | None \<Rightarrow> Inl (InactiveTxn txn))"

definition ensure_active :: "('s, 'd) txn_manager \<Rightarrow> txn_id \<Rightarrow> graphus_error + unit" where
  "ensure_active m txn =
     (if txn |\<in>| fmdom (active m) then Inr () else Inl (InactiveTxn txn))"

definition ensure_no_concurrent_committed_write ::
  "'s store_ops \<Rightarrow> ('s, 'd) txn_manager \<Rightarrow> txn_id \<Rightarrow> key \<Rightarrow> graphus_error + unit" where
  "ensure_no_concurrent_committed_write S m txn k =
     (case fmlookup (active m) txn of
        None \<Rightarrow> Inl (InactiveTxn txn)
      | Some a \<Rightarrow>
          (case head_xmin S (store m) k of
             None \<Rightarrow> Inr ()
           | Some w \<Rightarrow>
               (case from_raw w of
                  Committed committed_ts \<Rightarrow>
                    if committed_ts > snap_ts (act_snapshot a) then Inl (WriteConflict k) else Inr ()
                | _ \<Rightarrow> Inr ())))"

text \<open>
  The holder named in the conflict message is the first one the hash map yields; at most one
  active transaction holds a key (\<open>written_exclusive\<close> below), so the least one is that one.
\<close>

definition acquire_write ::
  "('s, 'd) txn_manager \<Rightarrow> txn_id \<Rightarrow> key \<Rightarrow> (graphus_error + unit) \<times> ('s, 'd) txn_manager" where
  "acquire_write m txn k =
     (case fm_first_key (fm_retain (\<lambda>t a. t \<noteq> txn \<and> k |\<in>| written a) (active m)) of
        Some holder \<Rightarrow> (Inl (WriteWriteConflict k holder), m)
      | None \<Rightarrow>
          (Inr (), m\<lparr>active := fm_adjust txn (\<lambda>a. a\<lparr>written := finsert k (written a)\<rparr>) (active m)\<rparr>))"

definition abort_internal ::
  "'s store_ops \<Rightarrow> ('s, 'd) txn_manager \<Rightarrow> txn_id \<Rightarrow> (graphus_error + unit) \<times> ('s, 'd) txn_manager"
where
  "abort_internal S m txn =
     (case abort_writer S (store m) txn of
        Inl e \<Rightarrow> (Inl e, m)
      | Inr s' \<Rightarrow>
          let m1 = m\<lparr>store := s', registry := reg_record_abort (registry m) txn,
                     ssi := ssi_forget (ssi m) txn\<rparr>
          in (Inr (),
              case fmlookup (active m1) txn of
                None \<Rightarrow> m1
              | Some a \<Rightarrow>
                  m1\<lparr>active := fmdrop txn (active m1),
                     mgr_oracle := snd (release_begin (mgr_oracle m1) (snap_ts (act_snapshot a)))\<rparr>))"

subsection \<open>The operations\<close>

definition mgr_begin ::
  "('s, 'd) txn_manager \<Rightarrow> isolation_level \<Rightarrow> nat \<Rightarrow> (graphus_error + txn_id) \<times> ('s, 'd) txn_manager"
where
  "mgr_begin m level now =
     (if fcard (fmdom (active m)) \<ge> max_active_txns (config m)
      then (Inl (AdmissionLimit (max_active_txns (config m))), m)
      else
        case checked_add (next_txn_id m) 1 of
          None \<Rightarrow> (Inl TxnIdsExhausted, m)
        | Some next_id \<Rightarrow>
            if \<not> next_id \<le> MAX_TIMESTAMP then (Inl TxnIdsExhausted, m)
            else
              case oracle_begin (mgr_oracle m) of
                (Inl e, orc) \<Rightarrow> (Inl e, m\<lparr>mgr_oracle := orc\<rparr>)
              | (Inr bts, orc) \<Rightarrow>
                  (Inr next_id,
                   m\<lparr>mgr_oracle := orc,
                     next_txn_id := next_id,
                     registry := reg_register_begin (registry m) next_id,
                     ssi := ssi_register (ssi m) next_id bts,
                     active := fmupd next_id
                       \<lparr>act_snapshot = snapshot_new next_id bts, isolation = level,
                        written = {||}, last_active = now\<rparr> (active m)\<rparr>))"

definition begin_serializable ::
  "('s, 'd) txn_manager \<Rightarrow> nat \<Rightarrow> (graphus_error + txn_id) \<times> ('s, 'd) txn_manager" where
  "begin_serializable m now = mgr_begin m Serializable now"

definition mgr_read ::
  "'s store_ops \<Rightarrow> ('s, 'd) txn_manager \<Rightarrow> txn_id \<Rightarrow> key \<Rightarrow> nat \<Rightarrow>
     (graphus_error + bytes option) \<times> ('s, 'd) txn_manager" where
  "mgr_read S m txn k now =
     (case active_snapshot m txn of
        Inl e \<Rightarrow> (Inl e, m)
      | Inr sn \<Rightarrow>
          let m1 = touch m txn now;
              m2 = m1\<lparr>ssi := ssi_record_read (ssi m1) txn k\<rparr>
          in (Inr (read_visible S (store m2) k sn (registry m2)), m2))"

definition mgr_write ::
  "'s store_ops \<Rightarrow> ('s, 'd) txn_manager \<Rightarrow> txn_id \<Rightarrow> key \<Rightarrow> bytes \<Rightarrow> nat \<Rightarrow>
     (graphus_error + unit) \<times> ('s, 'd) txn_manager" where
  "mgr_write S m txn k body now =
     (case ensure_active m txn of
        Inl e \<Rightarrow> (Inl e, m)
      | Inr _ \<Rightarrow>
          (case acquire_write (touch m txn now) txn k of
             (Inl e, m1) \<Rightarrow> (Inl e, m1)
           | (Inr _, m1) \<Rightarrow>
               (case ensure_no_concurrent_committed_write S m1 txn k of
                  Inl e \<Rightarrow> (Inl e, m1)
                | Inr _ \<Rightarrow>
                    (case create_version S (store m1) k txn body of
                       Inl e \<Rightarrow> (Inl e, m1)
                     | Inr s' \<Rightarrow>
                         (Inr (), m1\<lparr>store := s', ssi := ssi_record_write (ssi m1) txn k\<rparr>)))))"

definition mgr_delete ::
  "'s store_ops \<Rightarrow> ('s, 'd) txn_manager \<Rightarrow> txn_id \<Rightarrow> key \<Rightarrow> nat \<Rightarrow>
     (graphus_error + unit) \<times> ('s, 'd) txn_manager" where
  "mgr_delete S m txn k now =
     (case ensure_active m txn of
        Inl e \<Rightarrow> (Inl e, m)
      | Inr _ \<Rightarrow>
          (case acquire_write (touch m txn now) txn k of
             (Inl e, m1) \<Rightarrow> (Inl e, m1)
           | (Inr _, m1) \<Rightarrow>
               (case ensure_no_concurrent_committed_write S m1 txn k of
                  Inl e \<Rightarrow> (Inl e, m1)
                | Inr _ \<Rightarrow>
                    (case expire_version S (store m1) k txn of
                       Inl e \<Rightarrow> (Inl e, m1)
                     | Inr s' \<Rightarrow>
                         (Inr (), m1\<lparr>store := s', ssi := ssi_record_write (ssi m1) txn k\<rparr>)))))"

text \<open>Steps 2 to 4 of a commit: the timestamp, the durability hook, and publication.\<close>

definition commit_publish ::
  "'s store_ops \<Rightarrow> 'd durability_hook \<Rightarrow> ('s, 'd) txn_manager \<Rightarrow> txn_id \<Rightarrow>
     (graphus_error + timestamp) \<times> ('s, 'd) txn_manager" where
  "commit_publish S hook m txn =
     (case oracle_commit (mgr_oracle m) of
        (Inl e, orc) \<Rightarrow>
          (case abort_internal S (m\<lparr>mgr_oracle := orc\<rparr>) txn of
             (Inl p, m1) \<Rightarrow> (Inl p, m1)
           | (Inr _, m1) \<Rightarrow> (Inl e, m1))
      | (Inr cts, orc) \<Rightarrow>
          let m1 = m\<lparr>mgr_oracle := orc\<rparr> in
          (case hook txn (durability m1) of
             (Inl e, d) \<Rightarrow>
               (case abort_internal S (m1\<lparr>durability := d\<rparr>) txn of
                  (Inl p, m2) \<Rightarrow> (Inl p, m2)
                | (Inr _, m2) \<Rightarrow> (Inl e, m2))
           | (Inr _, d) \<Rightarrow>
               (case commit_writer S (store m1) txn cts of
                  Inl p \<Rightarrow> (Inl p, m1\<lparr>durability := d\<rparr>)
                | Inr s' \<Rightarrow>
                    let m2 = m1\<lparr>durability := d, store := s',
                                registry := reg_record_commit (registry m1) txn cts,
                                ssi := ssi_record_commit (ssi m1) txn cts\<rparr>
                    in (Inr cts,
                        case fmlookup (active m2) txn of
                          None \<Rightarrow> m2
                        | Some a \<Rightarrow>
                            m2\<lparr>active := fmdrop txn (active m2),
                               mgr_oracle := snd (release_begin (mgr_oracle m2)
                                               (snap_ts (act_snapshot a)))\<rparr>))))"

definition mgr_commit ::
  "'s store_ops \<Rightarrow> 'd durability_hook \<Rightarrow> ('s, 'd) txn_manager \<Rightarrow> txn_id \<Rightarrow>
     (graphus_error + timestamp) \<times> ('s, 'd) txn_manager" where
  "mgr_commit S hook m txn =
     (case fmlookup (active m) txn of
        None \<Rightarrow> (Inl (InactiveTxn txn), m)
      | Some a \<Rightarrow>
          (case (if runs_ssi (isolation a) then detect_pivot_abort (ssi m) txn else None) of
             None \<Rightarrow> commit_publish S hook m txn
           | Some victim \<Rightarrow>
               if victim = txn
               then (case abort_internal S m txn of
                       (Inl p, m1) \<Rightarrow> (Inl p, m1)
                     | (Inr _, m1) \<Rightarrow> (Inl (SerializationFailure txn), m1))
               else (case abort_internal S m victim of
                       (Inl p, m1) \<Rightarrow> (Inl p, m1)
                     | (Inr _, m1) \<Rightarrow> commit_publish S hook m1 txn)))"

definition mgr_rollback ::
  "'s store_ops \<Rightarrow> ('s, 'd) txn_manager \<Rightarrow> txn_id \<Rightarrow> (graphus_error + unit) \<times> ('s, 'd) txn_manager"
where
  "mgr_rollback S m txn =
     (if \<not> txn |\<in>| fmdom (active m) then (Inl (InactiveTxn txn), m)
      else abort_internal S m txn)"

definition run_gc ::
  "'s store_ops \<Rightarrow> ('s, 'd) txn_manager \<Rightarrow> gc_report \<times> ('s, 'd) txn_manager" where
  "run_gc S m =
     (let low_water = low_water_mark (mgr_oracle m);
          (report, s') = collect S (store m) low_water (registry m);
          (pruned, r') = prune_settled (registry m) low_water;
          (_, t') = prune_committed (ssi m) low_water
      in (report\<lparr>txns_pruned := pruned\<rparr>, m\<lparr>store := s', registry := r', ssi := t'\<rparr>))"

text \<open>\<^verbatim>\<open>reap_idle_as_of\<close>; \<open>now - last_active\<close> on naturals is the saturating duration.\<close>

definition idle_victims :: "('s, 'd) txn_manager \<Rightarrow> nat \<Rightarrow> txn_id list" where
  "idle_victims m now =
     sorted_list_of_fset (fmdom (fm_retain (\<lambda>_ a. now - last_active a \<ge> idle_timeout (config m))
                                   (active m)))"

fun abort_all ::
  "'s store_ops \<Rightarrow> ('s, 'd) txn_manager \<Rightarrow> txn_id list \<Rightarrow> (graphus_error + unit) \<times> ('s, 'd) txn_manager"
where
  "abort_all S m [] = (Inr (), m)"
| "abort_all S m (v # vs) =
     (case abort_internal S m v of
        (Inl p, m1) \<Rightarrow> (Inl p, m1)
      | (Inr _, m1) \<Rightarrow> abort_all S m1 vs)"

definition reap_idle_as_of ::
  "'s store_ops \<Rightarrow> ('s, 'd) txn_manager \<Rightarrow> nat \<Rightarrow> (graphus_error + nat) \<times> ('s, 'd) txn_manager"
where
  "reap_idle_as_of S m now =
     (let victims = idle_victims m now in
      case abort_all S m victims of
        (Inl p, m1) \<Rightarrow> (Inl p, m1)
      | (Inr _, m1) \<Rightarrow> (Inr (length victims), m1))"

definition mgr_active_count :: "('s, 'd) txn_manager \<Rightarrow> nat" where
  "mgr_active_count m = fcard (fmdom (active m))"

end
