(* ===== verification/Ssi_Invariant.thy ===== *)
theory Ssi_Invariant
  imports Ssi "HOL-Library.Multiset"
begin

text \<open>
  Invariants of the conflict tracker: the recorded edges are symmetric and agree with the conflict
  flags, the reverse indexes agree with the read and write sets, every pair of conflicting
  concurrent transactions has its edge, and every operation of \<^verbatim>\<open>ssi.rs\<close> keeps all of them.
\<close>

subsection \<open>The effect of one edge\<close>

definition edge_upd :: "txn_id \<Rightarrow> txn_id \<Rightarrow> txn_id \<Rightarrow> txn_conflict \<Rightarrow> txn_conflict" where
  "edge_upd src dst x c =
     (if src = dst then c
      else if x = src then c\<lparr>out_conflict := True, out_edges := finsert dst (out_edges c)\<rparr>
      else if x = dst then c\<lparr>in_conflict := True, in_edges := finsert src (in_edges c)\<rparr>
      else c)"

definition committed_with :: "(txn_conflict \<Rightarrow> bool) \<Rightarrow> ssi_tracker \<Rightarrow> txn_id \<Rightarrow> bool" where
  "committed_with P t x =
     (case fmlookup (txns t) x of Some c \<Rightarrow> P c \<and> commit_ts c \<noteq> None | None \<Rightarrow> False)"

text \<open>The still active endpoints a new edge dooms because the other endpoint is a committed pivot.\<close>

definition edge_victims :: "ssi_tracker \<Rightarrow> txn_id \<Rightarrow> txn_id \<Rightarrow> txn_id fset" where
  "edge_victims t src dst =
     (if src = dst then {||}
      else (if committed_with out_conflict t dst \<and> ssi_active t src then {|src|} else {||}) |\<union>|
           (if committed_with in_conflict t src \<and> ssi_active t dst then {|dst|} else {||}))"

lemma add_edge_lookup [simp]:
  "fmlookup (txns (add_edge t src dst)) x = map_option (edge_upd src dst x) (fmlookup (txns t) x)"
  by (cases "fmlookup (txns t) x") (auto simp: add_edge_def edge_upd_def Let_def)

lemma edge_upd_fields [simp]:
  "reads (edge_upd a b x c) = reads c" "writes (edge_upd a b x c) = writes c"
  "predicate_reads (edge_upd a b x c) = predicate_reads c"
  "predicate_writes (edge_upd a b x c) = predicate_writes c"
  "commit_ts (edge_upd a b x c) = commit_ts c" "begin_ts (edge_upd a b x c) = begin_ts c"
  by (simp_all add: edge_upd_def)

lemma edge_upd_edges [simp]:
  "out_edges (edge_upd a b x c) = (if a \<noteq> b \<and> x = a then finsert b (out_edges c) else out_edges c)"
  "in_edges (edge_upd a b x c) = (if a \<noteq> b \<and> x = b then finsert a (in_edges c) else in_edges c)"
  "out_conflict (edge_upd a b x c) \<longleftrightarrow> out_conflict c \<or> a \<noteq> b \<and> x = a"
  "in_conflict (edge_upd a b x c) \<longleftrightarrow> in_conflict c \<or> a \<noteq> b \<and> x = b"
  by (auto simp: edge_upd_def)

lemma add_edge_doomed: "doomed (add_edge t src dst) = doomed t |\<union>| edge_victims t src dst"
  by (auto simp: add_edge_def edge_victims_def committed_with_def pivot_committed_def
      ssi_active_def Let_def split: option.splits)

lemma add_edge_indexes [simp]:
  "readers_of (add_edge t a b) = readers_of t" "writers_of (add_edge t a b) = writers_of t"
  "predicate_readers_of (add_edge t a b) = predicate_readers_of t"
  "predicate_writers_of (add_edge t a b) = predicate_writers_of t"
  "snapshot_txns (add_edge t a b) = snapshot_txns t"
  by (simp_all add: add_edge_def Let_def)

lemma ssi_active_add_edge [simp]: "ssi_active (add_edge t a b) x = ssi_active t x"
  by (auto simp: ssi_active_def split: option.splits)

lemma are_concurrent_add_edge [simp]: "are_concurrent (add_edge t a b) x y = are_concurrent t x y"
  by (auto simp: are_concurrent_def split: option.splits)

subsection \<open>The order of the edges does not matter\<close>

lemma ssi_tracker_eqI:
  assumes "\<And>x. fmlookup (txns s) x = fmlookup (txns t) x" "doomed s = doomed t"
    and "readers_of s = readers_of t" "writers_of s = writers_of t"
    and "predicate_readers_of s = predicate_readers_of t"
    and "predicate_writers_of s = predicate_writers_of t" "snapshot_txns s = snapshot_txns t"
  shows "s = (t :: ssi_tracker)"
  using assms by (auto intro!: ssi_tracker.equality fmap_ext)

lemma edge_upd_commute: "edge_upd a b x (edge_upd c d x e) = edge_upd c d x (edge_upd a b x e)"
  by (auto simp: edge_upd_def finsert_commute intro!: txn_conflict.equality)

lemma edge_victims_out:
  "edge_victims (add_edge t src w) src w' = edge_victims t src w'"
  by (auto simp: edge_victims_def committed_with_def split: option.splits)

lemma edge_victims_in:
  "edge_victims (add_edge t r dst) r' dst = edge_victims t r' dst"
  by (auto simp: edge_victims_def committed_with_def split: option.splits)

lemma add_edge_commute_out:
  "add_edge (add_edge t src w) src w' = add_edge (add_edge t src w') src w"
  by (rule ssi_tracker_eqI)
    (auto simp: add_edge_doomed edge_victims_out option.map_comp comp_def edge_upd_commute)

lemma add_edge_commute_in:
  "add_edge (add_edge t r dst) r' dst = add_edge (add_edge t r' dst) r dst"
  by (rule ssi_tracker_eqI)
    (auto simp: add_edge_doomed edge_victims_in option.map_comp comp_def edge_upd_commute)

lemma mset_sorted_list_of_fset:
  "distinct xs \<Longrightarrow> set xs = fset A \<Longrightarrow> mset xs = mset (sorted_list_of_fset A)"
  by (metis set_eq_iff_mset_eq_distinct sorted_list_of_fset_distinct sorted_list_of_fset_set)

lemma add_edges_out_order:
  assumes "distinct ws" "set ws = fset W"
  shows "fold (\<lambda>w s. add_edge s src w) ws t = add_edges_out t src W"
proof -
  have "fold (\<lambda>w s. add_edge s src w) ws = fold (\<lambda>w s. add_edge s src w) (sorted_list_of_fset W)"
    by (rule fold_multiset_equiv)
      (use assms mset_sorted_list_of_fset in \<open>auto simp: comp_def add_edge_commute_out\<close>)
  then show ?thesis by (simp add: add_edges_out_def)
qed

lemma add_edges_in_order:
  assumes "distinct rs" "set rs = fset R"
  shows "fold (\<lambda>r s. add_edge s r dst) rs t = add_edges_in t R dst"
proof -
  have "fold (\<lambda>r s. add_edge s r dst) rs = fold (\<lambda>r s. add_edge s r dst) (sorted_list_of_fset R)"
    by (rule fold_multiset_equiv)
      (use assms mset_sorted_list_of_fset in \<open>auto simp: comp_def add_edge_commute_in\<close>)
  then show ?thesis by (simp add: add_edges_in_def)
qed

subsection \<open>The invariant\<close>

definition out_edge :: "ssi_tracker \<Rightarrow> txn_id \<Rightarrow> txn_id \<Rightarrow> bool" where
  "out_edge t x y \<longleftrightarrow> (\<exists>c. fmlookup (txns t) x = Some c \<and> y |\<in>| out_edges c)"

definition in_edge :: "ssi_tracker \<Rightarrow> txn_id \<Rightarrow> txn_id \<Rightarrow> bool" where
  "in_edge t x y \<longleftrightarrow> (\<exists>c. fmlookup (txns t) y = Some c \<and> x |\<in>| in_edges c)"

text \<open>The two ends of an edge agree, and a flag is set exactly when there is an edge for it.\<close>

definition edges_inv :: "ssi_tracker \<Rightarrow> bool" where
  [invs]: "edges_inv t \<longleftrightarrow>
     (\<forall>x y. out_edge t x y \<longleftrightarrow> in_edge t x y) \<and> (\<forall>x. \<not> out_edge t x x) \<and>
     (\<forall>x c. fmlookup (txns t) x = Some c \<longrightarrow>
        (out_conflict c \<longleftrightarrow> out_edges c \<noteq> {||}) \<and> (in_conflict c \<longleftrightarrow> in_edges c \<noteq> {||}))"

text \<open>A reverse index lists exactly the transactions whose own set has the key.\<close>

definition index_agrees ::
  "(txn_conflict \<Rightarrow> 'k fset) \<Rightarrow> (txn_id, txn_conflict) fmap \<Rightarrow> ('k, txn_id fset) fmap \<Rightarrow> bool" where
  [invs]: "index_agrees sel m idx \<longleftrightarrow>
     (\<forall>k. fmlookup idx k \<noteq> Some {||}) \<and>
     (\<forall>k x. x |\<in>| fm_get {||} idx k \<longleftrightarrow> (\<exists>c. fmlookup m x = Some c \<and> k |\<in>| sel c))"

definition indexes_inv :: "ssi_tracker \<Rightarrow> bool" where
  [invs]: "indexes_inv t \<longleftrightarrow>
     index_agrees reads (txns t) (readers_of t) \<and>
     index_agrees writes (txns t) (writers_of t) \<and>
     index_agrees predicate_reads (txns t) (predicate_readers_of t) \<and>
     index_agrees predicate_writes (txns t) (predicate_writers_of t)"

text \<open>\<open>x\<close> read, by key or by predicate, what \<open>y\<close> wrote.\<close>

definition rw_conflict :: "ssi_tracker \<Rightarrow> txn_id \<Rightarrow> txn_id \<Rightarrow> bool" where
  "rw_conflict t x y \<longleftrightarrow> (\<exists>c d. fmlookup (txns t) x = Some c \<and> fmlookup (txns t) y = Some d \<and>
     (reads c |\<inter>| writes d \<noteq> {||} \<or> predicate_reads c |\<inter>| predicate_writes d \<noteq> {||}))"

text \<open>No rw-antidependency between concurrent transactions goes unrecorded.\<close>

definition edges_complete :: "ssi_tracker \<Rightarrow> bool" where
  [invs]: "edges_complete t \<longleftrightarrow>
     (\<forall>x y. x \<noteq> y \<and> rw_conflict t x y \<and> are_concurrent t x y \<longrightarrow> out_edge t x y)"

definition ssi_inv :: "ssi_tracker \<Rightarrow> bool" where
  [invs]: "ssi_inv t \<longleftrightarrow>
     edges_inv t \<and> indexes_inv t \<and> edges_complete t \<and> doomed t |\<subseteq>| fmdom (txns t)"

lemma ssi_inv_new: "ssi_inv ssi_new"
  by (simp add: invs ssi_new_def out_edge_def in_edge_def rw_conflict_def fm_get_def)

subsection \<open>Edges keep the invariant\<close>

lemma fmdom_add_edge [simp]: "fmdom (txns (add_edge t a b)) = fmdom (txns t)"
  by (rule fset_eqI) (simp add: fmlookup_dom_iff)

lemma out_edge_add_edge:
  "out_edge (add_edge t a b) x y \<longleftrightarrow>
     out_edge t x y \<or> a \<noteq> b \<and> x = a \<and> y = b \<and> a |\<in>| fmdom (txns t)"
  by (auto simp: out_edge_def fmlookup_dom_iff split: if_splits)

lemma in_edge_add_edge:
  "in_edge (add_edge t a b) x y \<longleftrightarrow>
     in_edge t x y \<or> a \<noteq> b \<and> x = a \<and> y = b \<and> b |\<in>| fmdom (txns t)"
  by (auto simp: in_edge_def fmlookup_dom_iff split: if_splits)

lemma edges_inv_add_edge:
  "edges_inv t \<Longrightarrow> a |\<in>| fmdom (txns t) \<Longrightarrow> b |\<in>| fmdom (txns t) \<Longrightarrow> edges_inv (add_edge t a b)"
  by (auto simp: edges_inv_def out_edge_add_edge in_edge_add_edge split: if_splits)

lemma index_agrees_add_edge:
  "(\<And>x c. sel (edge_upd a b x c) = sel c) \<Longrightarrow>
     index_agrees sel (txns (add_edge t a b)) idx = index_agrees sel (txns t) idx"
  by (auto simp: index_agrees_def)

lemma indexes_inv_add_edge [simp]: "indexes_inv (add_edge t a b) = indexes_inv t"
  by (simp add: indexes_inv_def index_agrees_add_edge)

lemma rw_conflict_add_edge [simp]: "rw_conflict (add_edge t a b) x y = rw_conflict t x y"
  by (auto simp: rw_conflict_def)

lemma edge_victims_tracked: "edge_victims t a b |\<subseteq>| fmdom (txns t)"
  by (auto simp: edge_victims_def ssi_active_def fmlookup_dom_iff split: option.splits)

text \<open>Both loops of edges, as one list of edges.\<close>

definition add_edge_list :: "(txn_id \<times> txn_id) list \<Rightarrow> ssi_tracker \<Rightarrow> ssi_tracker" where
  "add_edge_list es t = fold (\<lambda>(a, b) s. add_edge s a b) es t"

lemma add_edge_list_Nil [simp]: "add_edge_list [] t = t"
  by (simp add: add_edge_list_def)

lemma add_edge_list_Cons [simp]:
  "add_edge_list (e # es) t = add_edge_list es (add_edge t (fst e) (snd e))"
  by (simp add: add_edge_list_def case_prod_beta)

lemma add_edges_out_list:
  "add_edges_out t src D = add_edge_list (map (Pair src) (sorted_list_of_fset D)) t"
  by (simp add: add_edges_out_def add_edge_list_def fold_map comp_def)

lemma add_edges_in_list:
  "add_edges_in t R dst = add_edge_list (map (\<lambda>r. (r, dst)) (sorted_list_of_fset R)) t"
  by (simp add: add_edges_in_def add_edge_list_def fold_map comp_def)

lemma add_edge_list_unchanged [simp]:
  "fmdom (txns (add_edge_list es t)) = fmdom (txns t)"
  "readers_of (add_edge_list es t) = readers_of t"
  "writers_of (add_edge_list es t) = writers_of t"
  "predicate_readers_of (add_edge_list es t) = predicate_readers_of t"
  "predicate_writers_of (add_edge_list es t) = predicate_writers_of t"
  "snapshot_txns (add_edge_list es t) = snapshot_txns t"
  "indexes_inv (add_edge_list es t) = indexes_inv t"
  "rw_conflict (add_edge_list es t) x y = rw_conflict t x y"
  "are_concurrent (add_edge_list es t) x y = are_concurrent t x y"
  "ssi_active (add_edge_list es t) x = ssi_active t x"
  by (induction es arbitrary: t) auto

lemma add_edge_list_view:
  "(\<And>a b x c. sel (edge_upd a b x c) = sel c) \<Longrightarrow>
     map_option sel (fmlookup (txns (add_edge_list es t)) x) = map_option sel (fmlookup (txns t) x)"
  by (induction es arbitrary: t) (simp_all add: option.map_comp comp_def)

lemma out_edge_add_edge_list:
  "out_edge (add_edge_list es t) x y \<longleftrightarrow>
     out_edge t x y \<or> (x, y) \<in> set es \<and> x \<noteq> y \<and> x |\<in>| fmdom (txns t)"
proof (induction es arbitrary: t)
  case (Cons e es)
  show ?case unfolding add_edge_list_Cons Cons by (cases e) (auto simp: out_edge_add_edge)
qed simp

lemma edges_inv_add_edge_list:
  "edges_inv t \<Longrightarrow> (\<And>a b. (a, b) \<in> set es \<Longrightarrow> a |\<in>| fmdom (txns t) \<and> b |\<in>| fmdom (txns t)) \<Longrightarrow>
     edges_inv (add_edge_list es t)"
proof (induction es arbitrary: t)
  case (Cons e es)
  from Cons.prems(2) [of "fst e" "snd e"] Cons.prems(1) have "edges_inv (add_edge t (fst e) (snd e))"
    by (intro edges_inv_add_edge) auto
  then have "edges_inv (add_edge_list es (add_edge t (fst e) (snd e)))"
    by (rule Cons.IH) (use Cons.prems(2) in auto)
  then show ?case by simp
qed simp

lemma doomed_add_edge_list: "doomed t |\<subseteq>| doomed (add_edge_list es t)"
proof (induction es arbitrary: t)
  case (Cons e es)
  have "doomed t |\<subseteq>| doomed (add_edge t (fst e) (snd e))" by (simp add: add_edge_doomed)
  also have "\<dots> |\<subseteq>| doomed (add_edge_list (e # es) t)" using Cons by simp
  finally show ?case .
qed simp

lemma doomed_tracked_add_edge_list:
  "doomed t |\<subseteq>| fmdom (txns t) \<Longrightarrow> doomed (add_edge_list es t) |\<subseteq>| fmdom (txns t)"
proof (induction es arbitrary: t)
  case (Cons e es)
  then have "doomed (add_edge t (fst e) (snd e)) |\<subseteq>| fmdom (txns t)"
    by (simp add: add_edge_doomed edge_victims_tracked)
  with Cons.IH [of "add_edge t (fst e) (snd e)"] show ?case by simp
qed simp

subsection \<open>Recording keeps the invariant\<close>

lemma index_agrees_insert:
  assumes "index_agrees sel m idx" "x |\<in>| fmdom m"
    and "\<And>c. sel (f c) = finsert k (sel c)"
  shows "index_agrees sel (fm_adjust x f m) (fm_entry k {||} (finsert x) idx)"
  using assms by (fastforce simp: index_agrees_def fm_get_def fmlookup_dom_iff split: option.splits)

lemma index_agrees_other:
  "index_agrees sel m idx \<Longrightarrow> (\<And>c. sel (f c) = sel c) \<Longrightarrow> index_agrees sel (fm_adjust x f m) idx"
  by (auto simp: index_agrees_def)

text \<open>The tracker after the marker is stored and before the edges are added.\<close>

lemma out_edge_adjust:
  assumes "txns t' = fm_adjust x f (txns t)" "\<And>c. out_edges (f c) = out_edges c"
  shows "out_edge t' = out_edge t"
  using assms by (auto simp: out_edge_def fun_eq_iff)

lemma in_edge_adjust:
  assumes "txns t' = fm_adjust x f (txns t)" "\<And>c. in_edges (f c) = in_edges c"
  shows "in_edge t' = in_edge t"
  using assms by (auto simp: in_edge_def fun_eq_iff)

lemma edges_inv_adjust:
  assumes inv: "edges_inv t" and t': "txns t' = fm_adjust x f (txns t)"
    and f: "\<And>c. out_edges (f c) = out_edges c \<and> in_edges (f c) = in_edges c \<and>
      out_conflict (f c) = out_conflict c \<and> in_conflict (f c) = in_conflict c"
  shows "edges_inv t'"
proof -
  have "out_edge t' = out_edge t" "in_edge t' = in_edge t"
    using out_edge_adjust [OF t'] in_edge_adjust [OF t'] f by auto
  with inv show ?thesis unfolding edges_inv_def t' by (auto simp: f split: if_splits)
qed

lemma are_concurrent_adjust:
  assumes "txns t' = fm_adjust x f (txns t)"
    and "\<And>c. commit_ts (f c) = commit_ts c \<and> begin_ts (f c) = begin_ts c"
  shows "are_concurrent t' = are_concurrent t"
  using assms by (auto simp: are_concurrent_def fun_eq_iff split: option.splits)

lemma ssi_inv_edges:
  assumes inv: "ssi_inv t" and t1: "txns t1 = fm_adjust x f (txns t)" "doomed t1 = doomed t"
    and f: "\<And>c. out_edges (f c) = out_edges c \<and> in_edges (f c) = in_edges c \<and>
      out_conflict (f c) = out_conflict c \<and> in_conflict (f c) = in_conflict c"
      "\<And>c. commit_ts (f c) = commit_ts c \<and> begin_ts (f c) = begin_ts c"
    and i1: "indexes_inv t1"
    and es: "\<And>a b. (a, b) \<in> set es \<Longrightarrow> a |\<in>| fmdom (txns t) \<and> b |\<in>| fmdom (txns t)"
    and new: "\<And>a b. a \<noteq> b \<Longrightarrow> rw_conflict t1 a b \<Longrightarrow> \<not> rw_conflict t a b \<Longrightarrow> are_concurrent t1 a b \<Longrightarrow>
      (a, b) \<in> set es"
  shows "ssi_inv (add_edge_list es t1)"
proof -
  have dom: "fmdom (txns t1) = fmdom (txns t)" by (simp add: t1)
  have c1: "are_concurrent t1 = are_concurrent t" using t1(1) f(2) by (rule are_concurrent_adjust)
  have o1: "out_edge t1 = out_edge t" using out_edge_adjust [OF t1(1)] f(1) by blast
  have "edges_complete (add_edge_list es t1)"
    unfolding edges_complete_def add_edge_list_unchanged out_edge_add_edge_list
  proof (intro allI impI, elim conjE)
    fix a b assume ab: "a \<noteq> b" "rw_conflict t1 a b" "are_concurrent t1 a b"
    show "out_edge t1 a b \<or> (a, b) \<in> set es \<and> a \<noteq> b \<and> a |\<in>| fmdom (txns t1)"
    proof (cases "rw_conflict t a b")
      case True
      with inv ab show ?thesis unfolding ssi_inv_def edges_complete_def c1 o1 by blast
    next
      case False
      with ab new es show ?thesis unfolding dom by blast
    qed
  qed
  moreover have "edges_inv t1"
    using inv unfolding ssi_inv_def by (intro edges_inv_adjust [OF _ t1(1)] f) blast
  then have "edges_inv (add_edge_list es t1)"
    by (rule edges_inv_add_edge_list) (use es dom in simp)
  moreover have "doomed (add_edge_list es t1) |\<subseteq>| fmdom (txns t1)"
    using inv dom t1(2) unfolding ssi_inv_def by (intro doomed_tracked_add_edge_list) simp
  ultimately show ?thesis using i1 by (simp add: ssi_inv_def)
qed

lemma index_agreesD:
  "index_agrees sel m idx \<Longrightarrow> x |\<in>| fm_get {||} idx k \<longleftrightarrow> (\<exists>c. fmlookup m x = Some c \<and> k |\<in>| sel c)"
  by (simp add: index_agrees_def)

lemma indexes_invD:
  assumes "indexes_inv t"
  shows "index_agrees reads (txns t) (readers_of t)" "index_agrees writes (txns t) (writers_of t)"
    "index_agrees predicate_reads (txns t) (predicate_readers_of t)"
    "index_agrees predicate_writes (txns t) (predicate_writers_of t)"
  using assms unfolding indexes_inv_def by blast+

lemmas index_step = index_agrees_insert index_agrees_other indexes_invD

lemma ssi_inv_indexes: "ssi_inv t \<Longrightarrow> indexes_inv t"
  by (simp add: ssi_inv_def)

lemma rw_conflict_new:
  assumes "rw_conflict t1 a b" "\<not> rw_conflict t a b" "a \<noteq> b"
  shows "txns t1 = fm_adjust x (\<lambda>c. c\<lparr>reads := finsert k (reads c)\<rparr>) (txns t) \<Longrightarrow>
      a = x \<and> (\<exists>c. fmlookup (txns t) b = Some c \<and> k |\<in>| writes c)"
    and "txns t1 = fm_adjust x (\<lambda>c. c\<lparr>writes := finsert k (writes c)\<rparr>) (txns t) \<Longrightarrow>
      b = x \<and> (\<exists>c. fmlookup (txns t) a = Some c \<and> k |\<in>| reads c)"
    and "txns t1 = fm_adjust x (\<lambda>c. c\<lparr>predicate_reads := finsert p (predicate_reads c)\<rparr>) (txns t) \<Longrightarrow>
      a = x \<and> (\<exists>c. fmlookup (txns t) b = Some c \<and> p |\<in>| predicate_writes c)"
    and "txns t1 = fm_adjust x (\<lambda>c. c\<lparr>predicate_writes := finsert p (predicate_writes c)\<rparr>) (txns t) \<Longrightarrow>
      b = x \<and> (\<exists>c. fmlookup (txns t) a = Some c \<and> p |\<in>| predicate_reads c)"
  using assms unfolding rw_conflict_def by (auto split: if_splits)

lemma ssi_record_read_inv:
  assumes inv: "ssi_inv t" and rd: "rd |\<in>| fmdom (txns t)"
  shows "ssi_inv (ssi_record_read t rd k)"
proof -
  let ?f = "\<lambda>c. c\<lparr>reads := finsert k (reads c)\<rparr>"
  have i1: "indexes_inv (t\<lparr>txns := fm_adjust rd ?f (txns t),
      readers_of := fm_entry k {||} (finsert rd) (readers_of t)\<rparr>)"
    using rd unfolding indexes_inv_def by (simp add: index_step ssi_inv_indexes [OF inv])
  note idx = index_agreesD [OF indexes_invD(2) [OF ssi_inv_indexes [OF inv]]]
  show ?thesis
    unfolding ssi_record_read_def Let_def add_edges_out_list
  proof (rule ssi_inv_edges [OF inv _ _ _ _ i1, where x = rd and f = ?f], goal_cases)
    case (6 a b)
    with rw_conflict_new(1) [OF 6(2,3,1), of rd k] show ?case by (auto simp: idx)
  qed (use rd in \<open>auto simp: idx fmlookup_dom_iff\<close>)
qed

lemma ssi_record_write_inv:
  assumes inv: "ssi_inv t" and wr: "wr |\<in>| fmdom (txns t)"
  shows "ssi_inv (ssi_record_write t wr k)"
proof -
  let ?f = "\<lambda>c. c\<lparr>writes := finsert k (writes c)\<rparr>"
  have i1: "indexes_inv (t\<lparr>txns := fm_adjust wr ?f (txns t),
      writers_of := fm_entry k {||} (finsert wr) (writers_of t)\<rparr>)"
    using wr unfolding indexes_inv_def by (simp add: index_step ssi_inv_indexes [OF inv])
  note idx = index_agreesD [OF indexes_invD(1) [OF ssi_inv_indexes [OF inv]]]
  show ?thesis
    unfolding ssi_record_write_def Let_def add_edges_in_list
  proof (rule ssi_inv_edges [OF inv _ _ _ _ i1, where x = wr and f = ?f], goal_cases)
    case (6 a b)
    with rw_conflict_new(2) [OF 6(2,3,1), of wr k] show ?case by (auto simp: idx)
  qed (use wr in \<open>auto simp: idx fmlookup_dom_iff\<close>)
qed

lemma record_predicate_read_inv:
  assumes inv: "ssi_inv t" and rd: "rd |\<in>| fmdom (txns t)"
  shows "ssi_inv (record_predicate_read t rd p)"
proof -
  let ?f = "\<lambda>c. c\<lparr>predicate_reads := finsert p (predicate_reads c)\<rparr>"
  have i1: "indexes_inv (t\<lparr>txns := fm_adjust rd ?f (txns t),
      predicate_readers_of := fm_entry p {||} (finsert rd) (predicate_readers_of t)\<rparr>)"
    using rd unfolding indexes_inv_def by (simp add: index_step ssi_inv_indexes [OF inv])
  note idx = index_agreesD [OF indexes_invD(4) [OF ssi_inv_indexes [OF inv]]]
  show ?thesis
    unfolding record_predicate_read_def Let_def add_edges_out_list
  proof (rule ssi_inv_edges [OF inv _ _ _ _ i1, where x = rd and f = ?f], goal_cases)
    case (6 a b)
    with rw_conflict_new(3) [OF 6(2,3,1), of rd p] show ?case by (auto simp: idx)
  qed (use rd in \<open>auto simp: idx fmlookup_dom_iff\<close>)
qed

text \<open>One round of the loop of \<^verbatim>\<open>record_predicate_write\<close>.\<close>

lemma record_predicate_write_one_inv:
  assumes inv: "ssi_inv t" and wr: "wr |\<in>| fmdom (txns t)"
  shows "ssi_inv (record_predicate_write t wr [p])"
proof -
  let ?f = "\<lambda>c. c\<lparr>predicate_writes := finsert p (predicate_writes c)\<rparr>"
  have i1: "indexes_inv (t\<lparr>txns := fm_adjust wr ?f (txns t),
      predicate_writers_of := fm_entry p {||} (finsert wr) (predicate_writers_of t)\<rparr>)"
    using wr unfolding indexes_inv_def by (simp add: index_step ssi_inv_indexes [OF inv])
  note idx = index_agreesD [OF indexes_invD(3) [OF ssi_inv_indexes [OF inv]]]
  show ?thesis
    unfolding record_predicate_write.simps Let_def add_edges_in_list
  proof (rule ssi_inv_edges [OF inv _ _ _ _ i1, where x = wr and f = ?f], goal_cases)
    case (6 a b)
    with rw_conflict_new(4) [OF 6(2,3,1), of wr p] show ?case by (auto simp: idx)
  qed (use wr in \<open>auto simp: idx fmlookup_dom_iff\<close>)
qed

lemma record_predicate_write_step:
  "record_predicate_write t wr (p # ps) =
     record_predicate_write (record_predicate_write t wr [p]) wr ps"
  by (simp add: Let_def)

lemma fmdom_record [simp]:
  "fmdom (txns (ssi_record_read t rd k)) = fmdom (txns t)"
  "fmdom (txns (ssi_record_write t rd k)) = fmdom (txns t)"
  "fmdom (txns (record_predicate_read t rd p)) = fmdom (txns t)"
  "fmdom (txns (record_predicate_write t rd [p])) = fmdom (txns t)"
  by (simp_all add: ssi_record_read_def ssi_record_write_def record_predicate_read_def Let_def
      add_edges_out_list add_edges_in_list)

lemma record_predicate_write_inv:
  "ssi_inv t \<Longrightarrow> wr |\<in>| fmdom (txns t) \<Longrightarrow> ssi_inv (record_predicate_write t wr ps)"
proof (induction ps arbitrary: t)
  case (Cons p ps)
  have "wr |\<in>| fmdom (txns (record_predicate_write t wr [p]))"
    using Cons.prems(2) unfolding fmdom_record .
  with Cons.IH [OF record_predicate_write_one_inv [OF Cons.prems]] show ?case
    unfolding record_predicate_write_step [of t wr p ps] by blast
qed simp

lemma merge_read_buffer_inv:
  assumes "ssi_inv t" "buf_reader b |\<in>| fmdom (txns t)"
  shows "ssi_inv (merge_read_buffer t b)"
proof -
  let ?P = "\<lambda>s. ssi_inv s \<and> buf_reader b |\<in>| fmdom (txns s)"
  have "?P (fold (\<lambda>k s. ssi_record_read s (buf_reader b) k) ks s)" if "?P s" for ks s
    by (rule fold_invariant [where P = ?P and Q = "\<lambda>_. True"]) (use that ssi_record_read_inv in auto)
  moreover have "?P (fold (\<lambda>p s. record_predicate_read s (buf_reader b) p) ps s)" if "?P s" for ps s
    by (rule fold_invariant [where P = ?P and Q = "\<lambda>_. True"])
      (use that record_predicate_read_inv in auto)
  ultimately show ?thesis using assms unfolding merge_read_buffer_def Let_def by presburger
qed

subsection \<open>Registration, commit and dooming keep the invariant\<close>

lemma index_agrees_fresh:
  "index_agrees sel m idx \<Longrightarrow> fmlookup m x = None \<Longrightarrow> sel c = {||} \<Longrightarrow>
     index_agrees sel (fmupd x c m) idx"
  by (auto simp: index_agrees_def)

lemma ssi_register_inv: "ssi_inv t \<Longrightarrow> ssi_inv (ssi_register t x ts)"
proof (cases "fmlookup (txns t) x")
  case None
  assume inv: "ssi_inv t"
  have l: "fmlookup (txns (ssi_register t x ts)) y =
      (if y = x then Some (conflict_new ts) else fmlookup (txns t) y)" for y
    using None by (simp add: ssi_register_def)
  have o: "out_edge (ssi_register t x ts) = out_edge t" "in_edge (ssi_register t x ts) = in_edge t"
    using None by (auto simp: out_edge_def in_edge_def fun_eq_iff l conflict_new_def)
  have r: "rw_conflict (ssi_register t x ts) a b \<Longrightarrow> rw_conflict t a b" for a b
    unfolding rw_conflict_def l by (auto simp: conflict_new_def split: if_splits)
  have c: "rw_conflict t a b \<Longrightarrow> are_concurrent (ssi_register t x ts) a b = are_concurrent t a b" for a b
    using None unfolding rw_conflict_def are_concurrent_def l by auto
  have "edges_inv (ssi_register t x ts)"
    using inv unfolding ssi_inv_def edges_inv_def o l by (auto simp: conflict_new_def)
  moreover have "indexes_inv (ssi_register t x ts)"
    using inv None unfolding ssi_inv_def indexes_inv_def ssi_register_def
    by (auto intro!: index_agrees_fresh simp: conflict_new_def)
  moreover have "edges_complete (ssi_register t x ts)"
    using inv r c unfolding ssi_inv_def edges_complete_def o by blast
  moreover have "doomed (ssi_register t x ts) |\<subseteq>| fmdom (txns (ssi_register t x ts))"
    using inv None unfolding ssi_inv_def ssi_register_def by auto
  ultimately show ?thesis by (simp add: ssi_inv_def)
qed (simp add: ssi_register_def)

lemma mark_snapshot_inv [simp]: "ssi_inv (mark_snapshot t x) = ssi_inv t"
  by (simp add: ssi_inv_def edges_inv_def indexes_inv_def edges_complete_def out_edge_def
      in_edge_def rw_conflict_def are_concurrent_def mark_snapshot_def)

lemma ssi_record_commit_inv:
  assumes "ssi_inv t" "ssi_active t x"
  shows "ssi_inv (ssi_record_commit t x ts)"
proof -
  let ?t = "ssi_record_commit t x ts"
  have t': "txns ?t = fm_adjust x (\<lambda>c. c\<lparr>commit_ts := Some ts\<rparr>) (txns t)"
    by (simp add: ssi_record_commit_def)
  have o: "out_edge ?t = out_edge t" by (rule out_edge_adjust [OF t']) simp
  have "rw_conflict ?t a b \<Longrightarrow> rw_conflict t a b" for a b
    unfolding rw_conflict_def t' by (auto split: if_splits)
  moreover have "are_concurrent ?t a b \<Longrightarrow> are_concurrent t a b" for a b
    using assms(2) unfolding are_concurrent_def ssi_active_def t'
    by (auto simp: Let_def split: option.splits if_splits)
  ultimately have "edges_complete ?t"
    using assms(1) unfolding ssi_inv_def edges_complete_def o by blast
  moreover have "edges_inv ?t"
    using assms(1) unfolding ssi_inv_def by (intro edges_inv_adjust [OF _ t']) auto
  moreover have "indexes_inv ?t"
    using ssi_inv_indexes [OF assms(1)] unfolding indexes_inv_def t'
    by (auto simp: ssi_record_commit_def intro!: index_agrees_other)
  ultimately show ?thesis
    using assms(1) by (simp add: ssi_inv_def) (simp add: ssi_record_commit_def)
qed

lemma doomed_update [simp]:
  "edges_inv (t\<lparr>doomed := D\<rparr>) = edges_inv t" "indexes_inv (t\<lparr>doomed := D\<rparr>) = indexes_inv t"
  "edges_complete (t\<lparr>doomed := D\<rparr>) = edges_complete t"
  by (simp_all add: edges_inv_def indexes_inv_def edges_complete_def out_edge_def in_edge_def
      rw_conflict_def are_concurrent_def)

lemma doom_inv: "ssi_inv t \<Longrightarrow> ssi_inv (snd (doom t v))"
  by (auto simp: doom_def ssi_inv_def intro: fmdomI split: option.splits)

subsection \<open>Forgetting keeps the invariant\<close>

definition unlink :: "txn_id \<Rightarrow> txn_conflict \<Rightarrow> txn_conflict" where
  "unlink v c = drop_out_edge v (drop_in_edge v c)"

lemma fold_adjust_lookup:
  "distinct ks \<Longrightarrow> fmlookup (fold (\<lambda>k. fm_adjust k f) ks m) x =
     (if x \<in> set ks then map_option f (fmlookup m x) else fmlookup m x)"
  by (induction ks arbitrary: m) auto

lemma drop_edge_id:
  "v |\<notin>| in_edges c \<Longrightarrow> in_conflict c = (in_edges c \<noteq> {||}) \<Longrightarrow> drop_in_edge v c = c"
  "v |\<notin>| out_edges c \<Longrightarrow> out_conflict c = (out_edges c \<noteq> {||}) \<Longrightarrow> drop_out_edge v c = c"
  by (simp_all add: drop_in_edge_def drop_out_edge_def)

lemma drop_in_edge_out [simp]:
  "out_edges (drop_in_edge v c) = out_edges c" "out_conflict (drop_in_edge v c) = out_conflict c"
  by (simp_all add: drop_in_edge_def Let_def)

lemma ssi_forget_lookup:
  assumes "edges_inv s"
  shows "fmlookup (txns (ssi_forget s v)) x =
    (if x = v then None else map_option (unlink v) (fmlookup (txns s) x))"
proof (cases "fmlookup (txns s) x")
  case None
  then show ?thesis
    by (auto simp: ssi_forget_def Let_def fold_adjust_lookup split: option.splits)
next
  case (Some c)
  have flags: "out_conflict c = (out_edges c \<noteq> {||})" "in_conflict c = (in_edges c \<noteq> {||})"
    using assms Some by (auto simp: edges_inv_def)
  have "v |\<in>| in_edges c \<longleftrightarrow> in_edge s v x" "v |\<in>| out_edges c \<longleftrightarrow> out_edge s x v"
    using Some by (auto simp: in_edge_def out_edge_def)
  then have sym: "v |\<in>| in_edges c \<longleftrightarrow> out_edge s v x" "v |\<in>| out_edges c \<longleftrightarrow> in_edge s x v"
    using assms unfolding edges_inv_def by blast+
  show ?thesis
  proof (cases "fmlookup (txns s) v")
    case None
    with sym have "v |\<notin>| in_edges c" "v |\<notin>| out_edges c" by (auto simp: in_edge_def out_edge_def)
    with Some None flags show ?thesis by (auto simp: ssi_forget_def Let_def unlink_def drop_edge_id)
  next
    case (Some d)
    then have "x |\<in>| out_edges d \<longleftrightarrow> v |\<in>| in_edges c" "x |\<in>| in_edges d \<longleftrightarrow> v |\<in>| out_edges c"
      using sym by (auto simp: in_edge_def out_edge_def)
    with Some \<open>fmlookup (txns s) x = Some c\<close> flags show ?thesis
      by (auto simp: ssi_forget_def Let_def unlink_def drop_edge_id fold_adjust_lookup)
  qed
qed

lemma index_remove_lookup:
  "fmlookup (index_remove v k idx) x =
     (if x = k \<and> fm_get {||} idx k |-| {|v|} = {||} then None
      else if x = k then Some (fm_get {||} idx k |-| {|v|}) else fmlookup idx x)"
  by (auto simp: index_remove_def fm_get_def Let_def split: option.splits)

lemma fold_index_remove_get:
  "fm_get {||} (fold (index_remove v) ks idx) x =
     (if x \<in> set ks then fm_get {||} idx x |-| {|v|} else fm_get {||} idx x)"
  by (induction ks arbitrary: idx) (auto simp: fm_get_def index_remove_lookup)

lemma fold_index_remove_nonempty:
  "(\<And>k. fmlookup idx k \<noteq> Some {||}) \<Longrightarrow> fmlookup (fold (index_remove v) ks idx) x \<noteq> Some {||}"
  by (induction ks arbitrary: idx) (auto simp: index_remove_lookup)

lemma index_agrees_forget:
  assumes agr: "index_agrees sel m idx" and v: "fmlookup m v = Some t"
    and m': "\<And>x. fmlookup m' x = (if x = v then None else map_option f (fmlookup m x))"
    and f: "\<And>c. sel (f c) = sel c"
  shows "index_agrees sel m' (fold (index_remove v) (sorted_list_of_fset (sel t)) idx)"
  unfolding index_agrees_def
proof (intro conjI allI)
  show "fmlookup (fold (index_remove v) (sorted_list_of_fset (sel t)) idx) k \<noteq> Some {||}" for k
    using agr by (intro fold_index_remove_nonempty) (simp add: index_agrees_def)
  show "x |\<in>| fm_get {||} (fold (index_remove v) (sorted_list_of_fset (sel t)) idx) k \<longleftrightarrow>
      (\<exists>c. fmlookup m' x = Some c \<and> k |\<in>| sel c)" for k x
    using v by (auto simp: fold_index_remove_get index_agreesD [OF agr] m' f)
qed

lemma unlink_fields [simp]:
  "reads (unlink v c) = reads c" "writes (unlink v c) = writes c"
  "predicate_reads (unlink v c) = predicate_reads c"
  "predicate_writes (unlink v c) = predicate_writes c"
  "commit_ts (unlink v c) = commit_ts c" "begin_ts (unlink v c) = begin_ts c"
  "out_edges (unlink v c) = out_edges c |-| {|v|}" "in_edges (unlink v c) = in_edges c |-| {|v|}"
  "out_conflict (unlink v c) \<longleftrightarrow> out_edges c |-| {|v|} \<noteq> {||}"
  "in_conflict (unlink v c) \<longleftrightarrow> in_edges c |-| {|v|} \<noteq> {||}"
  by (simp_all add: unlink_def drop_in_edge_def drop_out_edge_def Let_def)

lemma ssi_forget_edges:
  assumes "edges_inv s"
  shows "out_edge (ssi_forget s v) x y \<longleftrightarrow> out_edge s x y \<and> x \<noteq> v \<and> y \<noteq> v"
    and "in_edge (ssi_forget s v) x y \<longleftrightarrow> in_edge s x y \<and> x \<noteq> v \<and> y \<noteq> v"
  by (auto simp: out_edge_def in_edge_def ssi_forget_lookup [OF assms] split: if_splits)

lemma ssi_forget_relations:
  assumes "edges_inv s"
  shows "rw_conflict (ssi_forget s v) x y \<longleftrightarrow> rw_conflict s x y \<and> x \<noteq> v \<and> y \<noteq> v"
    and "are_concurrent (ssi_forget s v) x y \<longleftrightarrow> are_concurrent s x y \<and> x \<noteq> v \<and> y \<noteq> v"
    and "ssi_active (ssi_forget s v) x \<longleftrightarrow> ssi_active s x \<and> x \<noteq> v"
  by (auto simp: rw_conflict_def are_concurrent_def ssi_active_def ssi_forget_lookup [OF assms]
      split: option.splits if_splits)

lemma fmdom_ssi_forget:
  "edges_inv s \<Longrightarrow> fmdom (txns (ssi_forget s v)) = fmdom (txns s) |-| {|v|}"
  by (rule fset_eqI) (auto simp: fmlookup_dom_iff ssi_forget_lookup split: if_splits)

lemma doomed_ssi_forget [simp]: "doomed (ssi_forget s v) = doomed s |-| {|v|}"
  by (simp add: ssi_forget_def Let_def split: option.splits)

lemma indexes_inv_forget:
  assumes e: "edges_inv s" and i: "indexes_inv s"
  shows "indexes_inv (ssi_forget s v)"
proof (cases "fmlookup (txns s) v")
  case None
  then show ?thesis using i by (simp add: ssi_forget_def Let_def indexes_inv_def)
next
  case (Some t)
  note agr = index_agrees_forget [OF _ Some ssi_forget_lookup [OF e]]
  show ?thesis
    unfolding indexes_inv_def
    using agr [OF indexes_invD(1) [OF i]] agr [OF indexes_invD(2) [OF i]]
      agr [OF indexes_invD(3) [OF i]] agr [OF indexes_invD(4) [OF i]] Some
    by (simp add: ssi_forget_def Let_def)
qed

lemma ssi_forget_inv:
  assumes "ssi_inv s"
  shows "ssi_inv (ssi_forget s v)"
proof -
  from assms have e: "edges_inv s" by (simp add: ssi_inv_def)
  then have "edges_inv (ssi_forget s v)"
    unfolding edges_inv_def ssi_forget_edges [OF e] ssi_forget_lookup [OF e]
    by (auto split: if_splits)
  moreover have "edges_complete (ssi_forget s v)"
    using assms
    unfolding edges_complete_def ssi_inv_def ssi_forget_edges [OF e] ssi_forget_relations [OF e]
    by blast
  ultimately show ?thesis
    using assms indexes_inv_forget [OF e] by (auto simp: ssi_inv_def fmdom_ssi_forget)
qed

lemma fold_forget_inv: "ssi_inv s \<Longrightarrow> ssi_inv (fold (\<lambda>v t. ssi_forget t v) vs s)"
  by (rule fold_invariant [where P = ssi_inv and Q = "\<lambda>_. True"]) (auto intro: ssi_forget_inv)

lemma prune_committed_inv: "ssi_inv s \<Longrightarrow> ssi_inv (snd (prune_committed s lw))"
  by (simp add: prune_committed_def Let_def fold_forget_inv)

subsection \<open>Life times\<close>

text \<open>The begin and commit timestamps of a tracked transaction; edges do not change them.\<close>

definition ssi_times :: "ssi_tracker \<Rightarrow> txn_id \<Rightarrow> (timestamp \<times> timestamp option) option" where
  "ssi_times t x = map_option (\<lambda>c. (begin_ts c, commit_ts c)) (fmlookup (txns t) x)"

definition ssi_writes :: "ssi_tracker \<Rightarrow> txn_id \<Rightarrow> key fset" where
  "ssi_writes t x = (case fmlookup (txns t) x of Some c \<Rightarrow> writes c | None \<Rightarrow> {||})"

definition ssi_reads :: "ssi_tracker \<Rightarrow> txn_id \<Rightarrow> key fset" where
  "ssi_reads t x = (case fmlookup (txns t) x of Some c \<Rightarrow> reads c | None \<Rightarrow> {||})"

lemma ssi_times_edges [simp]: "ssi_times (add_edge_list es t) = ssi_times t"
  unfolding ssi_times_def by (rule ext) (simp add: add_edge_list_view)

lemma ssi_writes_edges [simp]: "ssi_writes (add_edge_list es t) = ssi_writes t"
proof
  fix x show "ssi_writes (add_edge_list es t) x = ssi_writes t x"
    using add_edge_list_view [of writes es t x] by (auto simp: ssi_writes_def split: option.splits)
qed

lemma ssi_reads_edges [simp]: "ssi_reads (add_edge_list es t) = ssi_reads t"
proof
  fix x show "ssi_reads (add_edge_list es t) x = ssi_reads t x"
    using add_edge_list_view [of reads es t x] by (auto simp: ssi_reads_def split: option.splits)
qed

lemma ssi_times_record [simp]:
  "ssi_times (ssi_record_read t rd k) = ssi_times t"
  "ssi_times (ssi_record_write t wr k) = ssi_times t"
  by (simp_all add: ssi_record_read_def ssi_record_write_def Let_def add_edges_out_list
      add_edges_in_list) (auto simp: ssi_times_def fun_eq_iff option.map_comp comp_def)

lemma ssi_writes_record:
  "ssi_writes (ssi_record_read t rd k) x = ssi_writes t x"
  "ssi_writes (ssi_record_write t wr k) x =
     (if x = wr \<and> wr |\<in>| fmdom (txns t) then finsert k (ssi_writes t x) else ssi_writes t x)"
  by (simp_all add: ssi_record_read_def ssi_record_write_def Let_def add_edges_out_list
      add_edges_in_list) (auto simp: ssi_writes_def fmlookup_dom_iff split: option.splits)

lemma ssi_times_register [simp]:
  "ssi_times (ssi_register t x ts) =
     (if x |\<in>| fmdom (txns t) then ssi_times t else (ssi_times t)(x := Some (ts, None)))"
  by (auto simp: ssi_register_def ssi_times_def conflict_new_def fmlookup_dom_iff fun_eq_iff
      split: option.splits)

lemma ssi_times_commit [simp]:
  "ssi_times (ssi_record_commit t x ts) =
     (ssi_times t)(x := map_option (\<lambda>(b, _). (b, Some ts)) (ssi_times t x))"
  by (auto simp: ssi_record_commit_def ssi_times_def fun_eq_iff option.map_comp comp_def)

lemma ssi_times_forget: "edges_inv t \<Longrightarrow> ssi_times (ssi_forget t v) = (ssi_times t)(v := None)"
  by (auto simp: ssi_times_def ssi_forget_lookup fun_eq_iff option.map_comp comp_def)

lemma ssi_writes_other [simp]:
  "ssi_writes (ssi_register t x ts) = ssi_writes t"
  "ssi_writes (ssi_record_commit t x ts) = ssi_writes t"
  by (auto simp: ssi_register_def ssi_record_commit_def ssi_writes_def conflict_new_def fun_eq_iff
      split: option.splits)

lemma ssi_writes_forget:
  "edges_inv t \<Longrightarrow> ssi_writes (ssi_forget t v) = (ssi_writes t)(v := {||})"
  by (auto simp: ssi_writes_def ssi_forget_lookup fun_eq_iff split: option.splits)

lemma fmdom_ssi_times: "x |\<in>| fmdom (txns t) \<longleftrightarrow> ssi_times t x \<noteq> None"
  by (simp add: ssi_times_def fmlookup_dom_iff)

lemma ssi_active_times: "ssi_active t x \<longleftrightarrow> (\<exists>b. ssi_times t x = Some (b, None))"
  by (auto simp: ssi_active_def ssi_times_def split: option.splits)

lemma are_concurrent_times:
  "are_concurrent t x y \<longleftrightarrow> (\<exists>bx cx by cy. ssi_times t x = Some (bx, cx) \<and> ssi_times t y = Some (by, cy) \<and>
     \<not> (\<exists>c. cx = Some c \<and> c \<le> by) \<and> \<not> (\<exists>c. cy = Some c \<and> c \<le> bx))"
  by (auto simp: are_concurrent_def ssi_times_def Let_def split: option.splits)

lemma fold_forget_views:
  assumes "ssi_inv s"
  shows "ssi_times (fold (\<lambda>v t. ssi_forget t v) vs s) x = (if x \<in> set vs then None else ssi_times s x)"
    and "ssi_writes (fold (\<lambda>v t. ssi_forget t v) vs s) x = (if x \<in> set vs then {||} else ssi_writes s x)"
  using assms
proof (induction vs arbitrary: s)
  case (Cons v vs)
  { case 1 then show ?case using Cons(1) [OF ssi_forget_inv [OF 1]]
      by (simp add: ssi_inv_def ssi_times_forget) }
  { case 2 then show ?case using Cons(2) [OF ssi_forget_inv [OF 2]]
      by (simp add: ssi_inv_def ssi_writes_forget) }
qed simp_all

text \<open>What one garbage-collection pass forgets: the transactions committed by the mark.\<close>

definition prunable :: "timestamp option \<Rightarrow> timestamp option \<Rightarrow> bool" where
  "prunable lw c = (case c of None \<Rightarrow> False
     | Some ts \<Rightarrow> (case lw of None \<Rightarrow> True | Some mark \<Rightarrow> ts \<le> mark))"

lemma prune_committed_views:
  assumes "ssi_inv s"
  shows "ssi_times (snd (prune_committed s lw)) x =
      (case ssi_times s x of Some (b, c) \<Rightarrow> if prunable lw c then None else Some (b, c) | None \<Rightarrow> None)"
    and "ssi_active s x \<Longrightarrow> ssi_writes (snd (prune_committed s lw)) x = ssi_writes s x"
  unfolding prune_committed_def Let_def snd_conv fold_forget_views [OF assms]
  by (auto simp: ssi_times_def fmlookup_dom_iff prunable_def ssi_active_def split: option.splits if_splits)

end
