(* ===== verification/Manager_Invariant.thy ===== *)
theory Manager_Invariant
  imports Manager Ssi_Invariant
begin

text \<open>
  The invariant of the transaction manager and the proof that every operation keeps it, for every
  store that meets the contract \<open>versioned_store\<close>: the oracle's live timestamps, the active table,
  the commit registry, the conflict tracker and the version chains agree on which transactions
  run, which committed and when.
\<close>

subsection \<open>The invariant\<close>

abbreviation now_ts :: "('s, 'd) txn_manager \<Rightarrow> timestamp" where
  "now_ts m \<equiv> next_counter (mgr_oracle m)"

text \<open>
  The active table through two views: the snapshot of each running transaction, and the
  transactions that hold the write intent on a key.
\<close>

definition snap_of :: "('s, 'd) txn_manager \<Rightarrow> txn_id \<Rightarrow> snapshot option" where
  "snap_of m t = map_option act_snapshot (fmlookup (active m) t)"

definition writers :: "('s, 'd) txn_manager \<Rightarrow> key \<Rightarrow> txn_id set" where
  "writers m k = {t. \<exists>a. fmlookup (active m) t = Some a \<and> k |\<in>| written a}"

definition active_inv :: "('s, 'd) txn_manager \<Rightarrow> bool" where
  [invs]: "active_inv m \<longleftrightarrow>
     oracle_inv (mgr_oracle m) \<and> next_txn_id m \<le> MAX_TIMESTAMP \<and>
     (\<forall>t sn. snap_of m t = Some sn \<longrightarrow> valid_id t \<and> t \<le> next_txn_id m \<and> owner sn = t) \<and>
     (\<forall>t u sn sn'. snap_of m t = Some sn \<longrightarrow> snap_of m u = Some sn' \<longrightarrow>
        snap_ts sn = snap_ts sn' \<longrightarrow> t = u) \<and>
     (\<forall>ts. ts \<in> live_begins (mgr_oracle m) \<longleftrightarrow> (\<exists>t sn. snap_of m t = Some sn \<and> snap_ts sn = ts))"

text \<open>First-updater-wins: at most one active transaction holds a key.\<close>

definition written_exclusive :: "('s, 'd) txn_manager \<Rightarrow> bool" where
  [invs]: "written_exclusive m \<longleftrightarrow> (\<forall>k t u. t \<in> writers m k \<longrightarrow> u \<in> writers m k \<longrightarrow> t = u)"

definition registry_inv :: "('s, 'd) txn_manager \<Rightarrow> bool" where
  [invs]: "registry_inv m \<longleftrightarrow>
     (\<forall>t. outcome (registry m) t = OutcomeInFlight \<longleftrightarrow> snap_of m t \<noteq> None) \<and>
     (\<forall>t ts. outcome (registry m) t = OutcomeCommitted ts \<longrightarrow> settled (now_ts m) ts)"

definition tracker_inv :: "('s, 'd) txn_manager \<Rightarrow> bool" where
  [invs]: "tracker_inv m \<longleftrightarrow>
     ssi_inv (ssi m) \<and>
     (\<forall>t b c. ssi_times (ssi m) t = Some (b, c) \<longrightarrow>
        t \<le> next_txn_id m \<and> (c = None \<longleftrightarrow> snap_of m t \<noteq> None) \<and>
        (\<forall>ts. c = Some ts \<longrightarrow> settled (now_ts m) ts \<and> b < ts)) \<and>
     (\<forall>t sn. snap_of m t = Some sn \<longrightarrow>
        ssi_times (ssi m) t = Some (snap_ts sn, None) \<and>
        (\<forall>k. k |\<in>| ssi_writes (ssi m) t \<longrightarrow> t \<in> writers m k))"

definition store_inv :: "('s \<Rightarrow> key \<Rightarrow> version list) \<Rightarrow> ('s, 'd) txn_manager \<Rightarrow> bool" where
  [invs]: "store_inv versions m \<longleftrightarrow>
     (\<forall>k. chain_ok (writers m k) (now_ts m) (versions (store m) k) \<and>
          chain_sorted (versions (store m) k))"

definition mgr_inv :: "('s \<Rightarrow> key \<Rightarrow> version list) \<Rightarrow> ('s, 'd) txn_manager \<Rightarrow> bool" where
  [invs]: "mgr_inv versions m \<longleftrightarrow>
     active_inv m \<and> written_exclusive m \<and> registry_inv m \<and> tracker_inv m \<and> store_inv versions m"

lemmas mgr_inv_defs = mgr_inv_def active_inv_def written_exclusive_def registry_inv_def
  tracker_inv_def store_inv_def

lemma writers_iff:
  "t \<in> writers m k \<longleftrightarrow> (case fmlookup (active m) t of Some a \<Rightarrow> k |\<in>| written a | None \<Rightarrow> False)"
  by (auto simp: writers_def split: option.splits)

lemma snap_of_dom: "t |\<in>| fmdom (active m) \<longleftrightarrow> snap_of m t \<noteq> None"
  by (simp add: snap_of_def fmlookup_dom_iff)

lemma writers_active: "t \<in> writers m k \<Longrightarrow> snap_of m t \<noteq> None"
  by (auto simp: writers_iff snap_of_def split: option.splits)

lemma views_other [simp]:
  "snap_of (m\<lparr>store := s'\<rparr>) = snap_of m" "writers (m\<lparr>store := s'\<rparr>) = writers m"
  "snap_of (m\<lparr>ssi := t'\<rparr>) = snap_of m" "writers (m\<lparr>ssi := t'\<rparr>) = writers m"
  "snap_of (m\<lparr>mgr_oracle := orc\<rparr>) = snap_of m" "writers (m\<lparr>mgr_oracle := orc\<rparr>) = writers m"
  "snap_of (m\<lparr>durability := d\<rparr>) = snap_of m" "writers (m\<lparr>durability := d\<rparr>) = writers m"
  "snap_of (m\<lparr>registry := r\<rparr>) = snap_of m" "writers (m\<lparr>registry := r\<rparr>) = writers m"
  by (simp_all add: snap_of_def writers_def fun_eq_iff)

lemma mgr_invD:
  assumes "mgr_inv versions m"
  shows "active_inv m" "written_exclusive m" "registry_inv m" "tracker_inv m" "store_inv versions m"
  using assms unfolding mgr_inv_def by blast+

lemma active_invD:
  assumes "active_inv m"
  shows "oracle_inv (mgr_oracle m)" "next_txn_id m \<le> MAX_TIMESTAMP"
    "snap_of m t = Some sn \<Longrightarrow> valid_id t"
    "snap_of m t = Some sn \<Longrightarrow> t \<le> next_txn_id m"
    "snap_of m t = Some sn \<Longrightarrow> owner sn = t"
    "snap_of m t = Some sn \<Longrightarrow> snap_ts sn \<in> live_begins (mgr_oracle m)"
    "snap_of m t = Some sn \<Longrightarrow> snap_of m u = Some sn' \<Longrightarrow> snap_ts sn = snap_ts sn' \<Longrightarrow> t = u"
  using assms unfolding active_inv_def by blast+

lemma tracker_invD:
  assumes "tracker_inv m"
  shows "ssi_inv (ssi m)" "snap_of m t = Some sn \<Longrightarrow> ssi_times (ssi m) t = Some (snap_ts sn, None)"
    "snap_of m t \<noteq> None \<Longrightarrow> k |\<in>| ssi_writes (ssi m) t \<Longrightarrow> t \<in> writers m k"
    "ssi_times (ssi m) t = Some (b, c) \<Longrightarrow> t \<le> next_txn_id m"
    "ssi_times (ssi m) t = Some (b, c) \<Longrightarrow> c = None \<longleftrightarrow> snap_of m t \<noteq> None"
    "ssi_times (ssi m) t = Some (b, Some ts) \<Longrightarrow> settled (now_ts m) ts \<and> b < ts"
  using assms unfolding tracker_inv_def by blast+

lemma live_begins_le: "oracle_inv orc \<Longrightarrow> ts \<in> live_begins orc \<Longrightarrow> ts \<le> next_counter orc"
  by (auto simp: oracle_inv_def live_begins_def fmlookup_dom_iff)

lemma begin_le_now: "active_inv m \<Longrightarrow> snap_of m t = Some sn \<Longrightarrow> snap_ts sn \<le> now_ts m"
  by (meson active_invD(1,6) live_begins_le)

lemma chain_inv:
  assumes "mgr_inv versions m"
  shows "chain_ok (writers m k) (now_ts m) (versions (store m) k)"
    "chain_sorted (versions (store m) k)" "x \<in> writers m k \<Longrightarrow> y \<in> writers m k \<Longrightarrow> x = y"
  using mgr_invD(2,5) [OF assms] unfolding store_inv_def written_exclusive_def by blast+

lemma mgr_inv_new:
  "(\<And>k. versions s k = []) \<Longrightarrow> mgr_inv versions (with_durability_and_config s d cfg)"
  unfolding mgr_inv_defs oracle_inv_def chain_ok_def
  by (simp add: with_durability_and_config_def oracle_new_def writers_def live_begins_def
      ssi_inv_new snap_of_def) (simp add: ssi_times_def ssi_new_def)

subsection \<open>Steps that change one component\<close>

lemma views_touch [simp]:
  "snap_of (touch m t n) = snap_of m" "writers (touch m t n) = writers m"
  by (auto simp: snap_of_def writers_iff touch_def fun_eq_iff set_eq_iff option.map_comp comp_def
      split: option.splits)

lemma touch_fields [simp]:
  "mgr_oracle (touch m t n) = mgr_oracle m" "next_txn_id (touch m t n) = next_txn_id m"
  "registry (touch m t n) = registry m" "ssi (touch m t n) = ssi m" "store (touch m t n) = store m"
  "config (touch m t n) = config m" "durability (touch m t n) = durability m"
  by (simp_all add: touch_def)

lemma mgr_inv_touch [simp]: "mgr_inv versions (touch m t n) = mgr_inv versions m"
  unfolding mgr_inv_defs by simp

text \<open>Taking the write intent on a key nobody else holds.\<close>

definition hold :: "txn_id \<Rightarrow> key \<Rightarrow> ('s, 'd) txn_manager \<Rightarrow> ('s, 'd) txn_manager" where
  "hold t k m = m\<lparr>active := fm_adjust t (\<lambda>a. a\<lparr>written := finsert k (written a)\<rparr>) (active m)\<rparr>"

lemma hold_fields [simp]:
  "mgr_oracle (hold t k m) = mgr_oracle m" "next_txn_id (hold t k m) = next_txn_id m"
  "registry (hold t k m) = registry m" "ssi (hold t k m) = ssi m" "store (hold t k m) = store m"
  "snap_of (hold t k m) = snap_of m" "config (hold t k m) = config m"
  by (auto simp: hold_def snap_of_def fun_eq_iff option.map_comp comp_def)

lemma writers_hold:
  "snap_of m t \<noteq> None \<Longrightarrow> writers (hold t k m) j = (if j = k then insert t (writers m k) else writers m j)"
  by (auto simp: hold_def writers_iff snap_of_def set_eq_iff split: option.splits)

lemma acquire_write_cases:
  obtains (ok) "acquire_write m t k = (Inr (), hold t k m)" "writers m k \<subseteq> {t}"
  | (held) u where "acquire_write m t k = (Inl (WriteWriteConflict k u), m)" "u \<in> writers m k" "u \<noteq> t"
proof (cases "fm_first_key (fm_retain (\<lambda>u a. u \<noteq> t \<and> k |\<in>| written a) (active m))")
  case None
  then have none: "fmlookup (fm_retain (\<lambda>u a. u \<noteq> t \<and> k |\<in>| written a) (active m)) u = None" for u
    by (intro fmdom_notD) simp
  have "writers m k \<subseteq> {t}"
  proof
    fix u assume "u \<in> writers m k"
    then obtain a where "fmlookup (active m) u = Some a" "k |\<in>| written a"
      by (auto simp: writers_def)
    with none [of u] show "u \<in> {t}" by (simp split: if_splits)
  qed
  then show ?thesis by (intro ok) (simp_all only: acquire_write_def hold_def None option.case)
next
  case (Some u)
  then have "u |\<in>| fmdom (fm_retain (\<lambda>u a. u \<noteq> t \<and> k |\<in>| written a) (active m))"
    by (simp only: fm_first_key_Some)
  then have "u \<in> writers m k" "u \<noteq> t"
    by (simp_all add: writers_iff fmlookup_dom_iff split: option.splits if_splits)
  with Some show ?thesis by (intro held [of u]) (simp_all add: acquire_write_def)
qed

lemma mgr_inv_hold:
  assumes inv: "mgr_inv versions m" and t: "snap_of m t \<noteq> None" and free: "writers m k \<subseteq> {t}"
  shows "mgr_inv versions (hold t k m)"
proof -
  note w = writers_hold [OF t, of k]
  have "active_inv (hold t k m)" "registry_inv (hold t k m)"
    using mgr_invD [OF inv] unfolding active_inv_def registry_inv_def by simp_all
  moreover have "written_exclusive (hold t k m)"
    using mgr_invD(2) [OF inv] free unfolding written_exclusive_def w by auto
  moreover have "u \<in> writers m j \<Longrightarrow> u \<in> writers (hold t k m) j" for u j
    by (auto simp: w)
  then have "tracker_inv (hold t k m)"
    using mgr_invD(4) [OF inv] unfolding tracker_inv_def hold_fields by blast
  moreover have "store_inv versions (hold t k m)"
    using mgr_invD(5) [OF inv] unfolding store_inv_def w by (auto intro: chain_ok_mono)
  ultimately show ?thesis by (simp add: mgr_inv_def)
qed

lemma inv_parts [simp]:
  "active_inv (m\<lparr>store := s'\<rparr>) = active_inv m" "active_inv (m\<lparr>ssi := t'\<rparr>) = active_inv m"
  "written_exclusive (m\<lparr>store := s'\<rparr>) = written_exclusive m"
  "written_exclusive (m\<lparr>ssi := t'\<rparr>) = written_exclusive m"
  "registry_inv (m\<lparr>store := s'\<rparr>) = registry_inv m" "registry_inv (m\<lparr>ssi := t'\<rparr>) = registry_inv m"
  "tracker_inv (m\<lparr>store := s'\<rparr>) = tracker_inv m"
  "store_inv versions (m\<lparr>ssi := t'\<rparr>) = store_inv versions m"
  by (simp_all add: active_inv_def written_exclusive_def registry_inv_def tracker_inv_def store_inv_def)

lemma mgr_inv_ssi:
  assumes "mgr_inv versions m" and "ssi_inv t'" "ssi_times t' = ssi_times (ssi m)"
    and "\<And>t k. snap_of m t \<noteq> None \<Longrightarrow> k |\<in>| ssi_writes t' t \<Longrightarrow> t \<in> writers m k"
  shows "mgr_inv versions (m\<lparr>ssi := t'\<rparr>)"
proof -
  have "tracker_inv (m\<lparr>ssi := t'\<rparr>)"
    using mgr_invD(4) [OF assms(1)] assms(2-4) unfolding tracker_inv_def by simp
  with assms(1) show ?thesis by (simp add: mgr_inv_def)
qed

lemma mgr_inv_store:
  assumes "mgr_inv versions m"
    and "\<And>k. chain_ok (writers m k) (now_ts m) (versions s' k) \<and> chain_sorted (versions s' k)"
  shows "mgr_inv versions (m\<lparr>store := s'\<rparr>)"
  using assms by (simp add: mgr_inv_def store_inv_def)

subsection \<open>A transaction leaves the active table\<close>

definition retire :: "txn_id \<Rightarrow> ('s, 'd) txn_manager \<Rightarrow> ('s, 'd) txn_manager" where
  "retire t m =
     (case fmlookup (active m) t of
        None \<Rightarrow> m
      | Some a \<Rightarrow> m\<lparr>active := fmdrop t (active m),
                    mgr_oracle := snd (release_begin (mgr_oracle m) (snap_ts (act_snapshot a)))\<rparr>)"

lemma retire_fields [simp]:
  "next_txn_id (retire t m) = next_txn_id m" "registry (retire t m) = registry m"
  "ssi (retire t m) = ssi m" "store (retire t m) = store m"
  "durability (retire t m) = durability m" "config (retire t m) = config m"
  by (simp_all add: retire_def split: option.splits)

lemma snap_of_retire [simp]: "snap_of (retire t m) u = (if u = t then None else snap_of m u)"
  by (auto simp: retire_def snap_of_def split: option.splits)

lemma writers_retire [simp]: "writers (retire t m) k = writers m k - {t}"
  by (auto simp: retire_def writers_iff split: option.splits if_splits)

lemma oracle_retire:
  assumes "oracle_inv (mgr_oracle m)" "snap_of m t = Some sn"
  shows "oracle_inv (mgr_oracle (retire t m))" "now_ts (retire t m) = now_ts m"
    "live_begins (mgr_oracle (retire t m)) = live_begins (mgr_oracle m) - {snap_ts sn}"
  using assms release_begin_inv [OF assms(1)]
  by (auto simp: retire_def snap_of_def split: option.splits)

lemma active_inv_retire:
  assumes inv: "active_inv m" and t: "snap_of m t = Some sn"
  shows "active_inv (retire t m)"
proof -
  note o = oracle_retire [OF active_invD(1) [OF inv] t]
  have eq: "snap_of (retire t m) u = Some sn' \<longleftrightarrow> u \<noteq> t \<and> snap_of m u = Some sn'" for u sn'
    by simp
  have inj: "snap_of m u = Some sn' \<Longrightarrow> snap_ts sn' = snap_ts sn \<Longrightarrow> u = t" for u sn'
    using active_invD(7) [OF inv t] by metis
  have det: "snap_of m t = Some sn' \<Longrightarrow> sn' = sn" for sn' using t by simp
  have "ts \<in> live_begins (mgr_oracle (retire t m)) \<longleftrightarrow>
      (\<exists>u sn'. snap_of (retire t m) u = Some sn' \<and> snap_ts sn' = ts)" for ts
  proof -
    have "ts \<in> live_begins (mgr_oracle (retire t m)) \<longleftrightarrow>
        ts \<noteq> snap_ts sn \<and> (\<exists>u sn'. snap_of m u = Some sn' \<and> snap_ts sn' = ts)"
      using inv unfolding o active_inv_def by blast
    also have "\<dots> \<longleftrightarrow> (\<exists>u sn'. (u \<noteq> t \<and> snap_of m u = Some sn') \<and> snap_ts sn' = ts)"
      by (metis inj det)
    finally show ?thesis unfolding eq .
  qed
  moreover have "snap_of (retire t m) u = Some sn' \<Longrightarrow> snap_of m u = Some sn'" for u sn'
    by (simp split: if_splits)
  ultimately show ?thesis
    using o(1) inv unfolding active_inv_def retire_fields by blast
qed

text \<open>An abort as one step: the chains, the registry and the tracker forget the transaction.\<close>

lemma mgr_inv_abort:
  assumes inv: "mgr_inv versions m" and t: "snap_of m t = Some sn"
    and s': "versions s' = (\<lambda>k. abort_chain (to_raw (InFlight t)) (versions (store m) k))"
  shows "mgr_inv versions (retire t (m\<lparr>store := s', registry := reg_record_abort (registry m) t,
      ssi := ssi_forget (ssi m) t\<rparr>))" (is "mgr_inv versions (retire t ?m)")
proof -
  have v: "snap_of ?m = snap_of m" "writers ?m = writers m"
    by (simp_all add: snap_of_def writers_def fun_eq_iff)
  have act: "active_inv ?m"
    using mgr_invD(1) [OF inv] unfolding active_inv_def v by simp
  then have t': "snap_of ?m t = Some sn" using t by simp
  note o = oracle_retire [OF active_invD(1) [OF act] t'] and id = active_invD(3) [OF act t']
  note si = tracker_invD(1) [OF mgr_invD(4) [OF inv]]
  then have e: "edges_inv (ssi m)" by (simp add: ssi_inv_def)
  have "active_inv (retire t ?m)" using act t' by (rule active_inv_retire)
  moreover have "written_exclusive (retire t ?m)"
    using mgr_invD(2) [OF inv] unfolding written_exclusive_def writers_retire v by blast
  moreover have "registry_inv (retire t ?m)"
    using mgr_invD(3) [OF inv] unfolding registry_inv_def snap_of_retire o v by simp
  moreover have "tracker_inv (retire t ?m)"
    using mgr_invD(4) [OF inv] ssi_forget_inv [OF si, of t]
    unfolding tracker_inv_def snap_of_retire writers_retire o v
    by (simp add: ssi_times_forget [OF e] ssi_writes_forget [OF e])
  moreover have "store_inv versions (retire t ?m)"
    unfolding store_inv_def writers_retire o v
    using chain_ok_abort [OF chain_inv(1) [OF inv]] chain_sorted_abort_any [OF chain_inv(2,1,3) [OF inv] id]
    by (simp add: s')
  ultimately show ?thesis by (simp add: mgr_inv_def)
qed

subsection \<open>The clock advances\<close>

lemma mgr_inv_tick:
  assumes inv: "mgr_inv versions m" and n: "now_ts m < n" "valid_id n"
  shows "mgr_inv versions (m\<lparr>mgr_oracle := (mgr_oracle m)\<lparr>next_counter := n\<rparr>\<rparr>)" (is "mgr_inv versions ?m")
proof -
  have le: "now_ts m \<le> n" using n by simp
  have "oracle_inv (mgr_oracle ?m)"
    using active_invD(1) [OF mgr_invD(1) [OF inv]] n by (fastforce simp: oracle_inv_def valid_id_def)
  moreover have "live_begins (mgr_oracle ?m) = live_begins (mgr_oracle m)" by (simp add: live_begins_def)
  ultimately have "active_inv ?m" "written_exclusive ?m"
    using mgr_invD(1,2) [OF inv] unfolding active_inv_def written_exclusive_def by simp_all
  moreover have st: "settled (now_ts m) x \<Longrightarrow> settled n x" for x
    using le by (auto intro: settled_mono)
  have f: "now_ts ?m = n" "registry ?m = registry m" "ssi ?m = ssi m" "next_txn_id ?m = next_txn_id m"
    "snap_of ?m = snap_of m" "writers ?m = writers m" by simp_all
  have "registry_inv ?m"
    using mgr_invD(3) [OF inv] st unfolding registry_inv_def f by blast
  moreover have "tracker_inv ?m"
    using mgr_invD(4) [OF inv] st unfolding tracker_inv_def f by blast
  moreover have "store_inv versions ?m"
    using chain_inv [OF inv] chain_ok_mono [OF _ subset_refl le] by (simp add: store_inv_def)
  ultimately show ?thesis by (simp add: mgr_inv_def)
qed

lemma mgr_inv_durability [simp]: "mgr_inv versions (m\<lparr>durability := d\<rparr>) = mgr_inv versions m"
  unfolding mgr_inv_defs by simp

text \<open>Publication of a commit at the timestamp the oracle has just issued.\<close>

lemma mgr_inv_publish:
  assumes inv: "mgr_inv versions m" and t: "snap_of m t = Some sn"
    and ts: "ts = now_ts m" "valid_id ts" "snap_ts sn < ts"
    and s': "versions s' = (\<lambda>k. chain_commit (to_raw (InFlight t)) ts (versions (store m) k))"
  shows "mgr_inv versions (retire t (m\<lparr>store := s', registry := reg_record_commit (registry m) t ts,
      ssi := ssi_record_commit (ssi m) t ts\<rparr>))" (is "mgr_inv versions (retire t ?m)")
proof -
  have v: "snap_of ?m = snap_of m" "writers ?m = writers m"
    by (simp_all add: snap_of_def writers_def fun_eq_iff)
  have act: "active_inv ?m"
    using mgr_invD(1) [OF inv] unfolding active_inv_def v by simp
  then have t': "snap_of ?m t = Some sn" using t by simp
  note o = oracle_retire [OF active_invD(1) [OF act] t'] and id = active_invD(3) [OF act t']
  note times = tracker_invD(2) [OF mgr_invD(4) [OF inv] t] and si = tracker_invD(1) [OF mgr_invD(4) [OF inv]]
  then have "ssi_inv (ssi_record_commit (ssi m) t ts)"
    by (intro ssi_record_commit_inv) (auto simp: ssi_active_times)
  moreover have "active_inv (retire t ?m)" using act t' by (rule active_inv_retire)
  moreover have "written_exclusive (retire t ?m)"
    using mgr_invD(2) [OF inv] unfolding written_exclusive_def writers_retire v by blast
  moreover have "registry_inv (retire t ?m)"
    using mgr_invD(3) [OF inv] ts unfolding registry_inv_def snap_of_retire o v
    by (simp add: settled_def)
  moreover have "tracker_inv (retire t ?m)"
    using mgr_invD(4) [OF inv] calculation(1) times ts
    unfolding tracker_inv_def snap_of_retire writers_retire o v
    by (simp add: settled_def)
  moreover have "store_inv versions (retire t ?m)"
    unfolding store_inv_def writers_retire o v
    using chain_ok_commit [OF chain_inv(1) [OF inv] id ts(2)]
      chain_sorted_commit_any [OF chain_inv(2,1,3) [OF inv] id ts(2)]
    by (simp add: s' ts(1))
  ultimately show ?thesis by (simp add: mgr_inv_def)
qed

subsection \<open>Begin\<close>

definition admit :: "isolation_level \<Rightarrow> nat \<Rightarrow> txn_id \<Rightarrow> timestamp \<Rightarrow> timestamp_oracle \<Rightarrow>
    ('s, 'd) txn_manager \<Rightarrow> ('s, 'd) txn_manager" where
  "admit level now tid bts orc m =
     m\<lparr>mgr_oracle := orc, next_txn_id := tid, registry := reg_register_begin (registry m) tid,
       ssi := ssi_register (ssi m) tid bts,
       active := fmupd tid \<lparr>act_snapshot = snapshot_new tid bts, isolation = level,
                          written = {||}, last_active = now\<rparr> (active m)\<rparr>"

lemma mgr_begin_cases:
  assumes "mgr_inv versions m"
  obtains (ok) tid bts orc where "mgr_begin m level now = (Inr tid, admit level now tid bts orc m)"
      "next_txn_id m < tid" "valid_id tid" "now_ts m < bts" "valid_id bts" "oracle_inv orc"
      "next_counter orc = bts" "live_begins orc = insert bts (live_begins (mgr_oracle m))"
      "bts \<notin> live_begins (mgr_oracle m)"
  | (limit) "mgr_begin m level now = (Inl (AdmissionLimit (max_active_txns (config m))), m)"
      "max_active_txns (config m) \<le> fcard (fmdom (active m))"
  | (ids) "mgr_begin m level now = (Inl TxnIdsExhausted, m)" "next_txn_id m = MAX_TIMESTAMP"
  | (times) "mgr_begin m level now = (Inl TimestampsExhausted, m)"
proof -
  have orc: "oracle_inv (mgr_oracle m)" and mx: "next_txn_id m \<le> MAX_TIMESTAMP"
    using active_invD [OF mgr_invD(1) [OF assms]] by auto
  show thesis
  proof (cases "max_active_txns (config m) \<le> fcard (fmdom (active m))")
    case True
    then show thesis by (intro limit) (simp_all add: mgr_begin_def)
  next
    case room: False
    show thesis
    proof (cases "next_txn_id m < MAX_TIMESTAMP")
      case True
      let ?tid = "next_txn_id m + 1"
      have "?tid \<le> MAX_TIMESTAMP" using True by (rule inc_le)
      moreover have ca: "checked_add (next_txn_id m) 1 = Some ?tid"
        using True by (auto simp: checked_add_unat word_less_nat_alt MAX_TIMESTAMP_eq)
      moreover have "next_txn_id m < ?tid" "?tid \<noteq> 0" using checked_add_one_SomeD [OF ca] by auto
      ultimately show thesis using room orc ok [of ?tid] times
        by (cases rule: oracle_begin_cases [OF orc])
          (auto simp: mgr_begin_def admit_def valid_id_def)
    next
      case False
      then have full: "next_txn_id m = MAX_TIMESTAMP" using mx by simp
      show thesis using room full
        by (intro ids) (auto simp: mgr_begin_def checked_add_unat MAX_TIMESTAMP_eq)
    qed
  qed
qed

lemma mgr_inv_admit:
  assumes inv: "mgr_inv versions m"
    and tid: "next_txn_id m < tid" "valid_id tid" and bts: "now_ts m < bts" "valid_id bts"
    and orc: "oracle_inv orc" "next_counter orc = bts"
      "live_begins orc = insert bts (live_begins (mgr_oracle m))" "bts \<notin> live_begins (mgr_oracle m)"
  shows "mgr_inv versions (admit level now tid bts orc m)" (is "mgr_inv versions ?m")
proof -
  note act = mgr_invD(1) [OF inv]
  have fresh: "snap_of m tid = None"
    using active_invD(4) [OF act, of tid] tid by (cases "snap_of m tid") auto
  have fresh': "ssi_times (ssi m) tid = None"
    using tracker_invD(4) [OF mgr_invD(4) [OF inv], of tid] tid by (cases "ssi_times (ssi m) tid") auto
  have v: "snap_of ?m u = (if u = tid then Some (snapshot_new tid bts) else snap_of m u)" for u
    by (simp add: admit_def snap_of_def)
  have w: "writers ?m = writers m"
    using fresh by (auto simp: admit_def snap_of_def writers_iff fun_eq_iff set_eq_iff split: option.splits)
  have f: "mgr_oracle ?m = orc" "next_txn_id ?m = tid" "store ?m = store m"
    "registry ?m = reg_register_begin (registry m) tid" "ssi ?m = ssi_register (ssi m) tid bts"
    by (simp_all add: admit_def)
  have st: "settled (now_ts m) x \<Longrightarrow> settled bts x" for x
    using bts by (auto intro: settled_mono)
  have vD: "snap_of ?m u = Some sn \<Longrightarrow> u = tid \<and> owner sn = tid \<and> snap_ts sn = bts \<or>
      u \<noteq> tid \<and> snap_of m u = Some sn" for u sn
    by (auto simp: v snapshot_new_def split: if_splits)
  have other: "snap_of m u = Some sn \<Longrightarrow> u \<noteq> tid \<and> snap_ts sn \<noteq> bts" for u sn
    using fresh active_invD(6) [OF act] orc(4) by auto
  have "(\<exists>u sn. snap_of ?m u = Some sn \<and> snap_ts sn = ts) \<longleftrightarrow>
      ts = bts \<or> (\<exists>u sn. snap_of m u = Some sn \<and> snap_ts sn = ts)" for ts
  proof -
    have "snap_of ?m tid = Some (snapshot_new tid bts)" "snap_ts (snapshot_new tid bts) = bts"
      by (simp_all add: v snapshot_new_def)
    moreover have "snap_of m u = Some sn \<Longrightarrow> snap_of ?m u = Some sn" for u sn
      using other by (auto simp: v)
    ultimately show ?thesis using vD by metis
  qed
  moreover have "snap_of ?m u = Some sn \<Longrightarrow> valid_id u \<and> u \<le> tid \<and> owner sn = u" for u sn
    using vD [of u sn] active_invD(3-5) [OF act, of u sn] tid by auto
  moreover have "snap_of ?m u = Some sn \<Longrightarrow> snap_of ?m u' = Some sn' \<Longrightarrow> snap_ts sn = snap_ts sn' \<Longrightarrow> u = u'"
    for u u' sn sn'
    using vD [of u sn] vD [of u' sn'] other active_invD(7) [OF act] by metis
  ultimately have "active_inv ?m"
    using act tid orc unfolding active_inv_def f valid_id_def by simp
  moreover have "written_exclusive ?m" using mgr_invD(2) [OF inv] by (simp add: written_exclusive_def w)
  moreover have "registry_inv ?m"
    using mgr_invD(3) [OF inv] st unfolding registry_inv_def v f orc(2) by auto
  moreover have "u \<le> next_txn_id m \<Longrightarrow> u \<le> tid" for u using tid by simp
  moreover have "ssi_writes (ssi m) tid = {||}"
    using fresh' by (simp add: ssi_times_def ssi_writes_def)
  ultimately have "active_inv ?m \<and> written_exclusive ?m \<and> registry_inv ?m \<and> tracker_inv ?m"
    using mgr_invD(4) [OF inv] fresh' st ssi_register_inv
    unfolding tracker_inv_def v f orc(2) w by (auto simp: snapshot_new_def fmdom_ssi_times)
  moreover have "store_inv versions ?m"
    using chain_inv [OF inv] chain_ok_mono [OF _ subset_refl less_imp_le [OF bts(1)]]
    unfolding store_inv_def w f orc(2) by blast
  ultimately show ?thesis by (simp add: mgr_inv_def)
qed

subsection \<open>Garbage collection\<close>

lemma mgr_inv_gc:
  assumes inv: "mgr_inv versions m"
    and s': "versions s' = (\<lambda>k. chain_gc lw (registry m) (versions (store m) k))"
  shows "mgr_inv versions (m\<lparr>store := s', registry := snd (prune_settled (registry m) lw),
      ssi := snd (prune_committed (ssi m) lw)\<rparr>)" (is "mgr_inv versions ?m")
proof -
  have v: "snap_of ?m = snap_of m" "writers ?m = writers m"
    by (simp_all add: snap_of_def writers_def fun_eq_iff)
  note tr = mgr_invD(4) [OF inv]
  note si = tracker_invD(1) [OF tr]
  have "active_inv ?m" "written_exclusive ?m"
    using mgr_invD(1,2) [OF inv] unfolding active_inv_def written_exclusive_def v by simp_all
  moreover have "outcome (snd (prune_settled (registry m) lw)) t = OutcomeCommitted ts \<Longrightarrow>
      outcome (registry m) t = OutcomeCommitted ts" for t ts
    by (auto simp: outcome_prune_settled split: txn_outcome.splits option.splits if_splits)
  then have "registry_inv ?m"
    using mgr_invD(3) [OF inv] unfolding registry_inv_def v
    by (simp add: prune_settled_in_flight) blast
  moreover have "ssi_times (snd (prune_committed (ssi m) lw)) t = Some p \<Longrightarrow> ssi_times (ssi m) t = Some p" for t p
    by (auto simp: prune_committed_views(1) [OF si] split: option.splits if_splits)
  moreover have "snap_of m t = Some sn \<Longrightarrow>
      ssi_times (snd (prune_committed (ssi m) lw)) t = Some (snap_ts sn, None) \<and>
      ssi_writes (snd (prune_committed (ssi m) lw)) t = ssi_writes (ssi m) t" for t sn
    using tracker_invD(2) [OF tr, of t sn]
    by (auto simp: prune_committed_views(1) [OF si] prunable_def ssi_active_times
        intro!: prune_committed_views(2) [OF si])
  ultimately have "active_inv ?m \<and> written_exclusive ?m \<and> registry_inv ?m \<and> tracker_inv ?m"
    using tr prune_committed_inv [OF si, of lw] unfolding tracker_inv_def v by simp blast
  moreover have "store_inv versions ?m"
    using chain_inv [OF inv] unfolding store_inv_def v
    by (simp add: s' chain_ok_gc chain_sorted_gc)
  ultimately show ?thesis by (simp add: mgr_inv_def)
qed

subsection \<open>The operations\<close>

text \<open>The head of a chain was written after the snapshot of \<open>t\<close> and has committed.\<close>

definition newer_head ::
  "('s \<Rightarrow> key \<Rightarrow> version list) \<Rightarrow> ('s, 'd) txn_manager \<Rightarrow> txn_id \<Rightarrow> key \<Rightarrow> bool" where
  "newer_head versions m t k \<longleftrightarrow> (\<exists>sn v vs ts. snap_of m t = Some sn \<and>
     versions (store m) k = v # vs \<and> from_raw (xmin v) = Committed ts \<and> snap_ts sn < ts)"

lemma newer_head_hold [simp]:
  "newer_head versions (hold t k (touch m t n)) = newer_head versions m"
  by (simp add: newer_head_def fun_eq_iff)

text \<open>The manager after the oracle has issued one more timestamp.\<close>

definition ticked :: "('s, 'd) txn_manager \<Rightarrow> timestamp \<Rightarrow> ('s, 'd) txn_manager" where
  "ticked m n = m\<lparr>mgr_oracle := (mgr_oracle m)\<lparr>next_counter := n\<rparr>\<rparr>"

context versioned_store
begin

lemma abort_internal_active:
  assumes "mgr_inv versions m" "snap_of m t = Some sn"
  obtains s' where "abort_internal S m t = (Inr (), retire t (m\<lparr>store := s',
        registry := reg_record_abort (registry m) t, ssi := ssi_forget (ssi m) t\<rparr>))"
    and "versions s' = (\<lambda>k. abort_chain (to_raw (InFlight t)) (versions (store m) k))"
proof -
  have "valid_id t" using assms active_invD(3) mgr_invD(1) by blast
  then obtain s' where "abort_writer S (store m) t = Inr s'"
      "versions s' = (\<lambda>k. abort_chain (to_raw (InFlight t)) (versions (store m) k))"
    using abort_law by blast
  then show thesis
    by (intro that [of s']) (simp_all add: abort_internal_def retire_def Let_def split: option.splits)
qed

lemma abort_internal_inv:
  assumes "mgr_inv versions m" "snap_of m t \<noteq> None"
  shows "mgr_inv versions (snd (abort_internal S m t))" "fst (abort_internal S m t) = Inr ()"
    "snap_of (snd (abort_internal S m t)) = (snap_of m)(t := None)"
proof -
  obtain sn where sn: "snap_of m t = Some sn" using assms by auto
  obtain s' where s': "abort_internal S m t = (Inr (), retire t (m\<lparr>store := s',
        registry := reg_record_abort (registry m) t, ssi := ssi_forget (ssi m) t\<rparr>))"
    and "versions s' = (\<lambda>k. abort_chain (to_raw (InFlight t)) (versions (store m) k))"
    by (rule abort_internal_active [OF assms(1) sn])
  then show "mgr_inv versions (snd (abort_internal S m t))" "fst (abort_internal S m t) = Inr ()"
    "snap_of (snd (abort_internal S m t)) = (snap_of m)(t := None)"
    using mgr_inv_abort [OF assms(1) sn] by (simp_all add: fun_eq_iff)
qed

lemma ensure_no_concurrent_committed_write_iff:
  assumes "snap_of m t \<noteq> None"
  shows "ensure_no_concurrent_committed_write S m t k =
    (if newer_head versions m t k then Inl (WriteConflict k) else Inr ())"
  using assms
  by (auto simp: ensure_no_concurrent_committed_write_def head_law snap_of_def newer_head_def
      split: option.splits list.splits version_stamp.splits)

lemma mgr_write_cases:
  assumes inv: "mgr_inv versions m"
  obtains (inactive) "mgr_write S m t k body n = (Inl (InactiveTxn t), m)" "snap_of m t = None"
  | (held) u where "mgr_write S m t k body n = (Inl (WriteWriteConflict k u), touch m t n)"
      "snap_of m t \<noteq> None" "u \<in> writers m k" "u \<noteq> t"
  | (conflict) "mgr_write S m t k body n = (Inl (WriteConflict k), hold t k (touch m t n))"
      "snap_of m t \<noteq> None" "writers m k \<subseteq> {t}" "newer_head versions m t k"
  | (ok) s' where "mgr_write S m t k body n = (Inr (), (hold t k (touch m t n))\<lparr>store := s',
        ssi := ssi_record_write (ssi m) t k\<rparr>)"
      "versions s' = (versions (store m))(k := chain_create (to_raw (InFlight t)) body (versions (store m) k))"
      "snap_of m t \<noteq> None" "writers m k \<subseteq> {t}" "\<not> newer_head versions m t k"
proof (cases "snap_of m t")
  case None
  then show thesis
    by (intro inactive) (auto simp: mgr_write_def ensure_active_def snap_of_dom)
next
  case (Some sn)
  then have act: "ensure_active m t = Inr ()" "valid_id t"
    using active_invD(3) [OF mgr_invD(1) [OF inv] Some] by (auto simp: ensure_active_def snap_of_dom)
  then obtain s' where s': "create_version S (store m) k t body = Inr s'"
      "versions s' = (versions (store m))(k := chain_create (to_raw (InFlight t)) body (versions (store m) k))"
    using create_law by blast
  show thesis
  proof (cases rule: acquire_write_cases [of "touch m t n" t k])
    case acq: ok
    have e: "ensure_no_concurrent_committed_write S (hold t k (touch m t n)) t k =
        (if newer_head versions m t k then Inl (WriteConflict k) else Inr ())"
      using Some by (subst ensure_no_concurrent_committed_write_iff) simp_all
    show thesis
    proof (cases "newer_head versions m t k")
      case True
      with acq act e Some show thesis by (intro conflict) (simp_all add: mgr_write_def)
    next
      case False
      with acq act e Some s' show thesis by (intro ok [of s']) (simp_all add: mgr_write_def)
    qed
  next
    case acq: (held u)
    with act Some show thesis by (intro held [of u]) (simp_all add: mgr_write_def)
  qed
qed

lemma mgr_delete_cases:
  assumes inv: "mgr_inv versions m"
  obtains (inactive) "mgr_delete S m t k n = (Inl (InactiveTxn t), m)" "snap_of m t = None"
  | (held) u where "mgr_delete S m t k n = (Inl (WriteWriteConflict k u), touch m t n)"
      "snap_of m t \<noteq> None" "u \<in> writers m k" "u \<noteq> t"
  | (conflict) "mgr_delete S m t k n = (Inl (WriteConflict k), hold t k (touch m t n))"
      "snap_of m t \<noteq> None" "writers m k \<subseteq> {t}" "newer_head versions m t k"
  | (dead) "mgr_delete S m t k n = (Inl (NoLiveHead k), hold t k (touch m t n))"
      "snap_of m t \<noteq> None" "writers m k \<subseteq> {t}"
  | (ok) s' v vs where "mgr_delete S m t k n = (Inr (), (hold t k (touch m t n))\<lparr>store := s',
        ssi := ssi_record_write (ssi m) t k\<rparr>)"
      "versions (store m) k = v # vs" "xmax v = 0"
      "versions s' = (versions (store m))(k := v\<lparr>xmax := to_raw (InFlight t)\<rparr> # vs)"
      "snap_of m t \<noteq> None" "writers m k \<subseteq> {t}" "\<not> newer_head versions m t k"
proof (cases "snap_of m t")
  case None
  then show thesis
    by (intro inactive) (auto simp: mgr_delete_def ensure_active_def snap_of_dom)
next
  case (Some sn)
  then have act: "ensure_active m t = Inr ()" "valid_id t"
    using active_invD(3) [OF mgr_invD(1) [OF inv] Some] by (auto simp: ensure_active_def snap_of_dom)
  show thesis
  proof (cases rule: acquire_write_cases [of "touch m t n" t k])
    case acq: ok
    have e: "ensure_no_concurrent_committed_write S (hold t k (touch m t n)) t k =
        (if newer_head versions m t k then Inl (WriteConflict k) else Inr ())"
      using Some by (subst ensure_no_concurrent_committed_write_iff) simp_all
    consider (new) "newer_head versions m t k"
      | (live) v vs where "\<not> newer_head versions m t k" "versions (store m) k = v # vs" "xmax v = 0"
      | (gone) "\<not> newer_head versions m t k" "\<And>v vs. versions (store m) k = v # vs \<Longrightarrow> xmax v \<noteq> 0"
      by (cases "versions (store m) k") auto
    then show thesis
    proof cases
      case new
      with acq act e Some show thesis by (intro conflict) (simp_all add: mgr_delete_def)
    next
      case live
      with expire_live_law [OF act(2) live(2,3)] obtain s' where
        "expire_version S (store m) k t = Inr s'"
        "versions s' = (versions (store m))(k := v\<lparr>xmax := to_raw (InFlight t)\<rparr> # vs)" by blast
      with live acq act e Some show thesis by (intro ok [of s' v vs]) (simp_all add: mgr_delete_def)
    next
      case gone
      with expire_dead_law [OF act(2) gone(2)] acq act e Some show thesis
        by (intro dead) (simp_all add: mgr_delete_def)
    qed
  next
    case acq: (held u)
    with act Some show thesis by (intro held [of u]) (simp_all add: mgr_delete_def)
  qed
qed

lemma writes_recorded:
  assumes "mgr_inv versions m" "snap_of m t \<noteq> None" "writers m k \<subseteq> {t}" "mgr_inv versions m'"
    and "m' = (hold t k (touch m t n))\<lparr>store := s'\<rparr>"
  shows "mgr_inv versions (m'\<lparr>ssi := ssi_record_write (ssi m) t k\<rparr>)"
proof (rule mgr_inv_ssi [OF assms(4)])
  note tr = mgr_invD(4) [OF assms(1)]
  have "t |\<in>| fmdom (txns (ssi m))"
    using assms(2) tracker_invD(2) [OF tr] by (auto simp: fmdom_ssi_times)
  then show "ssi_inv (ssi_record_write (ssi m) t k)"
    using tracker_invD(1) [OF tr] by (intro ssi_record_write_inv)
  fix u j
  assume "snap_of m' u \<noteq> None" "j |\<in>| ssi_writes (ssi_record_write (ssi m) t k) u"
  then show "u \<in> writers m' j"
    using tracker_invD(3) [OF tr] assms(2)
    by (auto simp: assms(5) ssi_writes_record writers_hold split: if_splits)
qed (simp add: assms(5))

lemma mgr_write_inv:
  assumes inv: "mgr_inv versions m"
  shows "mgr_inv versions (snd (mgr_write S m t k body n))"
  using inv
proof (cases rule: mgr_write_cases [where t = t and k = k and body = body and n = n])
  case (ok s')
  let ?m = "hold t k (touch m t n)"
  have id: "valid_id t" using ok(3) active_invD(3) [OF mgr_invD(1) [OF inv]] by blast
  have inv1: "mgr_inv versions ?m" using inv ok by (intro mgr_inv_hold) simp_all
  have "mgr_inv versions (?m\<lparr>store := s'\<rparr>)"
  proof (rule mgr_inv_store [OF inv1])
    fix j
    have w: "writers ?m k = {t}" using ok by (auto simp: writers_hold)
    have "chain_ok {t} (now_ts m) (versions s' k)" "chain_sorted (versions s' k)"
      using chain_ok_create [OF chain_inv(1) [OF inv1], of t k body] id
        chain_sorted_create [OF chain_inv(2,1) [OF inv1], of k t body]
      by (simp_all add: ok(2) w)
    then show "chain_ok (writers ?m j) (now_ts ?m) (versions s' j) \<and> chain_sorted (versions s' j)"
      using chain_inv [OF inv1, of j] ok(2) w by (cases "j = k") simp_all
  qed
  from writes_recorded [OF inv ok(3,4) this refl] ok(1) show ?thesis by simp
qed (use inv in \<open>simp_all add: mgr_inv_hold\<close>)

lemma mgr_delete_inv:
  assumes inv: "mgr_inv versions m"
  shows "mgr_inv versions (snd (mgr_delete S m t k n))"
  using inv
proof (cases rule: mgr_delete_cases [where t = t and k = k and n = n])
  case (ok s' v vs)
  let ?m = "hold t k (touch m t n)"
  have id: "valid_id t" using ok(5) active_invD(3) [OF mgr_invD(1) [OF inv]] by blast
  have inv1: "mgr_inv versions ?m" using inv ok by (intro mgr_inv_hold) simp_all
  have "mgr_inv versions (?m\<lparr>store := s'\<rparr>)"
  proof (rule mgr_inv_store [OF inv1])
    fix j
    have w: "writers ?m k = {t}" using ok by (auto simp: writers_hold)
    have "chain_ok {t} (now_ts m) (v # vs)" "chain_sorted (v # vs)"
      using chain_inv(1,2) [OF inv1, of k] by (simp_all only: w ok(2) hold_fields touch_fields)
    then have "chain_ok {t} (now_ts m) (versions s' k)" "chain_sorted (versions s' k)"
      using chain_ok_expire [of "{t}" "now_ts m" v vs t] id
        chain_sorted_expire [of v vs "{t}" "now_ts m" t]
      by (simp_all only: ok(4) fun_upd_same singleton_iff subset_refl)
    then show "chain_ok (writers ?m j) (now_ts ?m) (versions s' j) \<and> chain_sorted (versions s' j)"
      using chain_inv [OF inv1, of j] ok(4) w by (cases "j = k") simp_all
  qed
  from writes_recorded [OF inv ok(5,6) this refl] ok(1) show ?thesis by simp
qed (use inv in \<open>simp_all add: mgr_inv_hold\<close>)

lemma mgr_read_active:
  assumes "snap_of m t = Some sn"
  shows "mgr_read S m t k n =
    (Inr (chain_read sn (registry m) (versions (store m) k)),
     (touch m t n)\<lparr>ssi := ssi_record_read (ssi m) t k\<rparr>)"
  using assms by (auto simp: mgr_read_def active_snapshot_def snap_of_def read_law Let_def)

lemma mgr_read_inactive:
  "snap_of m t = None \<Longrightarrow> mgr_read S m t k n = (Inl (InactiveTxn t), m)"
  by (auto simp: mgr_read_def active_snapshot_def snap_of_def)

lemma mgr_read_inv:
  assumes inv: "mgr_inv versions m"
  shows "mgr_inv versions (snd (mgr_read S m t k n))"
proof (cases "snap_of m t")
  case None
  then show ?thesis using inv by (simp add: mgr_read_inactive)
next
  case (Some sn)
  note tr = mgr_invD(4) [OF inv]
  have "t |\<in>| fmdom (txns (ssi m))"
    using tracker_invD(2) [OF tr Some] by (auto simp: fmdom_ssi_times)
  then have "ssi_inv (ssi_record_read (ssi m) t k)"
    using tracker_invD(1) [OF tr] by (intro ssi_record_read_inv)
  then have "mgr_inv versions ((touch m t n)\<lparr>ssi := ssi_record_read (ssi m) t k\<rparr>)"
    using inv tracker_invD(3) [OF tr] by (intro mgr_inv_ssi) (simp_all add: ssi_writes_record)
  then show ?thesis by (simp add: mgr_read_active [OF Some])
qed

lemma commit_publish_cases:
  assumes inv: "mgr_inv versions m" and t: "snap_of m t = Some sn"
  obtains (full) "commit_publish S hook m t = (Inl TimestampsExhausted, snd (abort_internal S m t))"
  | (refused) e ts d where "now_ts m < ts" "valid_id ts" "hook t (durability m) = (Inl e, d)"
      "commit_publish S hook m t = (Inl e, snd (abort_internal S ((ticked m ts)\<lparr>durability := d\<rparr>) t))"
  | (ok) ts d s' where "now_ts m < ts" "valid_id ts" "hook t (durability m) = (Inr (), d)"
      "versions s' = (\<lambda>k. chain_commit (to_raw (InFlight t)) ts (versions (store m) k))"
      "commit_publish S hook m t = (Inr ts, retire t ((ticked m ts)\<lparr>durability := d, store := s',
         registry := reg_record_commit (registry m) t ts, ssi := ssi_record_commit (ssi m) t ts\<rparr>))"
proof (cases "mgr_oracle m" rule: tick_cases)
  case full
  obtain m1 where "abort_internal S m t = (Inr (), m1)"
    using abort_internal_inv(2) [OF inv, of t] t by (cases "abort_internal S m t") auto
  then show thesis
    using full by (intro that(1)) (simp add: commit_publish_def oracle_commit_def)
next
  case (ok ts)
  have id: "valid_id t" using t active_invD(3) [OF mgr_invD(1) [OF inv]] by blast
  obtain s' where s': "commit_writer S (store m) t ts = Inr s'"
      "versions s' = (\<lambda>k. chain_commit (to_raw (InFlight t)) ts (versions (store m) k))"
    using commit_law [OF id] by blast
  obtain r d where h: "hook t (durability m) = (r, d)" by force
  have orc: "oracle_commit (mgr_oracle m) = (Inr ts, (mgr_oracle m)\<lparr>next_counter := ts\<rparr>)"
    using ok by (simp add: oracle_commit_def)
  show thesis
  proof (cases r)
    case (Inl e)
    have "mgr_inv versions ((ticked m ts)\<lparr>durability := d\<rparr>)"
      using mgr_inv_tick [OF inv ok(2,3)] by (simp add: ticked_def)
    then have "fst (abort_internal S ((ticked m ts)\<lparr>durability := d\<rparr>) t) = Inr ()"
      by (rule abort_internal_inv(2)) (simp add: ticked_def t)
    then obtain m1 where "abort_internal S ((ticked m ts)\<lparr>durability := d\<rparr>) t = (Inr (), m1)"
      by (cases "abort_internal S ((ticked m ts)\<lparr>durability := d\<rparr>) t") auto
    then show thesis using ok h Inl orc
      by (intro refused [of ts e d]) (simp_all add: commit_publish_def ticked_def Let_def)
  next
    case (Inr u)
    then show thesis using ok h orc s'
      by (intro that(3) [of ts d s'])
        (simp_all add: commit_publish_def ticked_def retire_def Let_def split: option.splits)
  qed
qed

lemma commit_publish_inv:
  assumes inv: "mgr_inv versions m" and t: "snap_of m t \<noteq> None"
  shows "mgr_inv versions (snd (commit_publish S hook m t))"
proof -
  obtain sn where sn: "snap_of m t = Some sn" using t by auto
  note le = begin_le_now [OF mgr_invD(1) [OF inv] sn]
  from inv sn show ?thesis
  proof (cases rule: commit_publish_cases [where hook = hook])
    case full
    then show ?thesis using abort_internal_inv(1) [OF inv t] by simp
  next
    case (refused e ts d)
    have "mgr_inv versions ((ticked m ts)\<lparr>durability := d\<rparr>)"
      using mgr_inv_tick [OF inv refused(1,2)] by (simp add: ticked_def)
    then show ?thesis using refused(4) t abort_internal_inv(1) [of "(ticked m ts)\<lparr>durability := d\<rparr>" t]
      by (simp add: ticked_def)
  next
    case (ok ts d s')
    let ?m = "(ticked m ts)\<lparr>durability := d\<rparr>"
    have "mgr_inv versions ?m" using mgr_inv_tick [OF inv ok(1,2)] by (simp add: ticked_def)
    from mgr_inv_publish [OF this, of t sn ts s'] ok le sn show ?thesis
      by (simp add: ticked_def)
  qed
qed

lemma detect_victim_active:
  assumes "mgr_inv versions m" "detect_pivot_abort (ssi m) t = Some v" "v \<noteq> t"
  shows "snap_of m v \<noteq> None"
proof -
  have "ssi_active (ssi m) v"
    using assms(2,3)
    by (auto simp: detect_pivot_abort_def ssi_active_def fm_first_key_Some fmlookup_dom_iff
        split: if_splits option.splits)
  then show ?thesis
    using tracker_invD(5) [OF mgr_invD(4) [OF assms(1)]] by (auto simp: ssi_active_times)
qed

lemma mgr_commit_cases:
  assumes inv: "mgr_inv versions m"
  obtains (inactive) "mgr_commit S hook m t = (Inl (InactiveTxn t), m)" "snap_of m t = None"
  | (pivot) "mgr_commit S hook m t = (Inl (SerializationFailure t), snd (abort_internal S m t))"
      "snap_of m t \<noteq> None" "detect_pivot_abort (ssi m) t = Some t"
  | (victim) v where "mgr_commit S hook m t = commit_publish S hook (snd (abort_internal S m v)) t"
      "snap_of m t \<noteq> None" "v \<noteq> t" "snap_of m v \<noteq> None" "detect_pivot_abort (ssi m) t = Some v"
  | (pass) a where "mgr_commit S hook m t = commit_publish S hook m t" "snap_of m t \<noteq> None"
      "fmlookup (active m) t = Some a" "runs_ssi (isolation a) \<Longrightarrow> detect_pivot_abort (ssi m) t = None"
proof (cases "fmlookup (active m) t")
  case None
  then show thesis by (intro inactive) (simp_all add: mgr_commit_def snap_of_def)
next
  case (Some a)
  then have act: "snap_of m t \<noteq> None" by (simp add: snap_of_def)
  have aborts: "\<exists>m1. abort_internal S m u = (Inr (), m1)" if "snap_of m u \<noteq> None" for u
    using abort_internal_inv(2) [OF inv that] by (cases "abort_internal S m u") auto
  show thesis
  proof (cases "if runs_ssi (isolation a) then detect_pivot_abort (ssi m) t else None")
    case None
    with Some act show thesis by (intro pass [of a]) (auto simp: mgr_commit_def split: if_splits)
  next
    case v: (Some v)
    then have d: "detect_pivot_abort (ssi m) t = Some v" by (simp split: if_splits)
    show thesis
    proof (cases "v = t")
      case True
      with Some v d act aborts [OF act] show thesis
        by (intro pivot) (auto simp: mgr_commit_def)
    next
      case False
      with aborts [OF detect_victim_active [OF inv d False]] Some v d act
        detect_victim_active [OF inv d False] show thesis
        by (intro victim [of v]) (auto simp: mgr_commit_def)
    qed
  qed
qed

lemma mgr_commit_inv:
  assumes inv: "mgr_inv versions m"
  shows "mgr_inv versions (snd (mgr_commit S hook m t))"
  using inv
proof (cases rule: mgr_commit_cases [where t = t and hook = hook])
  case (victim v)
  from abort_internal_inv [OF inv victim(4)] victim(1-3) show ?thesis
    by (simp add: commit_publish_inv)
qed (use inv in \<open>simp_all add: abort_internal_inv commit_publish_inv\<close>)

lemma mgr_rollback_inv:
  assumes inv: "mgr_inv versions m"
  shows "mgr_inv versions (snd (mgr_rollback S m t))"
  using assms by (auto simp: mgr_rollback_def snap_of_dom intro: abort_internal_inv)

lemma run_gc_result:
  obtains s' where "snd (run_gc S m) = m\<lparr>store := s',
      registry := snd (prune_settled (registry m) (low_water_mark (mgr_oracle m))),
      ssi := snd (prune_committed (ssi m) (low_water_mark (mgr_oracle m)))\<rparr>"
    "versions s' = (\<lambda>k. chain_gc (low_water_mark (mgr_oracle m)) (registry m) (versions (store m) k))"
  by (rule that [of "snd (gc S (store m) (low_water_mark (mgr_oracle m)) (registry m))"])
    (simp_all add: gc_law run_gc_def collect_def Let_def case_prod_beta)

lemma run_gc_inv: "mgr_inv versions m \<Longrightarrow> mgr_inv versions (snd (run_gc S m))"
  by (rule run_gc_result [of m]) (simp add: mgr_inv_gc)

lemma abort_all_inv:
  assumes "mgr_inv versions m" "distinct vs" "\<And>v. v \<in> set vs \<Longrightarrow> snap_of m v \<noteq> None"
  shows "mgr_inv versions (snd (abort_all S m vs))" "fst (abort_all S m vs) = Inr ()"
    "snap_of (snd (abort_all S m vs)) = (\<lambda>u. if u \<in> set vs then None else snap_of m u)"
proof -
  have "mgr_inv versions (snd (abort_all S m vs)) \<and> fst (abort_all S m vs) = Inr () \<and>
    snap_of (snd (abort_all S m vs)) = (\<lambda>u. if u \<in> set vs then None else snap_of m u)"
    using assms
  proof (induction vs arbitrary: m)
    case (Cons v vs)
    have "snap_of m v \<noteq> None" using Cons.prems(3) by simp
    note step = abort_internal_inv [OF Cons.prems(1) this]
    obtain m1 where m1: "abort_internal S m v = (Inr (), m1)"
      using step(2) by (cases "abort_internal S m v") auto
    have "mgr_inv versions m1" "\<And>u. u \<in> set vs \<Longrightarrow> snap_of m1 u \<noteq> None"
      using step Cons.prems m1 by auto
    with Cons.IH [of m1] Cons.prems(2) step(3) m1 show ?case by (auto simp: fun_eq_iff)
  qed simp
  then show "mgr_inv versions (snd (abort_all S m vs))" "fst (abort_all S m vs) = Inr ()"
    "snap_of (snd (abort_all S m vs)) = (\<lambda>u. if u \<in> set vs then None else snap_of m u)" by auto
qed

lemma idle_victims_active: "distinct (idle_victims m now)" "v \<in> set (idle_victims m now) \<Longrightarrow> snap_of m v \<noteq> None"
  by (auto simp: idle_victims_def fmlookup_dom_iff snap_of_def split: option.splits if_splits)

lemma reap_idle_result:
  assumes "mgr_inv versions m"
  shows "reap_idle_as_of S m now =
    (Inr (length (idle_victims m now)), snd (abort_all S m (idle_victims m now)))"
proof -
  have "fst (abort_all S m (idle_victims m now)) = Inr ()"
    using assms by (rule abort_all_inv(2)) (rule idle_victims_active, blast dest: idle_victims_active(2))
  then show ?thesis
    by (cases "abort_all S m (idle_victims m now)") (simp add: reap_idle_as_of_def Let_def)
qed

lemma reap_idle_inv: "mgr_inv versions m \<Longrightarrow> mgr_inv versions (snd (reap_idle_as_of S m now))"
  using abort_all_inv(1) [OF _ idle_victims_active(1), of m m now] idle_victims_active(2)
  by (auto simp: reap_idle_result)

end

end
