(* ===== verification/Isolation.thy ===== *)
theory Isolation
  imports Manager_Invariant
begin

text \<open>
  What the transaction manager promises to its clients, over every interleaving of requests:
  stable snapshots, reads of the committed state, first-committer-wins, atomic commit and abort,
  safe garbage collection and bounded admission.
\<close>

subsection \<open>Requests and reachable states\<close>

text \<open>One call of the manager's interface, with the clock reading it makes.\<close>

datatype request =
    ReqBegin isolation_level nat
  | ReqRead txn_id key nat
  | ReqWrite txn_id key bytes nat
  | ReqDelete txn_id key nat
  | ReqCommit txn_id
  | ReqRollback txn_id
  | ReqGc
  | ReqReap nat

datatype response =
    RspTxn "graphus_error + txn_id"
  | RspRead "graphus_error + bytes option"
  | RspUnit "graphus_error + unit"
  | RspCommit "graphus_error + timestamp"
  | RspGc gc_report
  | RspReap "graphus_error + nat"

fun exec ::
  "'s store_ops \<Rightarrow> 'd durability_hook \<Rightarrow> request \<Rightarrow> ('s, 'd) txn_manager \<Rightarrow>
     response \<times> ('s, 'd) txn_manager" where
  "exec S hook (ReqBegin level now) m = (let (r, m') = mgr_begin m level now in (RspTxn r, m'))"
| "exec S hook (ReqRead t k now) m = (let (r, m') = mgr_read S m t k now in (RspRead r, m'))"
| "exec S hook (ReqWrite t k body now) m =
     (let (r, m') = mgr_write S m t k body now in (RspUnit r, m'))"
| "exec S hook (ReqDelete t k now) m = (let (r, m') = mgr_delete S m t k now in (RspUnit r, m'))"
| "exec S hook (ReqCommit t) m = (let (r, m') = mgr_commit S hook m t in (RspCommit r, m'))"
| "exec S hook (ReqRollback t) m = (let (r, m') = mgr_rollback S m t in (RspUnit r, m'))"
| "exec S hook ReqGc m = (let (r, m') = run_gc S m in (RspGc r, m'))"
| "exec S hook (ReqReap now) m = (let (r, m') = reap_idle_as_of S m now in (RspReap r, m'))"

fun exec_all ::
  "'s store_ops \<Rightarrow> 'd durability_hook \<Rightarrow> request list \<Rightarrow> ('s, 'd) txn_manager \<Rightarrow>
     response list \<times> ('s, 'd) txn_manager" where
  "exec_all S hook [] m = ([], m)"
| "exec_all S hook (q # qs) m =
     (let (r, m1) = exec S hook q m; (rs, m2) = exec_all S hook qs m1 in (r # rs, m2))"

inductive reachable ::
  "'s store_ops \<Rightarrow> 'd durability_hook \<Rightarrow> ('s, 'd) txn_manager \<Rightarrow> ('s, 'd) txn_manager \<Rightarrow> bool"
  for S hook m0 where
  init: "reachable S hook m0 m0"
| step: "reachable S hook m0 m \<Longrightarrow> reachable S hook m0 (snd (exec S hook q m))"

lemma reachable_exec_all:
  "reachable S hook m0 m \<Longrightarrow> reachable S hook m0 (snd (exec_all S hook qs m))"
proof (induction qs arbitrary: m)
  case (Cons q qs)
  from Cons.IH [OF reachable.step [OF Cons.prems, of q]] show ?case
    by (auto simp: Let_def split: prod.splits)
qed simp

lemma exec_snd [simp]:
  "snd (exec S hook (ReqBegin level now) m) = snd (mgr_begin m level now)"
  "snd (exec S hook (ReqRead t k now) m) = snd (mgr_read S m t k now)"
  "snd (exec S hook (ReqWrite t k body now) m) = snd (mgr_write S m t k body now)"
  "snd (exec S hook (ReqDelete t k now) m) = snd (mgr_delete S m t k now)"
  "snd (exec S hook (ReqCommit t) m) = snd (mgr_commit S hook m t)"
  "snd (exec S hook (ReqRollback t) m) = snd (mgr_rollback S m t)"
  "snd (exec S hook ReqGc m) = snd (run_gc S m)"
  "snd (exec S hook (ReqReap now) m) = snd (reap_idle_as_of S m now)"
  by (simp_all add: case_prod_beta Let_def)

lemma exec_fst [simp]:
  "fst (exec S hook (ReqBegin level now) m) = RspTxn (fst (mgr_begin m level now))"
  "fst (exec S hook (ReqRead t k now) m) = RspRead (fst (mgr_read S m t k now))"
  "fst (exec S hook (ReqWrite t k body now) m) = RspUnit (fst (mgr_write S m t k body now))"
  "fst (exec S hook (ReqDelete t k now) m) = RspUnit (fst (mgr_delete S m t k now))"
  "fst (exec S hook (ReqCommit t) m) = RspCommit (fst (mgr_commit S hook m t))"
  "fst (exec S hook (ReqRollback t) m) = RspUnit (fst (mgr_rollback S m t))"
  "fst (exec S hook ReqGc m) = RspGc (fst (run_gc S m))"
  "fst (exec S hook (ReqReap now) m) = RspReap (fst (reap_idle_as_of S m now))"
  by (simp_all add: case_prod_beta Let_def)

declare exec.simps [simp del]

text \<open>What only a begin may change.\<close>

definition frame :: "('s, 'd) txn_manager \<Rightarrow> u64 \<times> txn_config" where
  "frame m = (next_txn_id m, config m)"

text \<open>Admission: the active table never outgrows its bound.\<close>

definition admission_inv :: "('s, 'd) txn_manager \<Rightarrow> bool" where
  "admission_inv m \<longleftrightarrow> mgr_active_count m \<le> max_active_txns (config m)"

text \<open>The response of an operation that hit one of the model's panics.\<close>

fun panicked :: "response \<Rightarrow> bool" where
  "panicked (RspTxn r) \<longleftrightarrow> r = Inl Panicked"
| "panicked (RspRead r) \<longleftrightarrow> r = Inl Panicked"
| "panicked (RspUnit r) \<longleftrightarrow> r = Inl Panicked"
| "panicked (RspCommit r) \<longleftrightarrow> r = Inl Panicked"
| "panicked (RspGc r) \<longleftrightarrow> False"
| "panicked (RspReap r) \<longleftrightarrow> r = Inl Panicked"

text \<open>What a running transaction sees of a key.\<close>

definition view_of ::
  "('s \<Rightarrow> key \<Rightarrow> version list) \<Rightarrow> ('s, 'd) txn_manager \<Rightarrow> txn_id \<Rightarrow> key \<Rightarrow> bytes option option" where
  "view_of versions m t k =
     map_option (\<lambda>sn. chain_read sn (registry m) (versions (store m) k)) (snap_of m t)"

text \<open>The request is a write or delete of \<open>k\<close> by \<open>t\<close> itself.\<close>

fun own_write :: "txn_id \<Rightarrow> key \<Rightarrow> request \<Rightarrow> bool" where
  "own_write t k (ReqWrite u j body now) \<longleftrightarrow> u = t \<and> j = k"
| "own_write t k (ReqDelete u j now) \<longleftrightarrow> u = t \<and> j = k"
| "own_write t k _ \<longleftrightarrow> False"

context versioned_store
begin

lemma mgr_begin_inv:
  assumes inv: "mgr_inv versions m"
  shows "mgr_inv versions (snd (mgr_begin m level now))"
  using inv
proof (cases rule: mgr_begin_cases [where level = level and now = now])
  case (ok tid bts orc)
  then show ?thesis using mgr_inv_admit [OF inv ok(2-9)] by simp
qed (use inv in simp_all)

lemma exec_inv: "mgr_inv versions m \<Longrightarrow> mgr_inv versions (snd (exec S hook q m))"
  by (cases q) (simp_all add: mgr_begin_inv mgr_read_inv mgr_write_inv mgr_delete_inv
      mgr_commit_inv mgr_rollback_inv run_gc_inv reap_idle_inv)

lemma reachable_inv: "reachable S hook m0 m \<Longrightarrow> mgr_inv versions m0 \<Longrightarrow> mgr_inv versions m"
  by (induction rule: reachable.induct) (auto intro: exec_inv)

text \<open>No step of another transaction changes what \<open>t\<close> sees.\<close>

lemma active_facts:
  assumes "mgr_inv versions m" "snap_of m u = Some su"
  shows "valid_id u" "outcome (registry m) u = OutcomeInFlight" "owner su = u"
  using assms active_invD(3,5) [OF mgr_invD(1)] mgr_invD(3) [OF assms(1)]
  by (auto simp: registry_inv_def)

lemma view_abort:
  assumes inv: "mgr_inv versions m" and u: "snap_of m u \<noteq> None" and t: "t \<noteq> u"
  shows "view_of versions (snd (abort_internal S m u)) t k = view_of versions m t k"
proof -
  obtain su where su: "snap_of m u = Some su" using u by auto
  obtain s' where m': "abort_internal S m u = (Inr (), retire u (m\<lparr>store := s',
        registry := reg_record_abort (registry m) u, ssi := ssi_forget (ssi m) u\<rparr>))"
    and s': "versions s' = (\<lambda>k. abort_chain (to_raw (InFlight u)) (versions (store m) k))"
    by (rule abort_internal_active [OF inv su])
  show ?thesis
  proof (cases "snap_of m t")
    case (Some sn)
    then have "owner sn = t" using active_facts(3) [OF inv] by blast
    then show ?thesis
      using Some t active_facts [OF inv su] chain_read_abort_other [of u sn "registry m"]
      by (simp add: view_of_def m' s')
  qed (use t in \<open>simp add: view_of_def m'\<close>)
qed

lemma view_abort_all:
  assumes "mgr_inv versions m" "distinct vs" "\<And>v. v \<in> set vs \<Longrightarrow> snap_of m v \<noteq> None" "t \<notin> set vs"
  shows "view_of versions (snd (abort_all S m vs)) t k = view_of versions m t k"
  using assms
proof (induction vs arbitrary: m)
  case (Cons v vs)
  have v: "snap_of m v \<noteq> None" using Cons.prems(3) by simp
  note step = abort_internal_inv [OF Cons.prems(1) v]
  obtain m1 where m1: "abort_internal S m v = (Inr (), m1)"
    using step(2) by (cases "abort_internal S m v") auto
  have "mgr_inv versions m1" "\<And>u. u \<in> set vs \<Longrightarrow> snap_of m1 u \<noteq> None"
    using step Cons.prems m1 by auto
  with Cons.IH [of m1] Cons.prems m1 view_abort [OF Cons.prems(1) v, of t k] show ?case by simp
qed simp

lemma view_registry:
  assumes "mgr_inv versions m" "store m' = store m" "snap_of m' t = snap_of m t"
    and "\<And>u. u \<in> writers m k \<Longrightarrow> outcome (registry m') u = outcome (registry m) u"
  shows "view_of versions m' t k = view_of versions m t k"
  using chain_read_registry_ok [OF chain_inv(1) [OF assms(1)] assms(4)] assms(2,3)
  by (simp add: view_of_def)

lemma view_commit_publish:
  assumes inv: "mgr_inv versions m" and u: "snap_of m u = Some su" and t: "t \<noteq> u"
  shows "view_of versions (snd (commit_publish S hook m u)) t k = view_of versions m t k"
  using inv u
proof (cases rule: commit_publish_cases [where hook = hook])
  case full
  then show ?thesis using view_abort [OF inv _ t] u by simp
next
  case (refused e ts d)
  let ?m = "(ticked m ts)\<lparr>durability := d\<rparr>"
  have "mgr_inv versions ?m" using mgr_inv_tick [OF inv refused(1,2)] by (simp add: ticked_def)
  then have "view_of versions (snd (abort_internal S ?m u)) t k = view_of versions ?m t k"
    using u by (intro view_abort t) (simp_all add: ticked_def)
  then show ?thesis by (simp add: refused(4)) (simp add: view_of_def ticked_def)
next
  case (ok ts d s')
  show ?thesis
  proof (cases "snap_of m t")
    case (Some sn)
    have "snap_ts sn < ts"
      using begin_le_now [OF mgr_invD(1) [OF inv] Some] ok(1) by simp
    then show ?thesis
      using Some t ok active_facts [OF inv u] active_facts(3) [OF inv Some]
        chain_read_commit_other [of u sn "registry m" ts]
      by (simp add: view_of_def ticked_def)
  qed (use t ok in \<open>simp add: view_of_def ticked_def\<close>)
qed

lemma snap_commit_publish:
  assumes inv: "mgr_inv versions m" and u: "snap_of m u = Some su"
  shows "snap_of (snd (commit_publish S hook m u)) = (snap_of m)(u := None)"
  using inv u
proof (cases rule: commit_publish_cases [where hook = hook])
  case (refused e ts d)
  have "mgr_inv versions ((ticked m ts)\<lparr>durability := d\<rparr>)"
    using mgr_inv_tick [OF inv refused(1,2)] by (simp add: ticked_def)
  from abort_internal_inv(3) [OF this, of u] u refused(4) show ?thesis by (simp add: ticked_def)
qed (use u abort_internal_inv(3) [OF inv] in \<open>simp_all add: ticked_def fun_eq_iff\<close>)

lemma snap_mgr_commit:
  assumes inv: "mgr_inv versions m" and t: "snap_of (snd (mgr_commit S hook m u)) t = Some sn"
  shows "snap_of m t = Some sn"
  using inv
proof (cases rule: mgr_commit_cases [where t = u and hook = hook])
  case (victim v)
  note ab = abort_internal_inv [OF inv victim(4)]
  have u: "snap_of (snd (abort_internal S m v)) u = snap_of m u" using ab(3) victim(3) by simp
  then obtain su where "snap_of (snd (abort_internal S m v)) u = Some su" using victim(2) by auto
  from snap_commit_publish [OF ab(1) this, of hook] t victim(1) ab(3) show ?thesis
    by (simp split: if_splits)
next
  case (pass a)
  then obtain su where "snap_of m u = Some su" by auto
  from snap_commit_publish [OF inv this, of hook] t pass(1) show ?thesis by (simp split: if_splits)
qed (use t abort_internal_inv(3) [OF inv] in \<open>simp_all split: if_splits\<close>)

lemma frame_abort:
  assumes "mgr_inv versions m" "snap_of m u = Some su"
  shows "frame (snd (abort_internal S m u)) = frame m"
  by (rule abort_internal_active [OF assms]) (simp add: frame_def)

lemma frame_commit_publish:
  assumes inv: "mgr_inv versions m" and u: "snap_of m u = Some su"
  shows "frame (snd (commit_publish S hook m u)) = frame m"
  using inv u
proof (cases rule: commit_publish_cases [where hook = hook])
  case (refused e ts d)
  have "mgr_inv versions ((ticked m ts)\<lparr>durability := d\<rparr>)"
    using mgr_inv_tick [OF inv refused(1,2)] by (simp add: ticked_def)
  from frame_abort [OF this, of u su] u refused(4) show ?thesis by (simp add: ticked_def frame_def)
qed (use frame_abort [OF inv u] in \<open>simp_all add: ticked_def frame_def\<close>)

lemma frame_mgr_commit:
  assumes inv: "mgr_inv versions m"
  shows "frame (snd (mgr_commit S hook m u)) = frame m"
  using inv
proof (cases rule: mgr_commit_cases [where t = u and hook = hook])
  case (victim v)
  note ab = abort_internal_inv [OF inv victim(4)]
  have u: "snap_of (snd (abort_internal S m v)) u = snap_of m u" using ab(3) victim(3) by simp
  then obtain su where "snap_of (snd (abort_internal S m v)) u = Some su" using victim(2) by auto
  from frame_commit_publish [OF ab(1) this, of hook] frame_abort [OF inv] victim(1,4) show ?thesis
    by auto
qed (use frame_abort [OF inv] frame_commit_publish [OF inv] in auto)

lemma frame_abort_all:
  assumes "mgr_inv versions m" "distinct vs" "\<And>v. v \<in> set vs \<Longrightarrow> snap_of m v \<noteq> None"
  shows "frame (snd (abort_all S m vs)) = frame m"
  using assms
proof (induction vs arbitrary: m)
  case (Cons v vs)
  obtain sv where v: "snap_of m v = Some sv" using Cons.prems(3) by fastforce
  then have v': "snap_of m v \<noteq> None" by simp
  note step = abort_internal_inv [OF Cons.prems(1) v']
  obtain m1 where m1: "abort_internal S m v = (Inr (), m1)"
    using step(2) by (cases "abort_internal S m v") auto
  have "mgr_inv versions m1" "\<And>u. u \<in> set vs \<Longrightarrow> snap_of m1 u \<noteq> None"
    using step Cons.prems m1 by auto
  with Cons.IH [of m1] Cons.prems m1 frame_abort [OF Cons.prems(1) v] show ?case by simp
qed simp

lemma snap_exec:
  assumes inv: "mgr_inv versions m" and t: "snap_of (snd (exec S hook q m)) t = Some sn"
  shows "snap_of m t = Some sn \<or> next_txn_id m < t"
proof (cases q)
  case (ReqBegin level now)
  from inv show ?thesis
  proof (cases rule: mgr_begin_cases [where level = level and now = now])
    case (ok tid bts orc)
    then show ?thesis using t ReqBegin by (auto simp: admit_def snap_of_def split: if_splits)
  qed (use t ReqBegin in simp_all)
next
  case (ReqRead u k now)
  then show ?thesis using t by (cases "snap_of m u") (simp_all add: mgr_read_active mgr_read_inactive)
next
  case (ReqWrite u k body now)
  from inv show ?thesis
    by (cases rule: mgr_write_cases [where t = u and k = k and body = body and n = now])
      (use t ReqWrite in simp_all)
next
  case (ReqDelete u k now)
  from inv show ?thesis
    by (cases rule: mgr_delete_cases [where t = u and k = k and n = now]) (use t ReqDelete in simp_all)
next
  case (ReqCommit u)
  then show ?thesis using t snap_mgr_commit [OF inv] by simp
next
  case (ReqRollback u)
  then show ?thesis using t abort_internal_inv(3) [OF inv]
    by (auto simp: mgr_rollback_def snap_of_dom split: if_splits)
next
  case ReqGc
  then show ?thesis using t by (auto intro: run_gc_result [of m])
next
  case (ReqReap now)
  then show ?thesis
    using t abort_all_inv(3) [OF inv idle_victims_active(1) idle_victims_active(2), of m now]
    by (simp add: reap_idle_result [OF inv] split: if_splits)
qed

lemma frame_exec:
  assumes inv: "mgr_inv versions m" and q: "\<And>level now. q \<noteq> ReqBegin level now"
  shows "frame (snd (exec S hook q m)) = frame m"
proof (cases q)
  case (ReqRead u k now)
  then show ?thesis by (cases "snap_of m u") (simp_all add: mgr_read_active mgr_read_inactive frame_def)
next
  case (ReqWrite u k body now)
  from inv show ?thesis
    by (cases rule: mgr_write_cases [where t = u and k = k and body = body and n = now])
      (use ReqWrite in \<open>simp_all add: frame_def\<close>)
next
  case (ReqDelete u k now)
  from inv show ?thesis
    by (cases rule: mgr_delete_cases [where t = u and k = k and n = now])
      (use ReqDelete in \<open>simp_all add: frame_def\<close>)
next
  case (ReqCommit u)
  then show ?thesis by (simp add: frame_mgr_commit [OF inv])
next
  case (ReqRollback u)
  then show ?thesis using frame_abort [OF inv, of u]
    by (cases "snap_of m u") (simp_all add: mgr_rollback_def snap_of_dom)
next
  case ReqGc
  then show ?thesis by (auto intro: run_gc_result [of m] simp: frame_def)
next
  case (ReqReap now)
  then show ?thesis
    using frame_abort_all [OF inv idle_victims_active(1) idle_victims_active(2), of m now]
    by (simp add: reap_idle_result [OF inv])
qed (use q in simp)

lemma next_id_exec:
  assumes inv: "mgr_inv versions m"
  shows "next_txn_id m \<le> next_txn_id (snd (exec S hook q m))"
proof (cases "\<exists>level now. q = ReqBegin level now")
  case True
  then obtain level now where q: "q = ReqBegin level now" by blast
  from inv show ?thesis
  proof (cases rule: mgr_begin_cases [where level = level and now = now])
    case (ok tid bts orc)
    then show ?thesis using q by (simp add: admit_def)
  qed (use q in simp_all)
next
  case False
  then show ?thesis using frame_exec [OF inv, of q hook] by (auto simp: frame_def)
qed

lemma view_write:
  assumes inv: "mgr_inv versions m" and ok: "\<not> own_write t k (ReqWrite u j body n)"
  shows "view_of versions (snd (mgr_write S m u j body n)) t k = view_of versions m t k"
  using inv
proof (cases rule: mgr_write_cases [where t = u and k = j and body = body and n = n])
  case w: (ok s')
  obtain su where su: "snap_of m u = Some su" using w(3) by auto
  show ?thesis
  proof (cases "snap_of m t")
    case (Some sn)
    show ?thesis
    proof (cases "j = k")
      case True
      then show ?thesis
        using Some w ok active_facts [OF inv su] active_facts(3) [OF inv Some]
          chain_read_create_other [of u sn "registry m"]
        by (auto simp: view_of_def)
    qed (use w Some in \<open>simp add: view_of_def\<close>)
  qed (use w in \<open>simp add: view_of_def\<close>)
qed (simp_all add: view_of_def)

lemma view_delete:
  assumes inv: "mgr_inv versions m" and ok: "\<not> own_write t k (ReqDelete u j n)"
  shows "view_of versions (snd (mgr_delete S m u j n)) t k = view_of versions m t k"
  using inv
proof (cases rule: mgr_delete_cases [where t = u and k = j and n = n])
  case w: (ok s' v vs)
  obtain su where su: "snap_of m u = Some su" using w(5) by auto
  show ?thesis
  proof (cases "snap_of m t")
    case (Some sn)
    show ?thesis
    proof (cases "j = k")
      case True
      then show ?thesis
        using Some w ok active_facts [OF inv su] active_facts(3) [OF inv Some]
          chain_read_expire_other [of u sn "registry m" v vs]
        by (auto simp: view_of_def)
    qed (use w Some in \<open>simp add: view_of_def\<close>)
  qed (use w in \<open>simp add: view_of_def\<close>)
qed (simp_all add: view_of_def)

lemma view_gc:
  assumes inv: "mgr_inv versions m" and t: "snap_of m t = Some sn"
  shows "view_of versions (snd (run_gc S m)) t k = view_of versions m t k"
proof -
  let ?lw = "low_water_mark (mgr_oracle m)"
  obtain s' where m': "snd (run_gc S m) = m\<lparr>store := s',
      registry := snd (prune_settled (registry m) ?lw), ssi := snd (prune_committed (ssi m) ?lw)\<rparr>"
    and s': "versions s' = (\<lambda>k. chain_gc ?lw (registry m) (versions (store m) k))"
    by (rule run_gc_result)
  have live: "snap_ts sn \<in> live_begins (mgr_oracle m)"
    using active_invD(6) [OF mgr_invD(1) [OF inv] t] .
  have "chain_read sn (snd (prune_settled (registry m) ?lw)) (versions s' k)
      = chain_read sn (registry m) (versions s' k)"
  proof (rule chain_read_registry_ok)
    show "chain_ok (writers m k) (now_ts m) (versions s' k)"
      using chain_inv(1) [OF inv] by (simp add: s' chain_ok_gc)
    fix u assume "u \<in> writers m k"
    then obtain su where "snap_of m u = Some su" using writers_active by fast
    from active_facts(2) [OF inv this]
    show "outcome (snd (prune_settled (registry m) ?lw)) u = outcome (registry m) u"
      by (simp add: outcome_prune_settled)
  qed
  also have "\<dots> = chain_read sn (registry m) (versions (store m) k)"
    unfolding s' using live
    by (intro chain_read_gc) (auto simp: low_water_mark_Some low_water_mark_None)
  finally show ?thesis using t by (simp add: m' view_of_def)
qed

lemma view_mgr_commit:
  assumes inv: "mgr_inv versions m" and t: "snap_of (snd (mgr_commit S hook m u)) t \<noteq> None"
  shows "view_of versions (snd (mgr_commit S hook m u)) t k = view_of versions m t k"
  using inv
proof (cases rule: mgr_commit_cases [where t = u and hook = hook])
  case pivot
  then have "t \<noteq> u" using t abort_internal_inv(3) [OF inv] by auto
  with pivot view_abort [OF inv pivot(2)] show ?thesis by simp
next
  case (victim v)
  let ?m = "snd (abort_internal S m v)"
  note ab = abort_internal_inv [OF inv victim(4)]
  have "snap_of ?m u = snap_of m u" using ab(3) victim(3) by simp
  then obtain su where su: "snap_of ?m u = Some su" using victim(2) by auto
  have "t \<noteq> u" "t \<noteq> v"
    using t snap_commit_publish [OF ab(1) su, of hook] victim(1) ab(3) by (auto split: if_splits)
  then show ?thesis
    using victim view_commit_publish [OF ab(1) su, of t hook k] view_abort [OF inv victim(4), of t k]
    by simp
next
  case (pass a)
  then obtain su where su: "snap_of m u = Some su" by auto
  have "t \<noteq> u" using t snap_commit_publish [OF inv su, of hook] pass(1) by auto
  with pass(1) view_commit_publish [OF inv su] show ?thesis by simp
qed simp

lemma view_exec:
  assumes inv: "mgr_inv versions m" and t: "snap_of m t \<noteq> None"
    and t': "snap_of (snd (exec S hook q m)) t \<noteq> None" and own: "\<not> own_write t k q"
  shows "view_of versions (snd (exec S hook q m)) t k = view_of versions m t k"
proof (cases q)
  case (ReqBegin level now)
  from inv show ?thesis
  proof (cases rule: mgr_begin_cases [where level = level and now = now])
    case (ok tid bts orc)
    have "snap_of m tid = None"
      using active_invD(4) [OF mgr_invD(1) [OF inv], of tid] ok(2) by (cases "snap_of m tid") auto
    with t have "snap_of (admit level now tid bts orc m) t = snap_of m t"
      by (auto simp: admit_def snap_of_def)
    moreover have "u \<in> writers m k \<Longrightarrow> u \<noteq> tid" for u
      using writers_active [of tid m k] \<open>snap_of m tid = None\<close> by auto
    ultimately have "view_of versions (admit level now tid bts orc m) t k = view_of versions m t k"
      by (intro view_registry [OF inv]) (auto simp: admit_def)
    with ok ReqBegin show ?thesis by simp
  qed (use ReqBegin in simp_all)
next
  case (ReqRead u j now)
  then show ?thesis
    by (cases "snap_of m u") (simp_all add: mgr_read_active mgr_read_inactive view_of_def)
next
  case (ReqRollback u)
  then show ?thesis
    using t' view_abort [OF inv, of u t k] abort_internal_inv(3) [OF inv, of u]
    by (cases "snap_of m u") (auto simp: mgr_rollback_def snap_of_dom split: if_splits)
next
  case ReqGc
  then show ?thesis using t view_gc [OF inv] by auto
next
  case (ReqReap now)
  note snap = abort_all_inv(3) [OF inv idle_victims_active(1) idle_victims_active(2), of m now]
  have "t \<notin> set (idle_victims m now)"
    using t' ReqReap snap by (auto simp: reap_idle_result [OF inv])
  then have "view_of versions (snd (abort_all S m (idle_victims m now))) t k = view_of versions m t k"
    by (intro view_abort_all [OF inv idle_victims_active(1)]) (auto dest: idle_victims_active(2))
  then show ?thesis using ReqReap by (simp add: reap_idle_result [OF inv])
qed (use own t' in \<open>simp_all add: view_write [OF inv] view_delete [OF inv] view_mgr_commit [OF inv]\<close>)

lemma exec_all_snd:
  "snd (exec_all S hook (q # qs) m) = snd (exec_all S hook qs (snd (exec S hook q m)))"
  by (auto simp: Let_def split: prod.splits)

lemma exec_all_inv: "mgr_inv versions m \<Longrightarrow> mgr_inv versions (snd (exec_all S hook qs m))"
proof (induction qs arbitrary: m)
  case (Cons q qs)
  then show ?case unfolding exec_all_snd using exec_inv by blast
qed simp

lemma retired_stays_retired:
  "mgr_inv versions m \<Longrightarrow> t \<le> next_txn_id m \<Longrightarrow> snap_of (snd (exec_all S hook qs m)) t = Some sn \<Longrightarrow>
     snap_of m t = Some sn"
proof (induction qs arbitrary: m)
  case (Cons q qs)
  let ?m = "snd (exec S hook q m)"
  have "t \<le> next_txn_id ?m" using Cons.prems(2) next_id_exec [OF Cons.prems(1), of hook q] by simp
  with Cons.IH [of ?m] Cons.prems exec_inv have "snap_of ?m t = Some sn"
    unfolding exec_all_snd by blast
  with snap_exec [OF Cons.prems(1)] Cons.prems(2) show ?case by fastforce
qed simp

lemma view_exec_all:
  assumes "mgr_inv versions m" "snap_of m t \<noteq> None"
    and "snap_of (snd (exec_all S hook qs m)) t \<noteq> None" "\<And>q. q \<in> set qs \<Longrightarrow> \<not> own_write t k q"
  shows "view_of versions (snd (exec_all S hook qs m)) t k = view_of versions m t k"
  using assms
proof (induction qs arbitrary: m)
  case (Cons q qs)
  let ?m = "snd (exec S hook q m)"
  have inv: "mgr_inv versions ?m" using Cons.prems(1) by (rule exec_inv)
  have "t \<le> next_txn_id m" using Cons.prems(2) active_invD(4) [OF mgr_invD(1) [OF Cons.prems(1)]] by blast
  then have "t \<le> next_txn_id ?m" using next_id_exec [OF Cons.prems(1), of hook q] by simp
  moreover obtain sn where "snap_of (snd (exec_all S hook qs ?m)) t = Some sn"
    using Cons.prems(3) unfolding exec_all_snd by blast
  ultimately have act: "snap_of ?m t = Some sn" using retired_stays_retired [OF inv] by blast
  have "view_of versions (snd (exec_all S hook qs ?m)) t k = view_of versions ?m t k"
    using Cons.IH [OF inv] Cons.prems act unfolding exec_all_snd by auto
  also have "\<dots> = view_of versions m t k"
    using Cons.prems act by (intro view_exec) auto
  finally show ?case unfolding exec_all_snd .
qed simp

lemma mgr_read_view:
  "snap_of m t \<noteq> None \<Longrightarrow> fst (mgr_read S m t k n) = Inr (the (view_of versions m t k))"
  by (auto simp: mgr_read_active view_of_def)

lemma repeatable_read:
  assumes "mgr_inv versions m" "snap_of m t \<noteq> None"
    and "snap_of (snd (exec_all S hook qs m)) t \<noteq> None" "\<And>q. q \<in> set qs \<Longrightarrow> \<not> own_write t k q"
  shows "fst (mgr_read S (snd (exec_all S hook qs m)) t k n) = fst (mgr_read S m t k n')"
  using view_exec_all [OF assms] assms by (simp add: mgr_read_view)

text \<open>A transaction that has not written a key reads the committed state as of its begin.\<close>

lemma read_committed_state:
  assumes inv: "mgr_inv versions m" and t: "snap_of m t = Some sn" and own: "t \<notin> writers m k"
  shows "fst (mgr_read S m t k n) = Inr (value_at (snap_ts sn) (versions (store m) k))"
proof -
  have "outcome (registry m) u = OutcomeInFlight" if "u \<in> writers m k" for u
    using writers_active [OF that] active_facts(2) [OF inv] by blast
  then show ?thesis
    using chain_read_value_at [OF chain_inv(1) [OF inv], of sn k "registry m"] own
      active_facts(3) [OF inv t]
    by (simp add: mgr_read_active [OF t])
qed

lemma read_own_write:
  assumes inv: "mgr_inv versions m" and w: "mgr_write S m t k body n = (Inr (), m')"
  shows "mgr_inv versions m'" "snap_of m' t \<noteq> None" "view_of versions m' t k = Some (Some body)"
proof -
  show inv': "mgr_inv versions m'" using mgr_write_inv [OF inv, of t k body n] w by simp
  from inv have *: "snap_of m' t \<noteq> None \<and> view_of versions m' t k = Some (Some body)"
  proof (cases rule: mgr_write_cases [where t = t and k = k and body = body and n = n])
    case (ok s')
    then obtain sn where sn: "snap_of m t = Some sn" by auto
    from active_facts [OF inv sn] have "chain_read sn (registry m)
        (chain_create (to_raw (InFlight t)) body (versions (store m) k)) = Some body"
      using chain_read_create_own [of sn] by simp
    with ok w sn show ?thesis by (auto simp: view_of_def)
  qed (use w in simp_all)
  then show "snap_of m' t \<noteq> None" "view_of versions m' t k = Some (Some body)" by auto
qed

text \<open>A successful write saw no version of the key committed after the writer's snapshot.\<close>

lemma first_committer_wins:
  assumes inv: "mgr_inv versions m" and w: "mgr_write S m t k body n = (Inr (), m')"
    and sn: "snap_of m t = Some sn" and v: "v \<in> set (versions (store m) k)"
    and set: "settled (now_ts m) (xmin v)" and first: "t \<notin> writers m k"
  shows "xmin v \<le> snap_ts sn"
  using inv
proof (cases rule: mgr_write_cases [where t = t and k = k and body = body and n = n])
  case (ok s')
  from v obtain h hs where c: "versions (store m) k = h # hs" by (cases "versions (store m) k") auto
  have le: "xmin v \<le> xmin h"
    using v c chain_sorted_head [of h hs v] chain_inv(2) [OF inv, of k] by auto
  have "writers m k = {}" using ok(4) first by auto
  then have "settled (now_ts m) (xmin h)"
    using chain_inv(1) [OF inv, of k] by (auto simp: c chain_ok_def stamp_ok_def)
  then have "from_raw (xmin h) = Committed (xmin h)" by (simp add: settled_def)
  then have "xmin h \<le> snap_ts sn" using ok(5) sn c by (auto simp: newer_head_def not_less)
  with le show ?thesis by simp
qed (use w in simp_all)

text \<open>While \<open>t\<close> holds a key, nobody else changes its chain, except to reclaim versions.\<close>

definition chain_kept :: "('s, 'd) txn_manager \<Rightarrow> ('s, 'd) txn_manager \<Rightarrow> txn_id \<Rightarrow> key \<Rightarrow> bool" where
  "chain_kept m m' t k \<longleftrightarrow> t \<in> writers m' k \<and>
     (versions (store m') k = versions (store m) k \<or>
      (\<exists>lw r. versions (store m') k = chain_gc lw r (versions (store m) k)))"

lemma chain_kept_abort:
  assumes inv: "mgr_inv versions m" and t: "t \<in> writers m k" and u: "snap_of m u \<noteq> None" "t \<noteq> u"
  shows "chain_kept m (snd (abort_internal S m u)) t k"
proof -
  obtain su where su: "snap_of m u = Some su" using u by auto
  obtain s' where m': "abort_internal S m u = (Inr (), retire u (m\<lparr>store := s',
        registry := reg_record_abort (registry m) u, ssi := ssi_forget (ssi m) u\<rparr>))"
    and s': "versions s' = (\<lambda>k. abort_chain (to_raw (InFlight u)) (versions (store m) k))"
    by (rule abort_internal_active [OF inv su])
  have "u \<notin> writers m k" using chain_inv(3) [OF inv t] u(2) by blast
  then have "versions s' k = versions (store m) k"
    using abort_chain_other [OF chain_inv(1) [OF inv]] active_facts(1) [OF inv su] by (simp add: s')
  moreover have "writers (m\<lparr>store := s', registry := reg_record_abort (registry m) u,
      ssi := ssi_forget (ssi m) u\<rparr>) k = writers m k" by simp
  ultimately show ?thesis using t u(2) by (simp add: chain_kept_def m')
qed

lemma chain_kept_refl: "t \<in> writers m k \<Longrightarrow> chain_kept m m t k"
  by (simp add: chain_kept_def)

lemma chain_kept_same:
  "chain_kept m m' t k \<Longrightarrow> versions (store m'') k = versions (store m) k \<Longrightarrow> chain_kept m'' m' t k"
  by (simp add: chain_kept_def)

text \<open>Once its head is a live version created by the holder, the chain keeps it.\<close>

definition own_head :: "('s, 'd) txn_manager \<Rightarrow> txn_id \<Rightarrow> key \<Rightarrow> bytes \<Rightarrow> bool" where
  "own_head m t k body \<longleftrightarrow> t \<in> writers m k \<and>
     (\<exists>vs. versions (store m) k = \<lparr>xmin = to_raw (InFlight t), xmax = 0, payload = body\<rparr> # vs)"

lemma own_head_kept: "chain_kept m m' t k \<Longrightarrow> own_head m t k body \<Longrightarrow> own_head m' t k body"
  by (auto simp: chain_kept_def own_head_def chain_gc_def gc_keeps_def resolve_commit_ts_def)

lemma own_head_abort:
  "mgr_inv versions m \<Longrightarrow> own_head m t k body \<Longrightarrow> snap_of m u \<noteq> None \<Longrightarrow> t \<noteq> u \<Longrightarrow>
     own_head (snd (abort_internal S m u)) t k body"
  using chain_kept_abort own_head_kept unfolding own_head_def by blast

lemma own_head_abort_all:
  "mgr_inv versions m \<Longrightarrow> distinct vs \<Longrightarrow> (\<And>v. v \<in> set vs \<Longrightarrow> snap_of m v \<noteq> None) \<Longrightarrow> t \<notin> set vs \<Longrightarrow>
     own_head m t k body \<Longrightarrow> own_head (snd (abort_all S m vs)) t k body"
proof (induction vs arbitrary: m)
  case (Cons v vs)
  have v: "snap_of m v \<noteq> None" using Cons.prems(3) by simp
  note step = abort_internal_inv [OF Cons.prems(1) v]
  obtain m1 where m1: "abort_internal S m v = (Inr (), m1)"
    using step(2) by (cases "abort_internal S m v") auto
  have "mgr_inv versions m1" "\<And>u. u \<in> set vs \<Longrightarrow> snap_of m1 u \<noteq> None"
    using step Cons.prems m1 by auto
  moreover have "own_head m1 t k body"
    using own_head_abort [OF Cons.prems(1,5) v] Cons.prems(4) m1 by simp
  ultimately show ?case using Cons.IH [of m1] Cons.prems m1 by simp
qed simp

lemma own_head_commit_publish:
  assumes inv: "mgr_inv versions m" and own: "own_head m t k body"
    and u: "snap_of m u = Some su" and t: "t \<noteq> u"
  shows "own_head (snd (commit_publish S hook m u)) t k body"
  using inv u
proof (cases rule: commit_publish_cases [where hook = hook])
  case full
  then show ?thesis using own_head_abort [OF inv own _ t] u by simp
next
  case (refused e ts d)
  let ?m = "(ticked m ts)\<lparr>durability := d\<rparr>"
  have "mgr_inv versions ?m" using mgr_inv_tick [OF inv refused(1,2)] by (simp add: ticked_def)
  moreover have "own_head ?m t k body" using own by (simp add: own_head_def ticked_def)
  ultimately show ?thesis using u t own_head_abort [of ?m t k body u] refused(4) by (simp add: ticked_def)
next
  case (ok ts d s')
  have "u \<notin> writers m k" using own chain_inv(3) [OF inv] t unfolding own_head_def by blast
  then have "versions s' k = versions (store m) k"
    using chain_commit_other [OF chain_inv(1) [OF inv]] active_facts(1) [OF inv u] by (simp add: ok(4))
  with ok(5) own t show ?thesis by (simp add: own_head_def ticked_def)
qed

lemma own_head_mgr_commit:
  assumes inv: "mgr_inv versions m" and own: "own_head m t k body"
    and t: "snap_of (snd (mgr_commit S hook m u)) t \<noteq> None"
  shows "own_head (snd (mgr_commit S hook m u)) t k body"
  using inv
proof (cases rule: mgr_commit_cases [where t = u and hook = hook])
  case pivot
  then have "t \<noteq> u" using t abort_internal_inv(3) [OF inv] by auto
  with pivot own_head_abort [OF inv own pivot(2)] show ?thesis by simp
next
  case (victim v)
  let ?m = "snd (abort_internal S m v)"
  note ab = abort_internal_inv [OF inv victim(4)]
  have "snap_of ?m u = snap_of m u" using ab(3) victim(3) by simp
  then obtain su where su: "snap_of ?m u = Some su" using victim(2) by auto
  have "t \<noteq> u" "t \<noteq> v"
    using t snap_commit_publish [OF ab(1) su, of hook] victim(1) ab(3) by (auto split: if_splits)
  then show ?thesis
    using victim own_head_commit_publish [OF ab(1) own_head_abort [OF inv own victim(4)] su]
    by simp
next
  case (pass a)
  then obtain su where su: "snap_of m u = Some su" by auto
  have "t \<noteq> u" using t snap_commit_publish [OF inv su, of hook] pass(1) by auto
  with pass(1) own_head_commit_publish [OF inv own su] show ?thesis by simp
qed (use own in simp)

lemma own_head_exec:
  assumes inv: "mgr_inv versions m" and own: "own_head m t k body"
    and t': "snap_of (snd (exec S hook q m)) t \<noteq> None" and q: "\<not> own_write t k q"
  shows "own_head (snd (exec S hook q m)) t k body"
proof (cases q)
  case (ReqBegin level now)
  have act: "snap_of m t \<noteq> None" using own writers_active by (auto simp: own_head_def)
  from inv show ?thesis
  proof (cases rule: mgr_begin_cases [where level = level and now = now])
    case (ok tid bts orc)
    have "tid \<noteq> t"
      using active_invD(4) [OF mgr_invD(1) [OF inv], of t] ok(2) act by (cases "snap_of m t") auto
    then show ?thesis using ok(1) ReqBegin own by (simp add: own_head_def admit_def writers_iff)
  qed (use ReqBegin own in simp_all)
next
  case (ReqRead u j now)
  then show ?thesis using own
    by (cases "snap_of m u") (simp_all add: mgr_read_active mgr_read_inactive own_head_def)
next
  case (ReqWrite u j body' now)
  have free: "writers m j \<subseteq> {u} \<Longrightarrow> j \<noteq> k" using own q ReqWrite by (auto simp: own_head_def)
  from inv show ?thesis
    by (cases rule: mgr_write_cases [where t = u and k = j and body = body' and n = now])
      (use ReqWrite own free in \<open>auto simp: own_head_def writers_hold\<close>)
next
  case (ReqDelete u j now)
  have free: "writers m j \<subseteq> {u} \<Longrightarrow> j \<noteq> k" using own q ReqDelete by (auto simp: own_head_def)
  from inv show ?thesis
    by (cases rule: mgr_delete_cases [where t = u and k = j and n = now])
      (use ReqDelete own free in \<open>auto simp: own_head_def writers_hold\<close>)
next
  case (ReqCommit u)
  then show ?thesis using own_head_mgr_commit [OF inv own, of hook u] t' by simp
next
  case (ReqRollback u)
  then show ?thesis
    using t' own own_head_abort [OF inv own, of u] abort_internal_inv(3) [OF inv, of u]
    by (cases "snap_of m u") (auto simp: mgr_rollback_def snap_of_dom split: if_splits)
next
  case ReqGc
  obtain s' where m': "snd (run_gc S m) = m\<lparr>store := s',
      registry := snd (prune_settled (registry m) (low_water_mark (mgr_oracle m))),
      ssi := snd (prune_committed (ssi m) (low_water_mark (mgr_oracle m)))\<rparr>"
    and s': "versions s' = (\<lambda>k. chain_gc (low_water_mark (mgr_oracle m)) (registry m) (versions (store m) k))"
    by (rule run_gc_result)
  have "chain_kept m (snd (run_gc S m)) t k"
    using own by (auto simp: chain_kept_def own_head_def m' s')
  with own show ?thesis using ReqGc own_head_kept by simp
next
  case (ReqReap now)
  note snap = abort_all_inv(3) [OF inv idle_victims_active(1) idle_victims_active(2), of m now]
  have "t \<notin> set (idle_victims m now)"
    using t' ReqReap snap by (auto simp: reap_idle_result [OF inv])
  then have "own_head (snd (abort_all S m (idle_victims m now))) t k body"
    by (intro own_head_abort_all [OF inv idle_victims_active(1)] own) (auto dest: idle_victims_active(2))
  then show ?thesis using ReqReap by (simp add: reap_idle_result [OF inv])
qed

lemma own_head_exec_all:
  assumes "mgr_inv versions m" "own_head m t k body"
    and "snap_of (snd (exec_all S hook qs m)) t \<noteq> None" "\<And>q. q \<in> set qs \<Longrightarrow> \<not> own_write t k q"
  shows "own_head (snd (exec_all S hook qs m)) t k body"
  using assms
proof (induction qs arbitrary: m)
  case (Cons q qs)
  let ?m = "snd (exec S hook q m)"
  have inv: "mgr_inv versions ?m" using Cons.prems(1) by (rule exec_inv)
  have "snap_of m t \<noteq> None" using Cons.prems(2) writers_active by (auto simp: own_head_def)
  then have "t \<le> next_txn_id m" using active_invD(4) [OF mgr_invD(1) [OF Cons.prems(1)]] by blast
  then have "t \<le> next_txn_id ?m" using next_id_exec [OF Cons.prems(1), of hook q] by simp
  moreover obtain sn where "snap_of (snd (exec_all S hook qs ?m)) t = Some sn"
    using Cons.prems(3) unfolding exec_all_snd by blast
  ultimately have "snap_of ?m t \<noteq> None" using retired_stays_retired [OF inv] by blast
  then have "own_head ?m t k body" using Cons.prems by (intro own_head_exec) auto
  then show ?case using Cons.IH [OF inv] Cons.prems unfolding exec_all_snd by auto
qed simp

lemma own_head_write:
  assumes inv: "mgr_inv versions m" and w: "mgr_write S m t k body n = (Inr (), m')"
  shows "own_head m' t k body"
  using inv
proof (cases rule: mgr_write_cases [where t = t and k = k and body = body and n = n])
  case (ok s')
  have "t \<in> writers (hold t k (touch m t n)) k" using ok(3) by (subst writers_hold) simp_all
  then show ?thesis using ok w by (auto simp: own_head_def chain_create_def)
qed (use w in simp_all)

text \<open>A commit turns the holder's head into the committed value of the key.\<close>

lemma commit_own_head:
  assumes inv: "mgr_inv versions m" and own: "own_head m t k body"
    and c: "mgr_commit S hook m t = (Inr ts, m')"
  shows "valid_id ts" "now_ts m' = ts" "mgr_inv versions m'" "snap_of m' t = None"
    "\<exists>vs. versions (store m') k = \<lparr>xmin = ts, xmax = 0, payload = body\<rparr> # vs"
proof -
  show inv': "mgr_inv versions m'" using mgr_commit_inv [OF inv, of hook t] c by simp
  have pub: "valid_id ts \<and> now_ts m' = ts \<and> snap_of m' t = None \<and>
      (\<exists>vs. versions (store m') k = \<lparr>xmin = ts, xmax = 0, payload = body\<rparr> # vs)"
    if p: "mgr_inv versions m0" "own_head m0 t k body" "commit_publish S hook m0 t = (Inr ts, m')" for m0
  proof -
    obtain sn where sn: "snap_of m0 t = Some sn"
      using p(2) writers_active [of t m0 k] by (auto simp: own_head_def)
    from p(1) sn show ?thesis
    proof (cases rule: commit_publish_cases [where hook = hook])
      case (ok ts' d s')
      let ?m1 = "(ticked m0 ts')\<lparr>durability := d, store := s',
         registry := reg_record_commit (registry m0) t ts', ssi := ssi_record_commit (ssi m0) t ts'\<rparr>"
      have "oracle_inv (mgr_oracle ?m1)" "snap_of ?m1 t = Some sn"
        using active_invD(1) [OF mgr_invD(1) [OF mgr_inv_tick [OF p(1) ok(1,2)]]] sn
        by (simp_all add: ticked_def)
      from oracle_retire(2) [OF this] have "now_ts m' = ts'" using ok(5) p(3) by (simp add: ticked_def)
      then show ?thesis using ok p sn
        by (auto simp: own_head_def chain_commit_def stamp_version_def committed_def)
    qed (use p in simp_all)
  qed
  from inv have "valid_id ts \<and> now_ts m' = ts \<and> snap_of m' t = None \<and>
      (\<exists>vs. versions (store m') k = \<lparr>xmin = ts, xmax = 0, payload = body\<rparr> # vs)"
  proof (cases rule: mgr_commit_cases [where t = t and hook = hook])
    case (victim v)
    show ?thesis
      using victim c abort_internal_inv(1) [OF inv victim(4)] own_head_abort [OF inv own victim(4)]
      by (intro pub) auto
  next
    case (pass a)
    then show ?thesis using c inv own by (intro pub) auto
  qed (use c in simp_all)
  then show "valid_id ts" "now_ts m' = ts" "snap_of m' t = None"
    "\<exists>vs. versions (store m') k = \<lparr>xmin = ts, xmax = 0, payload = body\<rparr> # vs" by auto
qed

lemma begin_ok:
  assumes inv: "mgr_inv versions m" and b: "mgr_begin m level n = (Inr u, m')"
  shows "mgr_inv versions m'" "store m' = store m" "u \<notin> writers m' k"
    "\<exists>bts. snap_of m' u = Some (snapshot_new u bts) \<and> now_ts m < bts"
proof -
  show "mgr_inv versions m'" using mgr_begin_inv [OF inv, of level n] b by simp
  from inv have "store m' = store m \<and> u \<notin> writers m' k \<and>
      (\<exists>bts. snap_of m' u = Some (snapshot_new u bts) \<and> now_ts m < bts)"
  proof (cases rule: mgr_begin_cases [where level = level and now = n])
    case (ok tid bts orc)
    then show ?thesis using b by (auto simp: admit_def writers_iff snap_of_def)
  qed (use b in simp_all)
  then show "store m' = store m" "u \<notin> writers m' k"
    "\<exists>bts. snap_of m' u = Some (snapshot_new u bts) \<and> now_ts m < bts" by auto
qed

lemma committed_write_visible:
  assumes inv: "mgr_inv versions m"
    and w: "mgr_write S m t k body n = (Inr (), m1)"
    and quiet: "\<And>q. q \<in> set qs \<Longrightarrow> \<not> own_write t k q"
    and c: "mgr_commit S hook (snd (exec_all S hook qs m1)) t = (Inr ts, m2)"
    and b: "mgr_begin m2 level n' = (Inr u, m3)"
  shows "fst (mgr_read S m3 u k n'') = Inr (Some body)"
proof -
  let ?m = "snd (exec_all S hook qs m1)"
  have inv1: "mgr_inv versions m1" using read_own_write(1) [OF inv w] .
  then have inv2: "mgr_inv versions ?m" by (rule exec_all_inv)
  have "snap_of ?m t \<noteq> None"
    using c by (auto simp: mgr_commit_def snap_of_def split: option.splits)
  then have "own_head ?m t k body"
    using own_head_exec_all [OF inv1 own_head_write [OF inv w]] quiet by blast
  note com = commit_own_head [OF inv2 this c]
  note beg = begin_ok [OF com(3) b]
  obtain bts where bts: "snap_of m3 u = Some (snapshot_new u bts)" "ts < bts"
    using beg(4) com(2) by auto
  obtain vs where "versions (store m3) k = \<lparr>xmin = ts, xmax = 0, payload = body\<rparr> # vs"
    using com(5) beg(2) by auto
  then have "value_at bts (versions (store m3) k) = Some body"
    using com(1) bts(2) by (simp add: value_at_def live_at_def settled_def valid_id_def less_imp_le)
  with read_committed_state [OF beg(1) bts(1) beg(3)] show ?thesis by (simp add: snapshot_new_def)
qed

text \<open>A rollback leaves no trace in the chains and changes no committed state.\<close>

lemma value_at_abort:
  "value_at ts (abort_chain (to_raw (InFlight t)) c) = value_at ts c"
  by (induction c) (auto simp: value_at_def abort_chain_def live_at_def)

lemma rollback_no_trace:
  assumes inv: "mgr_inv versions m" and t: "snap_of m t \<noteq> None"
  shows "value_at ts (versions (store (snd (abort_internal S m t))) k) = value_at ts (versions (store m) k)"
    and "v \<in> set (versions (store (snd (abort_internal S m t))) k) \<Longrightarrow>
      xmin v \<noteq> to_raw (InFlight t) \<and> xmax v \<noteq> to_raw (InFlight t)"
    and "\<not> tracks (ssi (snd (abort_internal S m t))) t"
    and "outcome (registry (snd (abort_internal S m t))) t = OutcomeAborted"
proof -
  obtain sn where sn: "snap_of m t = Some sn" using t by auto
  obtain s' where m': "abort_internal S m t = (Inr (), retire t (m\<lparr>store := s',
        registry := reg_record_abort (registry m) t, ssi := ssi_forget (ssi m) t\<rparr>))"
    and s': "versions s' = (\<lambda>k. abort_chain (to_raw (InFlight t)) (versions (store m) k))"
    by (rule abort_internal_active [OF inv sn])
  have e: "edges_inv (ssi m)" using tracker_invD(1) [OF mgr_invD(4) [OF inv]] by (simp add: ssi_inv_def)
  show "value_at ts (versions (store (snd (abort_internal S m t))) k) = value_at ts (versions (store m) k)"
    by (simp add: m' s' value_at_abort)
  show "v \<in> set (versions (store (snd (abort_internal S m t))) k) \<Longrightarrow>
      xmin v \<noteq> to_raw (InFlight t) \<and> xmax v \<noteq> to_raw (InFlight t)"
    by (auto simp: m' s' abort_chain_def)
  show "\<not> tracks (ssi (snd (abort_internal S m t))) t"
    by (simp add: m' tracks_def fmdom_ssi_forget [OF e])
  show "outcome (registry (snd (abort_internal S m t))) t = OutcomeAborted"
    by (simp add: m')
qed

text \<open>A collection pass keeps exactly what some present or future snapshot may need.\<close>

lemma run_gc_keeps:
  assumes inv: "mgr_inv versions m"
  shows "v \<in> set (versions (store (snd (run_gc S m))) k) \<longleftrightarrow>
    v \<in> set (versions (store m) k) \<and>
    \<not> (settled (now_ts m) (xmax v) \<and> (\<forall>t sn. snap_of m t = Some sn \<longrightarrow> xmax v \<le> snap_ts sn))"
proof -
  let ?lw = "low_water_mark (mgr_oracle m)"
  obtain s' where m': "snd (run_gc S m) = m\<lparr>store := s',
      registry := snd (prune_settled (registry m) ?lw), ssi := snd (prune_committed (ssi m) ?lw)\<rparr>"
    and s': "versions s' = (\<lambda>k. chain_gc ?lw (registry m) (versions (store m) k))"
    by (rule run_gc_result)
  have live: "ts \<in> live_begins (mgr_oracle m) \<longleftrightarrow> (\<exists>t sn. snap_of m t = Some sn \<and> snap_ts sn = ts)" for ts
    using mgr_invD(1) [OF inv] unfolding active_inv_def by blast
  have "gc_keeps ?lw (registry m) v \<longleftrightarrow>
      \<not> (settled (now_ts m) (xmax v) \<and> (\<forall>t sn. snap_of m t = Some sn \<longrightarrow> xmax v \<le> snap_ts sn))"
    if v: "v \<in> set (versions (store m) k)"
  proof -
    have ok: "xmax v = 0 \<or> stamp_ok (writers m k) (now_ts m) (xmax v)"
      using chain_inv(1) [OF inv, of k] v by (auto simp: chain_ok_def)
    have mark: "(case ?lw of Some mark \<Rightarrow> c > mark | None \<Rightarrow> False) \<longleftrightarrow>
        \<not> (\<forall>t sn. snap_of m t = Some sn \<longrightarrow> c \<le> snap_ts sn)" for c
    proof (cases ?lw)
      case None
      then have "live_begins (mgr_oracle m) = {}" by (simp only: low_water_mark_None)
      then show ?thesis unfolding None using live by auto
    next
      case (Some mark)
      then have "mark \<in> live_begins (mgr_oracle m)" "\<And>t. t \<in> live_begins (mgr_oracle m) \<Longrightarrow> mark \<le> t"
        by (auto simp: low_water_mark_Some)
      then obtain t0 sn0 where t0: "snap_of m t0 = Some sn0" "snap_ts sn0 = mark"
        and min: "\<And>t sn. snap_of m t = Some sn \<Longrightarrow> mark \<le> snap_ts sn" unfolding live by blast
      have "mark < c \<longleftrightarrow> \<not> (\<forall>t sn. snap_of m t = Some sn \<longrightarrow> c \<le> snap_ts sn)"
      proof
        show "mark < c \<Longrightarrow> \<not> (\<forall>t sn. snap_of m t = Some sn \<longrightarrow> c \<le> snap_ts sn)"
          using t0 by fastforce
        show "\<not> (\<forall>t sn. snap_of m t = Some sn \<longrightarrow> c \<le> snap_ts sn) \<Longrightarrow> mark < c"
          using min le_less_trans by (metis not_le)
      qed
      then show ?thesis by (simp only: Some option.case)
    qed
    show ?thesis
    proof (cases "settled (now_ts m) (xmax v)")
      case True
      then have "resolve_commit_ts (registry m) (xmax v) = Some (xmax v)"
        by (simp add: resolve_commit_ts_def settled_def)
      with True mark show ?thesis by (simp add: gc_keeps_def)
    next
      case False
      with ok have "resolve_commit_ts (registry m) (xmax v) = None"
        using writers_active [of _ m k] active_facts(2) [OF inv]
        by (fastforce simp: stamp_ok_def resolve_commit_ts_def split: version_stamp.splits)
      with False show ?thesis by (simp add: gc_keeps_def)
    qed
  qed
  then show ?thesis by (auto simp: m' s' chain_gc_def)
qed

lemma admission_exec:
  assumes inv: "mgr_inv versions m" and adm: "admission_inv m"
  shows "admission_inv (snd (exec S hook q m))"
proof (cases "\<exists>level now. q = ReqBegin level now")
  case True
  then obtain level now where q: "q = ReqBegin level now" by blast
  from inv show ?thesis
  proof (cases rule: mgr_begin_cases [where level = level and now = now])
    case (ok tid bts orc)
    then have "fcard (fmdom (active m)) < max_active_txns (config m)"
      by (auto simp: mgr_begin_def split: if_splits)
    moreover have "fcard (finsert tid (fmdom (active m))) \<le> Suc (fcard (fmdom (active m)))"
      by (simp add: fcard_finsert_if)
    ultimately show ?thesis using ok q by (simp add: admission_inv_def mgr_active_count_def admit_def)
  qed (use q adm in simp_all)
next
  case False
  let ?m = "snd (exec S hook q m)"
  have f: "next_txn_id ?m = next_txn_id m" "config ?m = config m"
    using frame_exec [OF inv, of q hook] False by (auto simp: frame_def)
  have "fmdom (active ?m) |\<subseteq>| fmdom (active m)"
  proof
    fix t assume "t |\<in>| fmdom (active ?m)"
    then obtain sn where sn: "snap_of ?m t = Some sn" by (auto simp: snap_of_dom)
    have "t \<le> next_txn_id m"
      using active_invD(4) [OF mgr_invD(1) [OF exec_inv [OF inv]] sn] f by simp
    with snap_exec [OF inv sn] show "t |\<in>| fmdom (active m)" by (auto simp: snap_of_dom)
  qed
  then have "fcard (fmdom (active ?m)) \<le> fcard (fmdom (active m))" by (rule fcard_mono)
  with adm f show ?thesis by (simp add: admission_inv_def mgr_active_count_def)
qed

lemma commit_publish_no_panic:
  assumes "mgr_inv versions m" "snap_of m t = Some sn" "\<And>t d. fst (hook t d) \<noteq> Inl Panicked"
  shows "fst (commit_publish S hook m t) \<noteq> Inl Panicked"
  using assms(1,2)
proof (cases rule: commit_publish_cases [where hook = hook])
  case (refused e ts d)
  then show ?thesis using assms(3) [of t "durability m"] by simp
qed simp_all

lemma exec_no_panic:
  assumes inv: "mgr_inv versions m" and hook: "\<And>t d. fst (hook t d) \<noteq> Inl Panicked"
  shows "\<not> panicked (fst (exec S hook q m))"
proof (cases q)
  case (ReqBegin level now)
  from inv show ?thesis
    by (cases rule: mgr_begin_cases [where level = level and now = now]) (use ReqBegin in simp_all)
next
  case (ReqRead u k now)
  then show ?thesis by (cases "snap_of m u") (simp_all add: mgr_read_active mgr_read_inactive)
next
  case (ReqWrite u k body now)
  from inv show ?thesis
    by (cases rule: mgr_write_cases [where t = u and k = k and body = body and n = now])
      (use ReqWrite in simp_all)
next
  case (ReqDelete u k now)
  from inv show ?thesis
    by (cases rule: mgr_delete_cases [where t = u and k = k and n = now]) (use ReqDelete in simp_all)
next
  case (ReqCommit u)
  from inv show ?thesis
  proof (cases rule: mgr_commit_cases [where t = u and hook = hook])
    case (victim v)
    note ab = abort_internal_inv [OF inv victim(4)]
    have "snap_of (snd (abort_internal S m v)) u = snap_of m u" using ab(3) victim(3) by simp
    then obtain su where "snap_of (snd (abort_internal S m v)) u = Some su" using victim(2) by auto
    from commit_publish_no_panic [OF ab(1) this hook] victim(1) ReqCommit show ?thesis by simp
  next
    case (pass a)
    then obtain su where "snap_of m u = Some su" by auto
    from commit_publish_no_panic [OF inv this hook] pass(1) ReqCommit show ?thesis by simp
  qed (use ReqCommit in simp_all)
next
  case (ReqRollback u)
  then show ?thesis using abort_internal_inv(2) [OF inv, of u] by (simp add: mgr_rollback_def snap_of_dom)
next
  case (ReqReap now)
  then show ?thesis by (simp add: reap_idle_result [OF inv])
qed simp

end

subsection \<open>The oracle's bookkeeping\<close>

lemma oracle_active_count_card:
  assumes "oracle_inv orc"
  shows "oracle_active_count orc = card (live_begins orc)"
proof -
  have one: "the (fmlookup (active_begins orc) ts) = 1" if "ts |\<in>| fmdom (active_begins orc)" for ts
    using assms that by (auto simp: oracle_inv_def fmlookup_dom_iff)
  have "map (\<lambda>(_, c). unat c) (sorted_list_of_fmap (active_begins orc)) =
      map (\<lambda>_. 1) (sorted_list_of_fset (fmdom (active_begins orc)))"
    by (simp add: sorted_list_of_fmap_def one)
  then have "oracle_active_count orc = length (sorted_list_of_fset (fmdom (active_begins orc)))"
    by (simp add: oracle_active_count_def sum_list_triv)
  then show ?thesis by (metis distinct_card live_begins_def sorted_list_of_fset_distinct sorted_list_of_fset_set)
qed

lemma live_begins_card:
  assumes "active_inv m"
  shows "card (live_begins (mgr_oracle m)) = mgr_active_count m"
proof -
  have "live_begins (mgr_oracle m) = (\<lambda>t. snap_ts (the (snap_of m t))) ` fset (fmdom (active m))"
    using assms unfolding active_inv_def snap_of_dom by (force simp: snap_of_dom)
  moreover have "inj_on (\<lambda>t. snap_ts (the (snap_of m t))) (fset (fmdom (active m)))"
    using active_invD(7) [OF assms] by (auto simp: inj_on_def snap_of_dom)
  ultimately show ?thesis by (simp add: card_image mgr_active_count_def fcard.rep_eq)
qed

end
