(* ===== verification/Isolation_Properties.thy ===== *)
theory Isolation_Properties
  imports Isolation
begin

text \<open>
  The promises of the transaction manager over the in-memory store, for every sequence of requests
  from the initial state, every configuration and every durability hook.
\<close>

subsection \<open>Reachable managers over the in-memory store\<close>

definition mem_reachable ::
  "'d durability_hook \<Rightarrow> 'd \<Rightarrow> txn_config \<Rightarrow> (mem_store, 'd) txn_manager \<Rightarrow> bool" where
  "mem_reachable hook d cfg m \<longleftrightarrow>
     reachable mem_ops hook (with_durability_and_config mem_new d cfg) m"

lemma mem_new_versions: "mem_versions mem_new k = []"
  by (simp add: mem_versions_def mem_new_def fm_get_def)

lemma mem_reachable_inv: "mem_reachable hook d cfg m \<Longrightarrow> mgr_inv mem_versions m"
  unfolding mem_reachable_def by (erule mem.reachable_inv) (rule mgr_inv_new, rule mem_new_versions)

lemma mem_reachable_admission:
  assumes "mem_reachable hook d cfg m"
  shows "admission_inv m \<and> config m = cfg"
proof -
  have "reachable mem_ops hook (with_durability_and_config mem_new d cfg) m"
    using assms by (simp add: mem_reachable_def)
  then have "mgr_inv mem_versions m \<and> admission_inv m \<and> config m = cfg"
  proof (induction rule: reachable.induct)
    case init
    have "mgr_inv mem_versions (with_durability_and_config mem_new d cfg)"
      by (rule mgr_inv_new) (rule mem_new_versions)
    then show ?case
      by (simp add: admission_inv_def mgr_active_count_def with_durability_and_config_def fcard_fempty)
  next
    case (step m q)
    then have inv: "mgr_inv mem_versions m" by blast
    have "config (snd (exec mem_ops hook q m)) = config m"
    proof (cases "\<exists>level now. q = ReqBegin level now")
      case True
      then show ?thesis
        by (auto simp: mgr_begin_def split: option.splits prod.splits sum.splits if_splits)
    next
      case False
      then show ?thesis using mem.frame_exec [OF inv, of q hook] by (auto simp: frame_def)
    qed
    then show ?case using step mem.exec_inv [OF inv] mem.admission_exec [OF inv] by simp
  qed
  then show ?thesis by blast
qed

lemma mem_run: "mem_reachable hook d cfg (snd (exec_all mem_ops hook qs (with_durability_and_config mem_new d cfg)))"
  by (simp add: mem_reachable_def reachable_exec_all reachable.init)

text \<open>A small configuration and two runs the witnesses below evaluate.\<close>

definition small_config :: txn_config where
  "small_config = \<lparr>max_active_txns = 3, idle_timeout = 10\<rparr>"

definition run_from_new :: "request list \<Rightarrow> (mem_store, unit) txn_manager" where
  "run_from_new qs =
     snd (exec_all mem_ops no_durability qs (with_durability_and_config mem_new () small_config))"

lemma run_reachable: "mem_reachable no_durability () small_config (run_from_new qs)"
  by (simp add: run_from_new_def mem_run)

subsection \<open>The properties\<close>

text \<open>
  C4: In every reachable state the oracle, the active table, the commit registry, the conflict
  tracker and the version chains agree (\<^const>\<open>mgr_inv\<close>).
\<close>

theorem manager_invariant:
  assumes "mem_reachable hook d cfg m"
  shows "mgr_inv mem_versions m"
  using assms by (rule mem_reachable_inv)

theorem manager_invariant_witness:
  "mgr_inv mem_versions (run_from_new [ReqBegin Serializable 0, ReqWrite 1 7 [1] 0, ReqCommit 1, ReqGc])"
  by (rule manager_invariant [OF run_reachable])

text \<open>
  C12: No operation panics in a reachable state, whatever its arguments, as long as the durability
  hook itself does not.
\<close>

theorem no_operation_panics:
  assumes "mem_reachable hook d cfg m" "\<And>t x. fst (hook t x) \<noteq> Inl Panicked"
  shows "\<not> panicked (fst (exec mem_ops hook q m))"
  by (rule mem.exec_no_panic [OF mem_reachable_inv [OF assms(1)] assms(2)])

theorem no_operation_panics_witness:
  "\<not> panicked (fst (exec mem_ops no_durability (ReqCommit 1) (run_from_new [ReqBegin Serializable 0])))"
  by (rule no_operation_panics [OF run_reachable]) (simp add: no_durability_def)

text \<open>
  C7: Repeatable reads. While a transaction runs, its reads of a key return the same value over any
  sequence of requests of any transactions, collections and reaping included, as long as it does
  not write that key itself.
\<close>

theorem snapshot_reads_are_stable:
  assumes "mem_reachable hook d cfg m" "t |\<in>| fmdom (active m)"
    and "t |\<in>| fmdom (active (snd (exec_all mem_ops hook qs m)))"
    and "\<And>q. q \<in> set qs \<Longrightarrow> \<not> own_write t k q"
  shows "fst (mgr_read mem_ops (snd (exec_all mem_ops hook qs m)) t k n) = fst (mgr_read mem_ops m t k n')"
  using mem.repeatable_read [OF mem_reachable_inv [OF assms(1)], of t hook qs k] assms(2-4)
  by (simp add: snap_of_dom)

text \<open>
  The witness: transaction 2 starts after 1 committed a value for key 7; transaction 3 overwrites
  it, commits, and a collection runs.
\<close>

theorem snapshot_reads_are_stable_witness:
  "let m = run_from_new [ReqBegin Serializable 0, ReqWrite 1 7 [1] 0, ReqCommit 1, ReqBegin Serializable 0];
       m' = snd (exec_all mem_ops no_durability
              [ReqBegin Serializable 0, ReqWrite 3 7 [2] 0, ReqCommit 3, ReqGc] m)
   in fst (mgr_read mem_ops m' 2 7 0) = fst (mgr_read mem_ops m 2 7 0) \<and>
      fst (mgr_read mem_ops m 2 7 0) = Inr (Some [1])"
  unfolding Let_def
proof
  show "fst (mgr_read mem_ops (snd (exec_all mem_ops no_durability
      [ReqBegin Serializable 0, ReqWrite 3 7 [2] 0, ReqCommit 3, ReqGc]
      (run_from_new [ReqBegin Serializable 0, ReqWrite 1 7 [1] 0, ReqCommit 1, ReqBegin Serializable 0]))) 2 7 0) =
    fst (mgr_read mem_ops
      (run_from_new [ReqBegin Serializable 0, ReqWrite 1 7 [1] 0, ReqCommit 1, ReqBegin Serializable 0]) 2 7 0)"
  proof (rule snapshot_reads_are_stable [OF run_reachable])
    show "2 |\<in>| fmdom (active (run_from_new
      [ReqBegin Serializable 0, ReqWrite 1 7 [1] 0, ReqCommit 1, ReqBegin Serializable 0]))"
      by code_simp
    show "2 |\<in>| fmdom (active (snd (exec_all mem_ops no_durability
      [ReqBegin Serializable 0, ReqWrite 3 7 [2] 0, ReqCommit 3, ReqGc]
      (run_from_new [ReqBegin Serializable 0, ReqWrite 1 7 [1] 0, ReqCommit 1, ReqBegin Serializable 0]))))"
      by code_simp
  qed auto
  show "fst (mgr_read mem_ops (run_from_new
      [ReqBegin Serializable 0, ReqWrite 1 7 [1] 0, ReqCommit 1, ReqBegin Serializable 0]) 2 7 0) = Inr (Some [1])"
    by code_simp
qed

text \<open>
  C8: A running transaction that has not written a key reads the committed state of the key as of
  its begin timestamp: the version created by then and not yet expired by then.
\<close>

theorem reads_see_committed_snapshot:
  assumes "mem_reachable hook d cfg m" "fmlookup (active m) t = Some a" "k |\<notin>| written a"
  shows "fst (mgr_read mem_ops m t k n) =
    Inr (value_at (snap_ts (act_snapshot a)) (mem_versions (store m) k))"
  by (rule mem.read_committed_state [OF mem_reachable_inv [OF assms(1)]])
    (use assms in \<open>auto simp: snap_of_def writers_iff\<close>)

theorem reads_see_committed_snapshot_witness:
  "let m = run_from_new [ReqBegin Serializable 0, ReqWrite 1 7 [1] 0]
   in fst (mgr_read mem_ops m 1 8 0) = Inr (value_at 1 (mem_versions (store m) 8))"
proof -
  let ?m = "run_from_new [ReqBegin Serializable 0, ReqWrite 1 7 [1] 0]"
  have a: "fmlookup (active ?m) 1 = Some \<lparr>act_snapshot = snapshot_new 1 1, isolation = Serializable,
      written = {|7|}, last_active = 0\<rparr>"
    by code_simp
  show ?thesis
    using reads_see_committed_snapshot [OF run_reachable a, of 8 0] by (simp add: Let_def snapshot_new_def)
qed

text \<open>
  C9: Read your own writes. After a successful write, the writer reads the written value back over
  any sequence of requests in which it does not write the key again.
\<close>

theorem own_writes_are_read_back:
  assumes "mem_reachable hook d cfg m" "mgr_write mem_ops m t k body n = (Inr (), m')"
    and "t |\<in>| fmdom (active (snd (exec_all mem_ops hook qs m')))"
    and "\<And>q. q \<in> set qs \<Longrightarrow> \<not> own_write t k q"
  shows "fst (mgr_read mem_ops (snd (exec_all mem_ops hook qs m')) t k n') = Inr (Some body)"
proof -
  note w = mem.read_own_write [OF mem_reachable_inv [OF assms(1)] assms(2)]
  show ?thesis
    using mem.repeatable_read [OF w(1,2), of hook qs k n' n'] mem.mgr_read_view [OF w(2), of k n'] assms(3,4) w(3)
    by (simp add: snap_of_dom)
qed

theorem own_writes_are_read_back_witness:
  "let m = run_from_new [ReqBegin Serializable 0];
       m' = snd (mgr_write mem_ops m 1 7 [5] 0)
   in fst (mgr_read mem_ops (snd (exec_all mem_ops no_durability [ReqGc] m')) 1 7 0) = Inr (Some [5])"
  unfolding Let_def
proof (rule own_writes_are_read_back [OF run_reachable])
  have "fst (mgr_write mem_ops (run_from_new [ReqBegin Serializable 0]) 1 7 [5] 0) = Inr ()"
    by code_simp
  then show "mgr_write mem_ops (run_from_new [ReqBegin Serializable 0]) 1 7 [5] 0 =
      (Inr (), snd (mgr_write mem_ops (run_from_new [ReqBegin Serializable 0]) 1 7 [5] 0))"
    by (simp add: prod_eq_iff)
  show "1 |\<in>| fmdom (active (snd (exec_all mem_ops no_durability [ReqGc]
      (snd (mgr_write mem_ops (run_from_new [ReqBegin Serializable 0]) 1 7 [5] 0)))))"
    by code_simp
qed auto



text \<open>
  C11: First committer wins. When the first write of a key by a transaction succeeds, no version
  of that key was created by a transaction that committed after the writer's snapshot.
\<close>

theorem first_write_sees_no_newer_version:
  assumes "mem_reachable hook d cfg m" "fmlookup (active m) t = Some a" "k |\<notin>| written a"
    and "mgr_write mem_ops m t k body n = (Inr (), m')"
    and "v \<in> set (mem_versions (store m) k)" "settled (next_counter (mgr_oracle m)) (xmin v)"
  shows "xmin v \<le> snap_ts (act_snapshot a)"
  by (rule mem.first_committer_wins [OF mem_reachable_inv [OF assms(1)] assms(4) _ assms(5,6)])
    (use assms in \<open>auto simp: snap_of_def writers_iff\<close>)

theorem first_write_sees_no_newer_version_witness:
  "xmin (hd (mem_versions (store (run_from_new [ReqBegin Serializable 0, ReqWrite 1 7 [5] 0, ReqCommit 1,
      ReqBegin Serializable 0])) 7)) \<le> 3"
proof -
  let ?m = "run_from_new [ReqBegin Serializable 0, ReqWrite 1 7 [5] 0, ReqCommit 1, ReqBegin Serializable 0]"
  have a: "fmlookup (active ?m) 2 = Some \<lparr>act_snapshot = snapshot_new 2 3, isolation = Serializable,
      written = {||}, last_active = 0\<rparr>"
    by code_simp
  have "fst (mgr_write mem_ops ?m 2 7 [6] 0) = Inr ()" by code_simp
  then have w: "mgr_write mem_ops ?m 2 7 [6] 0 = (Inr (), snd (mgr_write mem_ops ?m 2 7 [6] 0))"
    by (simp add: prod_eq_iff)
  have v: "mem_versions (store ?m) 7 = [\<lparr>xmin = 2, xmax = 0, payload = [5]\<rparr>]" by code_simp
  have "settled (next_counter (mgr_oracle ?m)) 2" by code_simp
  then show ?thesis
    using first_write_sees_no_newer_version [OF run_reachable a _ w, of "hd (mem_versions (store ?m) 7)"]
    by (simp add: v snapshot_new_def)
qed

end
