(* ===== verification/Lifecycle_Properties.thy ===== *)
theory Lifecycle_Properties
  imports Isolation_Properties
begin

text \<open>
  Rollback, garbage collection, the oracle's bookkeeping and the idle reaper over the in-memory
  store.
\<close>



text \<open>
  C15: A collection pass is exact: it keeps a version unless the version's expiry has committed and
  lies at or before the begin timestamp of every running transaction. In particular with no
  running transaction it keeps the current versions only.
\<close>

theorem gc_reclaims_exactly_the_dead:
  assumes "mem_reachable hook d cfg m"
  shows "v \<in> set (mem_versions (store (snd (run_gc mem_ops m))) k) \<longleftrightarrow>
    v \<in> set (mem_versions (store m) k) \<and>
    \<not> (settled (next_counter (mgr_oracle m)) (xmax v) \<and>
       (\<forall>t a. fmlookup (active m) t = Some a \<longrightarrow> xmax v \<le> snap_ts (act_snapshot a)))"
  using mem.run_gc_keeps [OF mem_reachable_inv [OF assms], of v k] by (auto simp: snap_of_def)

theorem gc_reclaims_exactly_the_dead_witness:
  "let m = run_from_new [ReqBegin Serializable 0, ReqWrite 1 7 [5] 0, ReqWrite 1 7 [6] 0, ReqCommit 1]
   in length (mem_versions (store m) 7) = 2 \<and>
      \<lparr>xmin = 2, xmax = 2, payload = [5]\<rparr> \<notin> set (mem_versions (store (snd (run_gc mem_ops m))) 7)"
proof -
  let ?m = "run_from_new [ReqBegin Serializable 0, ReqWrite 1 7 [5] 0, ReqWrite 1 7 [6] 0, ReqCommit 1]"
  have "active ?m = fmempty" by code_simp
  moreover have "settled (next_counter (mgr_oracle ?m)) 2" by code_simp
  moreover have "length (mem_versions (store ?m) 7) = 2" by code_simp
  ultimately show ?thesis
    using gc_reclaims_exactly_the_dead [OF run_reachable, of "\<lparr>xmin = 2, xmax = 2, payload = [5]\<rparr>"]
    by (simp add: Let_def)
qed

text \<open>
  C16: The low-water mark is the least begin timestamp of the running transactions, none when there
  is none; the oracle counts as many live begins as the manager counts active transactions, and
  that number never exceeds the configured bound.
\<close>

theorem oracle_tracks_active_transactions:
  assumes "mem_reachable hook d cfg m"
  shows "(low_water_mark (mgr_oracle m) = Some ts \<longleftrightarrow>
      (\<exists>t a. fmlookup (active m) t = Some a \<and> snap_ts (act_snapshot a) = ts) \<and>
      (\<forall>t a. fmlookup (active m) t = Some a \<longrightarrow> ts \<le> snap_ts (act_snapshot a))) \<and>
    (low_water_mark (mgr_oracle m) = None \<longleftrightarrow> mgr_active_count m = 0) \<and>
    oracle_active_count (mgr_oracle m) = mgr_active_count m \<and>
    mgr_active_count m \<le> max_active_txns cfg"
proof -
  note act = mgr_invD(1) [OF mem_reachable_inv [OF assms]]
  have live: "x \<in> live_begins (mgr_oracle m) \<longleftrightarrow>
      (\<exists>t a. fmlookup (active m) t = Some a \<and> snap_ts (act_snapshot a) = x)" for x
  proof -
    have "x \<in> live_begins (mgr_oracle m) \<longleftrightarrow> (\<exists>t sn. snap_of m t = Some sn \<and> snap_ts sn = x)"
      using act unfolding active_inv_def by blast
    then show ?thesis by (auto simp: snap_of_def)
  qed
  have "oracle_active_count (mgr_oracle m) = mgr_active_count m"
    using oracle_active_count_card [OF active_invD(1) [OF act]] live_begins_card [OF act] by simp
  moreover have "finite (live_begins (mgr_oracle m))" by (simp add: live_begins_def)
  then have "live_begins (mgr_oracle m) = {} \<longleftrightarrow> mgr_active_count m = 0"
    using live_begins_card [OF act] by (metis card_0_eq)
  moreover have "mgr_active_count m \<le> max_active_txns cfg"
    using mem_reachable_admission [OF assms] by (auto simp: admission_inv_def)
  ultimately show ?thesis
    unfolding low_water_mark_Some low_water_mark_None Ball_def live by blast
qed

theorem oracle_tracks_active_transactions_witness:
  "low_water_mark (mgr_oracle (run_from_new [ReqBegin Serializable 0, ReqBegin Serializable 0])) \<noteq> None \<and>
   mgr_active_count (run_from_new [ReqBegin Serializable 0, ReqBegin Serializable 0]) \<le> 3"
proof -
  let ?m = "run_from_new [ReqBegin Serializable 0, ReqBegin Serializable 0]"
  have "mgr_active_count ?m = 2" by code_simp
  moreover have "(low_water_mark (mgr_oracle ?m) = None \<longleftrightarrow> mgr_active_count ?m = 0) \<and>
      mgr_active_count ?m \<le> max_active_txns small_config"
    using oracle_tracks_active_transactions [OF run_reachable] by blast
  ultimately show ?thesis by (simp add: small_config_def)
qed



end
