(* ===== verification/History.thy ===== *)
theory History
  imports Prelude "HOL-Library.Product_Lexorder"
begin

text \<open>
  The serialization-graph checker, \<^verbatim>\<open>crates/graphus-txn/src/serializability.rs\<close>: it builds the
  direct serialization graph of a recorded history and searches it for a cycle with an iterative
  depth-first search.
\<close>

datatype op = OpRead key u64 | OpWrite key u64

record txn_history =
  hist_txn :: txn_id
  hist_ops :: "op list"

definition history_new :: "txn_id \<Rightarrow> txn_history" where
  "history_new txn = \<lparr>hist_txn = txn, hist_ops = []\<rparr>"

definition history_read :: "txn_history \<Rightarrow> key \<Rightarrow> u64 \<Rightarrow> txn_history" where
  "history_read h k ver = h\<lparr>hist_ops := hist_ops h @ [OpRead k ver]\<rparr>"

definition history_write :: "txn_history \<Rightarrow> key \<Rightarrow> u64 \<Rightarrow> txn_history" where
  "history_write h k ver = h\<lparr>hist_ops := hist_ops h @ [OpWrite k ver]\<rparr>"

subsection \<open>The direct serialization graph\<close>

type_synonym edge = "txn_id \<times> txn_id"

definition push_edge :: "txn_id \<Rightarrow> txn_id \<Rightarrow> edge fset \<Rightarrow> edge fset" where
  "push_edge a b es = (if a \<noteq> b then finsert (a, b) es else es)"

fun index_writes :: "txn_id \<Rightarrow> op list \<Rightarrow> (key \<times> u64, txn_id) fmap \<Rightarrow> (key \<times> u64, txn_id) fmap" where
  "index_writes txn [] m = m"
| "index_writes txn (OpWrite k ver # ops) m = index_writes txn ops (fmupd (k, ver) txn m)"
| "index_writes txn (OpRead k ver # ops) m = index_writes txn ops m"

definition writer_index :: "txn_history list \<Rightarrow> (key \<times> u64, txn_id) fmap" where
  "writer_index hs = fold (\<lambda>h. index_writes (hist_txn h) (hist_ops h)) hs fmempty"

fun op_edges :: "(key \<times> u64, txn_id) fmap \<Rightarrow> txn_id \<Rightarrow> op \<Rightarrow> edge fset \<Rightarrow> edge fset" where
  "op_edges wo txn (OpWrite k ver) es =
     (if ver > 1
      then (case fmlookup wo (k, ver - 1) of Some prev \<Rightarrow> push_edge prev txn es | None \<Rightarrow> es)
      else es)"
| "op_edges wo txn (OpRead k ver) es =
     (let es1 = (case fmlookup wo (k, ver) of Some w \<Rightarrow> push_edge w txn es | None \<Rightarrow> es)
      in case checked_add ver 1 of
           None \<Rightarrow> es1
         | Some next_version \<Rightarrow>
             (case fmlookup wo (k, next_version) of
                Some w_next \<Rightarrow> push_edge txn w_next es1
              | None \<Rightarrow> es1))"

definition build_edges :: "txn_history list \<Rightarrow> edge fset" where
  "build_edges hs =
     (let wo = writer_index hs
      in fold (\<lambda>h es. fold (op_edges wo (hist_txn h)) (hist_ops h) es) hs {||})"

subsection \<open>The search\<close>

definition adjacency :: "edge fset \<Rightarrow> (txn_id, txn_id list) fmap" where
  "adjacency es =
     fold (\<lambda>(a, b). fm_entry a [] (\<lambda>ts. ts @ [b])) (sorted_list_of_fset es) fmempty"

definition edge_nodes :: "edge fset \<Rightarrow> txn_id fset" where
  "edge_nodes es = fst |`| es |\<union>| snd |`| es"

text \<open>
  The state of one search: the frames of the explicit stack, top first, each with the targets
  its iterator has not produced yet; the path of the frames' nodes, bottom first.
\<close>

record dfs_state =
  visited :: "txn_id fset"
  on_path :: "txn_id fset"
  path :: "txn_id list"
  stack :: "(txn_id \<times> txn_id list) list"

definition dfs_targets :: "(txn_id, txn_id list) fmap \<Rightarrow> dfs_state \<Rightarrow> txn_id set" where
  "dfs_targets adj st = (\<Union>ts \<in> fmran' adj. set ts) \<union> (\<Union>(_, ts) \<in> set (stack st). set ts)"

definition dfs_push :: "(txn_id, txn_id list) fmap \<Rightarrow> txn_id \<Rightarrow> dfs_state \<Rightarrow> dfs_state" where
  "dfs_push adj n st =
     \<lparr>visited = finsert n (visited st), on_path = finsert n (on_path st), path = path st @ [n],
      stack = (n, fm_get [] adj n) # stack st\<rparr>"

definition position :: "txn_id \<Rightarrow> txn_id list \<Rightarrow> nat option" where
  "position n p = (if n \<in> set p then Some (length (takeWhile (\<lambda>t. t \<noteq> n) p)) else None)"

lemma fm_get_targets: "n \<in> set (fm_get [] adj k) \<Longrightarrow> n \<in> (\<Union>ts \<in> fmran' adj. set ts)"
  by (cases "fmlookup adj k") (auto simp: fm_get_def intro: fmran'I)

lemma finite_dfs_targets: "finite (dfs_targets adj st)"
  by (auto simp: dfs_targets_def fmran'_alt_def)

function dfs_loop ::
  "(txn_id, txn_id list) fmap \<Rightarrow> dfs_state \<Rightarrow> txn_id list option \<times> txn_id fset" where
  "dfs_loop adj st =
     (case stack st of
        [] \<Rightarrow> (None, visited st)
      | (n, []) # frames \<Rightarrow>
          dfs_loop adj (st\<lparr>on_path := on_path st |-| {|n|}, path := butlast (path st),
                           stack := frames\<rparr>)
      | (n, nx # ts) # frames \<Rightarrow>
          let st1 = st\<lparr>stack := (n, ts) # frames\<rparr> in
          if nx |\<in>| on_path st1
          then (case position nx (path st1) of
                  Some pos \<Rightarrow> (Some (drop pos (path st1)), visited st1)
                | None \<Rightarrow> dfs_loop adj st1)
          else if \<not> nx |\<in>| visited st1 then dfs_loop adj (dfs_push adj nx st1)
          else dfs_loop adj st1)"
  by pat_completeness auto
termination
proof (relation "inv_image (finite_psubset <*lex*> less_than)
    (\<lambda>(adj, st). (dfs_targets adj st - fset (visited st),
       sum_list (map (\<lambda>(_, ts). Suc (length ts)) (stack st))))", goal_cases)
  case 1
  show ?case by auto
qed (auto simp: finite_psubset_def finite_dfs_targets dfs_targets_def dfs_push_def
       dest: fm_get_targets intro: psubsetI)

declare dfs_loop.simps [simp del]

definition iter_find_cycle_from ::
  "txn_id \<Rightarrow> (txn_id, txn_id list) fmap \<Rightarrow> txn_id fset \<Rightarrow> txn_id list option \<times> txn_id fset" where
  "iter_find_cycle_from start adj vis =
     dfs_loop adj (dfs_push adj start \<lparr>visited = vis, on_path = {||}, path = [], stack = []\<rparr>)"

fun find_cycle_nodes ::
  "(txn_id, txn_id list) fmap \<Rightarrow> txn_id list \<Rightarrow> txn_id fset \<Rightarrow> txn_id list option" where
  "find_cycle_nodes adj [] vis = None"
| "find_cycle_nodes adj (start # rest) vis =
     (if start |\<in>| vis then find_cycle_nodes adj rest vis
      else case iter_find_cycle_from start adj vis of
             (Some cycle, _) \<Rightarrow> Some cycle
           | (None, vis') \<Rightarrow> find_cycle_nodes adj rest vis')"

definition find_cycle :: "edge fset \<Rightarrow> txn_id list option" where
  "find_cycle es =
     find_cycle_nodes (adjacency es) (sorted_list_of_fset (edge_nodes es)) {||}"

definition find_anomaly :: "txn_history list \<Rightarrow> txn_id list option" where
  "find_anomaly hs = find_cycle (build_edges hs)"

subsection \<open>What the search returns\<close>

text \<open>A cycle of a graph, as the list of its nodes in traversal order.\<close>

definition is_cycle :: "edge set \<Rightarrow> txn_id list \<Rightarrow> bool" where
  "is_cycle E c \<longleftrightarrow> c \<noteq> [] \<and> successively (\<lambda>a b. (a, b) \<in> E) c \<and> (last c, hd c) \<in> E"

definition adj_rel :: "(txn_id, txn_id list) fmap \<Rightarrow> edge set" where
  "adj_rel adj = {(a, b). b \<in> set (fm_get [] adj a)}"

text \<open>A set of nodes that no edge leaves and no cycle passes through.\<close>

definition settled_nodes :: "edge set \<Rightarrow> txn_id set \<Rightarrow> bool" where
  "settled_nodes E F \<longleftrightarrow> E `` F \<subseteq> F \<and> (\<forall>a \<in> F. (a, a) \<notin> E\<^sup>+)"

text \<open>
  Every frame but the top one is waiting for the node above it; what its iterator has produced
  apart from that node is settled.
\<close>

fun frames_ok :: "edge set \<Rightarrow> txn_id set \<Rightarrow> txn_id set \<Rightarrow> (txn_id \<times> txn_id list) list \<Rightarrow> bool" where
  "frames_ok E F child [] \<longleftrightarrow> True"
| "frames_ok E F child ((n, ts) # fs) \<longleftrightarrow>
     (\<forall>x \<in> set ts \<union> child. (n, x) \<in> E) \<and> (\<forall>x. (n, x) \<in> E \<longrightarrow> x \<in> F \<or> x \<in> set ts \<or> x \<in> child) \<and>
     frames_ok E F {n} fs"

definition dfs_inv :: "(txn_id, txn_id list) fmap \<Rightarrow> dfs_state \<Rightarrow> bool" where
  [invs]: "dfs_inv adj st \<longleftrightarrow>
     path st = rev (map fst (stack st)) \<and> fset (on_path st) = set (path st) \<and>
     distinct (path st) \<and> set (path st) \<subseteq> fset (visited st) \<and>
     settled_nodes (adj_rel adj) (fset (visited st) - set (path st)) \<and>
     frames_ok (adj_rel adj) (fset (visited st) - set (path st)) {} (stack st)"

lemma dfs_invD:
  assumes "dfs_inv adj st"
  shows "path st = rev (map fst (stack st))" "fset (on_path st) = set (path st)"
    "distinct (path st)" "set (path st) \<subseteq> fset (visited st)"
    "settled_nodes (adj_rel adj) (fset (visited st) - set (path st))"
    "frames_ok (adj_rel adj) (fset (visited st) - set (path st)) {} (stack st)"
  using assms unfolding dfs_inv_def by blast+

lemma frames_ok_mono: "frames_ok E F c fs \<Longrightarrow> F \<subseteq> F' \<Longrightarrow> frames_ok E F' c fs"
  by (induction E F c fs rule: frames_ok.induct) auto

lemma frames_ok_finish: "frames_ok E F {n} fs \<Longrightarrow> n \<in> F' \<Longrightarrow> F \<subseteq> F' \<Longrightarrow> frames_ok E F' {} fs"
  by (cases "(E, F, {n}, fs)" rule: frames_ok.cases) (auto intro: frames_ok_mono)

lemma frames_ok_path:
  "frames_ok E F c fs \<Longrightarrow> successively (\<lambda>a b. (a, b) \<in> E) (rev (map fst fs))"
proof (induction fs arbitrary: c)
  case (Cons f fs)
  then show ?case
    by (cases f; cases fs) (auto simp: successively_append_iff)
qed simp

lemma settled_nodes_insert:
  assumes F: "settled_nodes E F" and n: "n \<notin> F" and out: "E `` {n} \<subseteq> F"
  shows "settled_nodes E (insert n F)"
proof -
  from F have closed: "E `` F \<subseteq> F" by (simp add: settled_nodes_def)
  have stay: "(x, y) \<in> E\<^sup>* \<Longrightarrow> x \<in> F \<Longrightarrow> y \<in> F" for x y
    by (induction rule: rtrancl_induct) (use closed in auto)
  have "(n, n) \<notin> E\<^sup>+"
  proof
    assume "(n, n) \<in> E\<^sup>+"
    then obtain x where "(n, x) \<in> E" "(x, n) \<in> E\<^sup>*" by (auto dest: tranclD)
    with out stay n show False by auto
  qed
  with F out show ?thesis by (auto simp: settled_nodes_def)
qed

lemma position_Some:
  "position n p = Some i \<Longrightarrow> i < length p \<and> p ! i = n"
proof -
  assume "position n p = Some i"
  then have "n \<in> set p" "i = length (takeWhile (\<lambda>m. m \<noteq> n) p)"
    by (auto simp: position_def split: if_splits)
  then show ?thesis
    by (induction p arbitrary: i) auto
qed

lemma position_None: "position n p = None \<longleftrightarrow> n \<notin> set p"
  by (simp add: position_def)

lemma successively_drop: "successively P xs \<Longrightarrow> successively P (drop n xs)"
  by (metis append_take_drop_id successively_append_iff)

lemma dfs_inv_cycle:
  assumes inv: "dfs_inv adj st" and st: "stack st = (n, nx # ts) # fs"
    and pos: "position nx (path st) = Some i"
  shows "is_cycle (adj_rel adj) (drop i (path st))"
proof -
  from position_Some [OF pos] have i: "i < length (path st)" "path st ! i = nx" by auto
  then have "drop i (path st) \<noteq> []" "hd (drop i (path st)) = nx"
    by (auto simp: hd_drop_conv_nth)
  moreover from inv st have "path st = rev (map fst fs) @ [n]" by (simp add: dfs_inv_def)
  with i have "last (drop i (path st)) = n" by (simp add: last_drop)
  moreover from inv st have "(n, nx) \<in> adj_rel adj" by (auto simp: dfs_inv_def)
  moreover from inv have "successively (\<lambda>a b. (a, b) \<in> adj_rel adj) (path st)"
    by (auto simp: dfs_inv_def dest: frames_ok_path)
  ultimately show ?thesis by (simp add: is_cycle_def successively_drop)
qed

lemma dfs_inv_pop:
  assumes inv: "dfs_inv adj st" and st: "stack st = (n, []) # fs"
  shows "dfs_inv adj (st\<lparr>on_path := on_path st |-| {|n|}, path := butlast (path st), stack := fs\<rparr>)"
proof -
  define F where "F = fset (visited st) - set (path st)"
  have p: "path st = rev (map fst fs) @ [n]" using inv st by (simp add: dfs_inv_def)
  have n: "n \<notin> set (map fst fs)" "n |\<in>| visited st" "n \<notin> F"
    using dfs_invD(3,4) [OF inv] p by (simp_all add: F_def)
  have F': "fset (visited st) - set (map fst fs) = insert n F"
    using n p by (auto simp: F_def)
  have "frames_ok (adj_rel adj) F {} ((n, []) # fs)" and sF: "settled_nodes (adj_rel adj) F"
    using dfs_invD(5,6) [OF inv] unfolding F_def st by simp_all
  then have "frames_ok (adj_rel adj) F {n} fs" and "adj_rel adj `` {n} \<subseteq> F" by auto
  then have "settled_nodes (adj_rel adj) (insert n F)" "frames_ok (adj_rel adj) (insert n F) {} fs"
    using settled_nodes_insert [OF sF n(3)] by (auto intro: frames_ok_finish)
  moreover have "fset (on_path st) = set (path st)" "distinct (path st)" "set (path st) \<subseteq> fset (visited st)"
    by (fact dfs_invD [OF inv])+
  ultimately show ?thesis
    using p n F' by (simp add: dfs_inv_def)
qed

lemma dfs_inv_skip:
  assumes inv: "dfs_inv adj st" and st: "stack st = (n, nx # ts) # fs"
    and nx: "nx |\<in>| visited st" "nx \<notin> set (path st)"
  shows "dfs_inv adj (st\<lparr>stack := (n, ts) # fs\<rparr>)"
proof -
  define F where "F = fset (visited st) - set (path st)"
  have "frames_ok (adj_rel adj) F {} ((n, nx # ts) # fs)"
    using dfs_invD(6) [OF inv] unfolding F_def st .
  moreover have "nx \<in> F" using nx by (simp add: F_def)
  ultimately have "frames_ok (adj_rel adj) F {} ((n, ts) # fs)" by auto
  with dfs_invD [OF inv] show ?thesis by (simp add: dfs_inv_def F_def st)
qed

lemma dfs_inv_push:
  assumes inv: "dfs_inv adj st" and st: "stack st = (n, nx # ts) # fs"
    and nx: "nx |\<notin>| visited st"
  shows "dfs_inv adj (dfs_push adj nx (st\<lparr>stack := (n, ts) # fs\<rparr>))"
proof -
  define F where "F = fset (visited st) - set (path st)"
  have "frames_ok (adj_rel adj) F {} ((n, nx # ts) # fs)"
    using dfs_invD(6) [OF inv] unfolding F_def st .
  then have "frames_ok (adj_rel adj) F {nx} ((n, ts) # fs)" by auto
  then have "frames_ok (adj_rel adj) F {} ((nx, fm_get [] adj nx) # (n, ts) # fs)"
    by (simp add: adj_rel_def)
  moreover have "fset (finsert nx (visited st)) - set (path st @ [nx]) = F"
    using nx by (auto simp: F_def)
  moreover have "nx \<notin> set (path st)" using dfs_invD(4) [OF inv] nx by auto
  moreover have "settled_nodes (adj_rel adj) F" unfolding F_def by (rule dfs_invD [OF inv])
  moreover have "fset (on_path st) = set (path st)" "distinct (path st)"
    "set (path st) \<subseteq> fset (visited st)" "path st = rev (map fst fs) @ [n]"
    using dfs_invD [OF inv] st by simp_all
  ultimately show ?thesis by (auto simp add: dfs_inv_def dfs_push_def insert_commute)
qed

text \<open>What a search started with the nodes \<open>vis\<close> visited promises of its result.\<close>

fun search_ok :: "edge set \<Rightarrow> txn_id fset \<Rightarrow> txn_id list option \<times> txn_id fset \<Rightarrow> bool" where
  "search_ok E vis (Some c, vis') \<longleftrightarrow> is_cycle E c"
| "search_ok E vis (None, vis') \<longleftrightarrow> settled_nodes E (fset vis') \<and> vis |\<subseteq>| vis'"

lemma search_ok_mono: "search_ok E vis r \<Longrightarrow> vis0 |\<subseteq>| vis \<Longrightarrow> search_ok E vis0 r"
  by (cases "(E, vis, r)" rule: search_ok.cases) auto

lemma dfs_loop_spec:
  assumes "dfs_inv adj st"
  shows "search_ok (adj_rel adj) (visited st) (dfs_loop adj st)"
  using assms
proof (induction adj st rule: dfs_loop.induct)
  case (1 adj st)
  show ?case
  proof (cases "stack st")
    case Nil
    with dfs_invD [OF 1(5)] show ?thesis by (subst dfs_loop.simps) simp
  next
    case (Cons f fs)
    obtain n ts where f: "f = (n, ts)" by force
    show ?thesis
    proof (cases ts)
      case Nil
      with 1(1) [OF Cons f [symmetric] Nil] dfs_inv_pop [OF 1(5)] Cons f show ?thesis
        by (subst dfs_loop.simps) simp
    next
      case ts: (Cons nx ts')
      have st: "stack st = (n, nx # ts') # fs" using Cons f ts by simp
      have onp: "nx |\<in>| on_path st \<longleftrightarrow> nx \<in> set (path st)" using 1(5) by (simp add: dfs_inv_def)
      consider (cycle) i where "nx |\<in>| on_path st" "position nx (path st) = Some i"
        | (push) "nx |\<notin>| on_path st" "nx |\<notin>| visited st"
        | (skip) "nx |\<notin>| on_path st" "nx |\<in>| visited st"
        using onp by (cases "position nx (path st)") (auto simp: position_None)
      then show ?thesis
      proof cases
        case cycle
        with dfs_inv_cycle [OF 1(5) st] st show ?thesis
          by (subst dfs_loop.simps) simp
      next
        case push
        then have "search_ok (adj_rel adj) (finsert nx (visited st))
            (dfs_loop adj (dfs_push adj nx (st\<lparr>stack := (n, ts') # fs\<rparr>)))"
          using 1(3) [OF Cons f [symmetric] ts refl] dfs_inv_push [OF 1(5) st]
          by (simp add: dfs_push_def)
        with push st show ?thesis
          by (subst dfs_loop.simps) (auto intro: search_ok_mono)
      next
        case skip
        with 1(4) [OF Cons f [symmetric] ts refl] dfs_inv_skip [OF 1(5) st] st onp show ?thesis
          by (subst dfs_loop.simps) simp
      qed
    qed
  qed
qed

lemma iter_find_cycle_from_spec:
  assumes vis: "settled_nodes (adj_rel adj) (fset vis)" and start: "start |\<notin>| vis"
  shows "search_ok (adj_rel adj) (finsert start vis) (iter_find_cycle_from start adj vis)"
proof -
  let ?st = "dfs_push adj start \<lparr>visited = vis, on_path = {||}, path = [], stack = []\<rparr>"
  have "insert start (fset vis) - {start} = fset vis" using start by auto
  with vis have "dfs_inv adj ?st"
    by (simp add: dfs_inv_def dfs_push_def adj_rel_def)
  from dfs_loop_spec [OF this] show ?thesis
    by (simp add: iter_find_cycle_from_def dfs_push_def)
qed

lemma find_cycle_nodes_spec:
  assumes "settled_nodes (adj_rel adj) (fset vis)"
  shows "case find_cycle_nodes adj ns vis of
      Some c \<Rightarrow> is_cycle (adj_rel adj) c
    | None \<Rightarrow> \<exists>F. settled_nodes (adj_rel adj) F \<and> fset vis \<union> set ns \<subseteq> F"
  using assms
proof (induction adj ns vis rule: find_cycle_nodes.induct)
  case (2 adj start rest vis)
  show ?case
  proof (cases "start |\<in>| vis")
    case True
    with 2(1) 2(3) show ?thesis by (auto split: option.splits)
  next
    case False
    obtain r vis' where r: "iter_find_cycle_from start adj vis = (r, vis')" by force
    show ?thesis
    proof (cases r)
      case None
      with r iter_find_cycle_from_spec [OF 2(3) False]
      have vis': "settled_nodes (adj_rel adj) (fset vis')" "finsert start vis |\<subseteq>| vis'" by auto
      from 2(2) [OF False r [symmetric] None vis'(1)] vis'(2) None r False show ?thesis
        by (fastforce split: option.splits simp: less_eq_fset.rep_eq)
    next
      case (Some c)
      with r iter_find_cycle_from_spec [OF 2(3) False] False show ?thesis by simp
    qed
  qed
qed auto

lemma adj_rel_fold:
  "adj_rel (fold (\<lambda>(a, b). fm_entry a [] (\<lambda>ts. ts @ [b])) es m) = adj_rel m \<union> set es"
  by (induction es arbitrary: m) (auto simp: adj_rel_def fm_entry_def fm_get_def split: if_splits option.splits)

lemma adj_rel_adjacency: "adj_rel (adjacency es) = fset es"
  by (simp add: adjacency_def adj_rel_fold) (simp add: adj_rel_def fm_get_def)

lemma is_cycle_not_acyclic: "is_cycle E c \<Longrightarrow> \<not> acyclic E"
proof -
  have walk: "successively (\<lambda>a b. (a, b) \<in> E) (a # xs) \<Longrightarrow> (a, last (a # xs)) \<in> E\<^sup>*" for a xs
    by (induction xs arbitrary: a) (auto intro: converse_rtrancl_into_rtrancl)
  assume "is_cycle E c"
  then obtain a xs where c: "c = a # xs" "successively (\<lambda>a b. (a, b) \<in> E) (a # xs)"
      "(last (a # xs), a) \<in> E"
    by (cases c) (auto simp: is_cycle_def)
  from walk [OF c(2)] c(3) have "(a, a) \<in> E\<^sup>+" by (rule rtrancl_into_trancl1)
  then show ?thesis by (auto simp: acyclic_def)
qed

lemma find_cycle_spec:
  "case find_cycle es of Some c \<Rightarrow> is_cycle (fset es) c | None \<Rightarrow> acyclic (fset es)"
proof -
  have "settled_nodes (fset es) {}" by (simp add: settled_nodes_def)
  then have s: "case find_cycle es of Some c \<Rightarrow> is_cycle (fset es) c
      | None \<Rightarrow> \<exists>F. settled_nodes (fset es) F \<and> fset (edge_nodes es) \<subseteq> F"
    using find_cycle_nodes_spec [of "adjacency es" "{||}" "sorted_list_of_fset (edge_nodes es)"]
    by (simp add: find_cycle_def adj_rel_adjacency split: option.splits)
  have "acyclic (fset es)" if F: "settled_nodes (fset es) F" "fset (edge_nodes es) \<subseteq> F" for F
  proof (rule acyclicI, rule allI)
    fix a show "(a, a) \<notin> (fset es)\<^sup>+"
    proof
      assume a: "(a, a) \<in> (fset es)\<^sup>+"
      then obtain b where "(a, b) \<in> fset es" by (auto dest: tranclD)
      then have "a \<in> fset (edge_nodes es)" by (force simp: edge_nodes_def)
      with F a show False by (auto simp: settled_nodes_def)
    qed
  qed
  with s show ?thesis by (auto split: option.splits)
qed

subsection \<open>The graph the edges form\<close>

text \<open>
  The direct serialization graph of the module's documentation, stated on the recorded operations:
  write-write, write-read and read-write dependencies along the version order of each key.
\<close>

definition installs :: "txn_history list \<Rightarrow> txn_id \<Rightarrow> key \<Rightarrow> u64 \<Rightarrow> bool" where
  "installs hs t k v \<longleftrightarrow> (\<exists>h \<in> set hs. hist_txn h = t \<and> OpWrite k v \<in> set (hist_ops h))"

definition observes :: "txn_history list \<Rightarrow> txn_id \<Rightarrow> key \<Rightarrow> u64 \<Rightarrow> bool" where
  "observes hs t k v \<longleftrightarrow> (\<exists>h \<in> set hs. hist_txn h = t \<and> OpRead k v \<in> set (hist_ops h))"

definition dsg :: "txn_history list \<Rightarrow> edge set" where
  "dsg hs = {(a, b). a \<noteq> b \<and> (\<exists>k v.
       0 < v \<and> v < v + 1 \<and> installs hs a k v \<and> installs hs b k (v + 1)
     \<or> installs hs a k v \<and> observes hs b k v
     \<or> v < v + 1 \<and> observes hs a k v \<and> installs hs b k (v + 1))}"

text \<open>A version order: no two transactions install the same version of a key.\<close>

definition unique_writers :: "txn_history list \<Rightarrow> bool" where
  "unique_writers hs \<longleftrightarrow>
     (\<forall>h \<in> set hs. \<forall>h' \<in> set hs. \<forall>op \<in> set (hist_ops h) \<inter> set (hist_ops h').
        (case op of OpWrite k v \<Rightarrow> hist_txn h = hist_txn h' | OpRead k v \<Rightarrow> True))"

lemma index_writes_lookup:
  "fmlookup (index_writes t ops m) (k, v) =
     (if OpWrite k v \<in> set ops then Some t else fmlookup m (k, v))"
  by (induction t ops m rule: index_writes.induct) auto

lemma writer_index_fold:
  "fmlookup (fold (\<lambda>h. index_writes (hist_txn h) (hist_ops h)) hs m) (k, v) = Some t \<Longrightarrow>
     installs hs t k v \<or> fmlookup m (k, v) = Some t"
proof (induction hs arbitrary: m)
  case (Cons h hs)
  from Cons.IH [of "index_writes (hist_txn h) (hist_ops h) m"] Cons.prems show ?case
    by (auto simp: installs_def index_writes_lookup split: if_splits)
qed simp

lemma writer_index_fold_None:
  "fmlookup (fold (\<lambda>h. index_writes (hist_txn h) (hist_ops h)) hs m) (k, v) = None \<Longrightarrow>
     fmlookup m (k, v) = None \<and> \<not> installs hs t k v"
proof (induction hs arbitrary: m)
  case (Cons h hs)
  from Cons.IH [of "index_writes (hist_txn h) (hist_ops h) m"] Cons.prems show ?case
    by (auto simp: installs_def index_writes_lookup split: if_splits)
qed (simp add: installs_def)

lemma unique_writersD:
  "unique_writers hs \<Longrightarrow> installs hs t k v \<Longrightarrow> installs hs u k v \<Longrightarrow> t = u"
proof -
  assume u: "unique_writers hs" and "installs hs t k v" "installs hs u k v"
  then obtain h h' where "h \<in> set hs" "h' \<in> set hs" "hist_txn h = t" "hist_txn h' = u"
    "OpWrite k v \<in> set (hist_ops h) \<inter> set (hist_ops h')"
    by (auto simp: installs_def)
  moreover from this u have "case OpWrite k v of OpWrite k v \<Rightarrow> hist_txn h = hist_txn h' | OpRead k v \<Rightarrow> True"
    unfolding unique_writers_def by blast
  ultimately show "t = u" by simp
qed

lemma writer_index_installs:
  assumes "unique_writers hs"
  shows "fmlookup (writer_index hs) (k, v) = Some t \<longleftrightarrow> installs hs t k v"
proof
  assume "fmlookup (writer_index hs) (k, v) = Some t"
  then show "installs hs t k v"
    unfolding writer_index_def by (auto dest: writer_index_fold)
next
  assume t: "installs hs t k v"
  show "fmlookup (writer_index hs) (k, v) = Some t"
  proof (cases "fmlookup (writer_index hs) (k, v)")
    case None
    with t show ?thesis unfolding writer_index_def by (auto dest: writer_index_fold_None)
  next
    case (Some u)
    then have "installs hs u k v" unfolding writer_index_def by (auto dest: writer_index_fold)
    with Some t assms show ?thesis by (auto dest: unique_writersD)
  qed
qed

text \<open>The edges one operation contributes, as a set.\<close>

fun edges_of :: "(key \<times> u64, txn_id) fmap \<Rightarrow> txn_id \<Rightarrow> op \<Rightarrow> edge set" where
  "edges_of wo t (OpWrite k v) =
     {(a, b). a \<noteq> b \<and> b = t \<and> 1 < v \<and> fmlookup wo (k, v - 1) = Some a}"
| "edges_of wo t (OpRead k v) =
     {(a, b). a \<noteq> b \<and> b = t \<and> fmlookup wo (k, v) = Some a} \<union>
     {(a, b). a \<noteq> b \<and> a = t \<and> v < v + 1 \<and> fmlookup wo (k, v + 1) = Some b}"

lemma edges_of_iff:
  "(a, b) \<in> edges_of wo t op \<longleftrightarrow> a \<noteq> b \<and> (\<exists>k v.
      op = OpWrite k v \<and> b = t \<and> 1 < v \<and> fmlookup wo (k, v - 1) = Some a
    \<or> op = OpRead k v \<and> b = t \<and> fmlookup wo (k, v) = Some a
    \<or> op = OpRead k v \<and> a = t \<and> v < v + 1 \<and> fmlookup wo (k, v + 1) = Some b)"
  by (cases op) auto

lemma checked_add_one: "checked_add v 1 = (if v < v + 1 then Some (v + 1) else None)"
  for v :: u64
proof -
  have "v + 1 \<noteq> v" by simp
  then show ?thesis unfolding checked_add_def by (auto simp only: neq_iff dest: less_asym split: if_splits)
qed

lemma op_edges_set: "fset (op_edges wo t op es) = fset es \<union> edges_of wo t op"
  by (cases op) (auto simp: push_edge_def checked_add_one Let_def split: option.splits)

lemma fold_op_edges:
  "fset (fold (op_edges wo t) ops es) = fset es \<union> (\<Union>op \<in> set ops. edges_of wo t op)"
  by (induction ops arbitrary: es) (auto simp: op_edges_set)

lemma build_edges_set:
  "fset (build_edges hs) =
     (\<Union>h \<in> set hs. \<Union>op \<in> set (hist_ops h). edges_of (writer_index hs) (hist_txn h) op)"
proof -
  have "fset (fold (\<lambda>h es. fold (op_edges wo (hist_txn h)) (hist_ops h) es) xs es) =
      fset es \<union> (\<Union>h \<in> set xs. \<Union>op \<in> set (hist_ops h). edges_of wo (hist_txn h) op)" for wo xs es
    by (induction xs arbitrary: es) (auto simp: fold_op_edges)
  from this [of "writer_index hs" hs "{||}"] show ?thesis by (simp add: build_edges_def Let_def)
qed

lemma build_edges_dsg:
  assumes u: "unique_writers hs"
  shows "fset (build_edges hs) = dsg hs"
proof -
  have w: "fmlookup (writer_index hs) (k, v) = Some t \<longleftrightarrow> installs hs t k v" for k v t
    by (rule writer_index_installs [OF u])
  have pred: "(1 < v \<and> installs hs a k (v - 1)) \<longleftrightarrow>
      (\<exists>p. v = p + 1 \<and> 0 < p \<and> p < p + 1 \<and> installs hs a k p)" for a k and v :: u64
    by (rule iffI, rule exI [of _ "v - 1"]) (auto simp: word_less_nat_alt unat_word_ariths unat_sub_if' split: if_splits)
  have "(a, b) \<in> fset (build_edges hs) \<longleftrightarrow> (a, b) \<in> dsg hs" for a b
  proof -
    have "(a, b) \<in> fset (build_edges hs) \<longleftrightarrow> a \<noteq> b \<and> (\<exists>k v.
        installs hs b k v \<and> 1 < v \<and> fmlookup (writer_index hs) (k, v - 1) = Some a
      \<or> observes hs b k v \<and> fmlookup (writer_index hs) (k, v) = Some a
      \<or> observes hs a k v \<and> v < v + 1 \<and> fmlookup (writer_index hs) (k, v + 1) = Some b)"
      by (simp only: build_edges_set UN_iff edges_of_iff installs_def observes_def) blast
    also have "\<dots> \<longleftrightarrow> (a, b) \<in> dsg hs"
      unfolding w dsg_def pred by blast
    finally show ?thesis .
  qed
  then show ?thesis by auto
qed

text \<open>
  C13: The history checker decides serializability. When no two transactions install the same
  version of a key, it reports no anomaly exactly when the direct serialization graph is acyclic,
  and the anomaly it reports is a cycle of that graph.
\<close>

theorem find_anomaly_decides_serializability:
  assumes "unique_writers hs"
  shows "(find_anomaly hs = None \<longleftrightarrow> acyclic (dsg hs)) \<and>
    (\<forall>c. find_anomaly hs = Some c \<longrightarrow> is_cycle (dsg hs) c)"
  using find_cycle_spec [of "build_edges hs"] is_cycle_not_acyclic [of "dsg hs"]
  by (auto simp: find_anomaly_def build_edges_dsg [OF assms] split: option.splits)

text \<open>Write skew on two keys: the checker reports the cycle of the two transactions.\<close>

definition write_skew :: "txn_history list" where
  "write_skew =
     [history_write (history_read (history_new 1) 10 0) 20 1,
      history_write (history_read (history_new 2) 20 0) 10 1]"

theorem find_anomaly_decides_serializability_witness:
  "find_anomaly write_skew = Some [1, 2] \<and> is_cycle (dsg write_skew) [1, 2] \<and> \<not> acyclic (dsg write_skew)"
proof -
  have u: "unique_writers write_skew" by code_simp
  have f: "find_anomaly write_skew = Some [1, 2]" by code_simp
  from find_anomaly_decides_serializability [OF u] f show ?thesis by simp
qed

end
