(* ===== verification/Ssi_Safety.thy ===== *)
theory Ssi_Safety
  imports Ssi_Invariant
begin

text \<open>
  Why the conflict tracker prevents serialization cycles. A committed pivot with a committed
  out-neighbour that committed before it leaves all its in-neighbours doomed, and a doomed
  transaction never commits; the operations of \<^verbatim>\<open>ssi.rs\<close> keep this as long as no committed
  transaction is forgotten.
\<close>

definition commit_of :: "ssi_tracker \<Rightarrow> txn_id \<Rightarrow> timestamp option" where
  "commit_of t x = (case ssi_times t x of Some (_, c) \<Rightarrow> c | None \<Rightarrow> None)"

definition dangerous_doomed :: "ssi_tracker \<Rightarrow> bool" where
  [invs]: "dangerous_doomed t \<longleftrightarrow>
     (\<forall>a p b cp cb. in_edge t a p \<longrightarrow> out_edge t p b \<longrightarrow> commit_of t p = Some cp \<longrightarrow>
        commit_of t b = Some cb \<longrightarrow> cb < cp \<longrightarrow> a |\<in>| doomed t)"

definition doomed_active :: "ssi_tracker \<Rightarrow> bool" where
  [invs]: "doomed_active t \<longleftrightarrow> (\<forall>x. x |\<in>| doomed t \<longrightarrow> ssi_active t x)"

definition commits_distinct :: "ssi_tracker \<Rightarrow> bool" where
  [invs]: "commits_distinct t \<longleftrightarrow>
     (\<forall>x y c. commit_of t x = Some c \<longrightarrow> commit_of t y = Some c \<longrightarrow> x = y)"

definition ssi_safe :: "ssi_tracker \<Rightarrow> bool" where
  [invs]: "ssi_safe t \<longleftrightarrow> dangerous_doomed t \<and> doomed_active t \<and> commits_distinct t"

lemma ssi_safeD:
  assumes "ssi_safe t"
  shows "dangerous_doomed t" "doomed_active t" "commits_distinct t"
  using assms by (simp_all add: ssi_safe_def)

lemma active_not_committed: "ssi_active t x \<Longrightarrow> commit_of t x = None"
  by (auto simp: commit_of_def ssi_active_times)

lemma commit_of_committed_with:
  "commit_of t x = Some c \<Longrightarrow> fmlookup (txns t) x = Some e \<Longrightarrow> P e \<Longrightarrow> committed_with P t x"
  by (auto simp: commit_of_def ssi_times_def committed_with_def)

lemma ssi_safe_new: "ssi_safe ssi_new"
  by (simp add: invs in_edge_def commit_of_def ssi_times_def ssi_new_def)

subsection \<open>Edges\<close>

lemma ssi_times_add_edge [simp]: "ssi_times (add_edge t a b) = ssi_times t"
  using ssi_times_edges [of "[(a, b)]" t] by simp

lemma commit_of_cong: "ssi_times t = ssi_times t' \<Longrightarrow> commit_of t = commit_of t'"
  by (simp add: commit_of_def fun_eq_iff)

lemma ssi_safe_add_edge:
  assumes safe: "ssi_safe t" and e: "edges_inv t"
    and act: "ssi_active t src \<or> ssi_active t dst"
  shows "ssi_safe (add_edge t src dst)"
proof (cases "src = dst")
  case True
  then show ?thesis using safe by (simp add: add_edge_def)
next
  case ne: False
  have c: "commit_of (add_edge t src dst) = commit_of t" by (rule commit_of_cong) simp
  have "dangerous_doomed (add_edge t src dst)"
    unfolding dangerous_doomed_def c
  proof (intro allI impI)
    fix a p b cp cb
    assume "in_edge (add_edge t src dst) a p" "out_edge (add_edge t src dst) p b"
      and cp: "commit_of t p = Some cp" and cb: "commit_of t b = Some cb" and lt: "cb < cp"
    moreover have "\<not> (p = src \<and> b = dst)" using cp cb act active_not_committed by fastforce
    ultimately have out: "out_edge t p b" and inn: "in_edge t a p \<or> a = src \<and> p = dst"
      by (auto simp: in_edge_add_edge out_edge_add_edge)
    from inn show "a |\<in>| doomed (add_edge t src dst)"
    proof
      assume "in_edge t a p"
      with safe out cp cb lt show ?thesis
        unfolding ssi_safe_def dangerous_doomed_def add_edge_doomed by blast
    next
      assume ap: "a = src \<and> p = dst"
      from out obtain d where d: "fmlookup (txns t) p = Some d" "b |\<in>| out_edges d"
        by (auto simp: out_edge_def)
      then have "out_conflict d" using e by (auto simp: edges_inv_def)
      with cp d have "committed_with out_conflict t dst"
        using ap by (auto intro: commit_of_committed_with)
      moreover have "ssi_active t src" using act active_not_committed cp ap by fastforce
      ultimately show ?thesis using ap ne by (simp add: add_edge_doomed edge_victims_def)
    qed
  qed
  moreover have "doomed_active (add_edge t src dst)"
    using ssi_safeD(2) [OF safe]
    by (auto simp: doomed_active_def add_edge_doomed edge_victims_def split: if_splits)
  moreover have "commits_distinct (add_edge t src dst)"
    using ssi_safeD(3) [OF safe] by (simp add: commits_distinct_def c)
  ultimately show ?thesis by (simp add: ssi_safe_def)
qed

lemma ssi_safe_add_edge_list:
  "ssi_safe t \<Longrightarrow> edges_inv t \<Longrightarrow>
     (\<And>a b. (a, b) \<in> set es \<Longrightarrow> (ssi_active t a \<or> ssi_active t b) \<and> a |\<in>| fmdom (txns t) \<and> b |\<in>| fmdom (txns t)) \<Longrightarrow>
     ssi_safe (add_edge_list es t)"
proof (induction es arbitrary: t)
  case (Cons e es)
  have e: "ssi_active t (fst e) \<or> ssi_active t (snd e)" "fst e |\<in>| fmdom (txns t)" "snd e |\<in>| fmdom (txns t)"
    using Cons.prems(3) [of "fst e" "snd e"] by auto
  have "ssi_safe (add_edge_list es (add_edge t (fst e) (snd e)))"
  proof (rule Cons.IH)
    show "ssi_safe (add_edge t (fst e) (snd e))" using Cons.prems e by (intro ssi_safe_add_edge)
    show "edges_inv (add_edge t (fst e) (snd e))" using Cons.prems e by (intro edges_inv_add_edge)
    show "(ssi_active (add_edge t (fst e) (snd e)) a \<or> ssi_active (add_edge t (fst e) (snd e)) b) \<and>
        a |\<in>| fmdom (txns (add_edge t (fst e) (snd e))) \<and> b |\<in>| fmdom (txns (add_edge t (fst e) (snd e)))"
      if "(a, b) \<in> set es" for a b
      using Cons.prems(3) [of a b] that by simp
  qed
  then show ?case by simp
qed simp

subsection \<open>Recording\<close>

lemma ssi_safe_marker:
  assumes "ssi_safe t" "txns t' = fm_adjust x f (txns t)" "doomed t' = doomed t"
    and "\<And>c. out_edges (f c) = out_edges c \<and> in_edges (f c) = in_edges c"
    and "\<And>c. begin_ts (f c) = begin_ts c \<and> commit_ts (f c) = commit_ts c"
  shows "ssi_safe t'"
proof -
  have "out_edge t' = out_edge t" "in_edge t' = in_edge t"
    using out_edge_adjust [OF assms(2)] in_edge_adjust [OF assms(2)] assms(4) by blast+
  moreover have "ssi_times t' = ssi_times t"
    using assms(5) by (auto simp: ssi_times_def fun_eq_iff assms(2) option.map_comp comp_def)
  ultimately show ?thesis
    using assms(1,3) commit_of_cong [of t' t]
    unfolding ssi_safe_def dangerous_doomed_def doomed_active_def commits_distinct_def ssi_active_times
    by simp
qed

lemma ssi_inv_edges_inv: "ssi_inv t \<Longrightarrow> edges_inv t"
  by (simp add: ssi_inv_def)

lemma ssi_active_marker:
  assumes "txns t' = fm_adjust x f (txns t)" "\<And>c. commit_ts (f c) = commit_ts c"
  shows "ssi_active t' y = ssi_active t y"
  using assms by (auto simp: ssi_active_def split: option.splits)

lemma ssi_safe_record_read:
  assumes safe: "ssi_safe t" and inv: "ssi_inv t" and rd: "ssi_active t rd"
  shows "ssi_safe (ssi_record_read t rd k)"
proof -
  let ?f = "\<lambda>c. c\<lparr>reads := finsert k (reads c)\<rparr>"
  let ?t = "t\<lparr>txns := fm_adjust rd ?f (txns t), readers_of := fm_entry k {||} (finsert rd) (readers_of t)\<rparr>"
  have dom: "rd |\<in>| fmdom (txns t)" using rd by (auto simp: ssi_active_times fmdom_ssi_times)
  note idx = index_agreesD [OF indexes_invD(2) [OF ssi_inv_indexes [OF inv]]]
  show ?thesis
    unfolding ssi_record_read_def Let_def add_edges_out_list
  proof (rule ssi_safe_add_edge_list)
    show "ssi_safe ?t" by (rule ssi_safe_marker [OF safe, where f = ?f and x = rd]) simp_all
    show "edges_inv ?t"
      by (rule edges_inv_adjust [OF ssi_inv_edges_inv [OF inv], where f = ?f and x = rd]) simp_all
    have act: "ssi_active ?t rd" using rd by (subst ssi_active_marker [where f = ?f and x = rd]) simp_all
    fix a b
    assume "(a, b) \<in> set (map (Pair rd) (sorted_list_of_fset (ffilter
      (\<lambda>w. w \<noteq> rd \<and> are_concurrent ?t rd w) (fm_get {||} (writers_of ?t) k))))"
    then have "a = rd" "b |\<in>| fmdom (txns t)" by (auto simp: idx fmlookup_dom_iff)
    with act dom show "(ssi_active ?t a \<or> ssi_active ?t b) \<and> a |\<in>| fmdom (txns ?t) \<and> b |\<in>| fmdom (txns ?t)"
      by simp
  qed
qed

lemma ssi_safe_record_write:
  assumes safe: "ssi_safe t" and inv: "ssi_inv t" and wr: "ssi_active t wr"
  shows "ssi_safe (ssi_record_write t wr k)"
proof -
  let ?f = "\<lambda>c. c\<lparr>writes := finsert k (writes c)\<rparr>"
  let ?t = "t\<lparr>txns := fm_adjust wr ?f (txns t), writers_of := fm_entry k {||} (finsert wr) (writers_of t)\<rparr>"
  have dom: "wr |\<in>| fmdom (txns t)" using wr by (auto simp: ssi_active_times fmdom_ssi_times)
  note idx = index_agreesD [OF indexes_invD(1) [OF ssi_inv_indexes [OF inv]]]
  show ?thesis
    unfolding ssi_record_write_def Let_def add_edges_in_list
  proof (rule ssi_safe_add_edge_list)
    show "ssi_safe ?t" by (rule ssi_safe_marker [OF safe, where f = ?f and x = wr]) simp_all
    show "edges_inv ?t"
      by (rule edges_inv_adjust [OF ssi_inv_edges_inv [OF inv], where f = ?f and x = wr]) simp_all
    have act: "ssi_active ?t wr" using wr by (subst ssi_active_marker [where f = ?f and x = wr]) simp_all
    fix a b
    assume "(a, b) \<in> set (map (\<lambda>r. (r, wr)) (sorted_list_of_fset (ffilter
      (\<lambda>r. r \<noteq> wr \<and> are_concurrent ?t r wr) (fm_get {||} (readers_of ?t) k))))"
    then have "b = wr" "a |\<in>| fmdom (txns t)" by (auto simp: idx fmlookup_dom_iff)
    with act dom show "(ssi_active ?t a \<or> ssi_active ?t b) \<and> a |\<in>| fmdom (txns ?t) \<and> b |\<in>| fmdom (txns ?t)"
      by simp
  qed
qed

subsection \<open>Begin, abort and commit\<close>

lemma ssi_safe_register:
  assumes safe: "ssi_safe t" and x: "ssi_times t x = None"
  shows "ssi_safe (ssi_register t x ts)"
proof -
  have l: "fmlookup (txns t) x = None" using x by (simp add: ssi_times_def)
  have e: "out_edge (ssi_register t x ts) = out_edge t" "in_edge (ssi_register t x ts) = in_edge t"
    "doomed (ssi_register t x ts) = doomed t"
    using l by (auto simp: out_edge_def in_edge_def fun_eq_iff ssi_register_def conflict_new_def)
  have "ssi_times (ssi_register t x ts) = (ssi_times t)(x := Some (ts, None))"
    using x by (simp add: fmdom_ssi_times)
  then have c: "commit_of (ssi_register t x ts) = commit_of t"
    using x by (auto simp: commit_of_def fun_eq_iff)
  have "ssi_active t y \<Longrightarrow> ssi_active (ssi_register t x ts) y" for y
    using x by (auto simp: ssi_active_times fmdom_ssi_times)
  then show ?thesis
    using safe unfolding ssi_safe_def dangerous_doomed_def doomed_active_def commits_distinct_def e c
    by blast
qed

lemma commit_of_forget:
  "edges_inv t \<Longrightarrow> commit_of (ssi_forget t v) x = (if x = v then None else commit_of t x)"
  by (simp add: commit_of_def ssi_times_forget)

lemma ssi_safe_forget:
  assumes safe: "ssi_safe t" and e: "edges_inv t"
  shows "ssi_safe (ssi_forget t v)"
proof -
  have "dangerous_doomed (ssi_forget t v)"
    using ssi_safeD(1) [OF safe]
    unfolding dangerous_doomed_def ssi_forget_edges [OF e] commit_of_forget [OF e] doomed_ssi_forget
    by (auto split: if_splits)
  moreover have "doomed_active (ssi_forget t v)"
    using ssi_safeD(2) [OF safe]
    unfolding doomed_active_def ssi_forget_relations [OF e] doomed_ssi_forget by auto
  moreover have "commits_distinct (ssi_forget t v)"
    using ssi_safeD(3) [OF safe]
    unfolding commits_distinct_def commit_of_forget [OF e] by (auto split: if_splits)
  ultimately show ?thesis by (simp add: ssi_safe_def)
qed

text \<open>What the conflict check establishes of a transaction it lets commit.\<close>

definition may_commit :: "ssi_tracker \<Rightarrow> txn_id \<Rightarrow> bool" where
  "may_commit t x \<longleftrightarrow> x |\<notin>| doomed t \<and>
     \<not> (\<exists>a b. in_edge t a x \<and> out_edge t x b \<and> commit_of t b \<noteq> None)"

lemma detect_may_commit:
  assumes e: "edges_inv t" and x: "ssi_active t x" and d: "detect_pivot_abort t x \<noteq> Some x"
  shows "may_commit t x"
proof -
  obtain c where c: "fmlookup (txns t) x = Some c" using x by (auto simp: ssi_active_def split: option.splits)
  have "x |\<notin>| doomed t" using d by (auto simp: detect_pivot_abort_def)
  moreover have False if ab: "in_edge t a x" "out_edge t x b" "commit_of t b \<noteq> None" for a b
  proof -
    have "a |\<in>| in_edges c" "b |\<in>| out_edges c" using ab c by (auto simp: in_edge_def out_edge_def)
    then have "in_conflict c" "out_conflict c" using e c by (auto simp: edges_inv_def)
    moreover obtain f where "fmlookup (txns t) b = Some f" "commit_ts f \<noteq> None"
      using ab(3) by (auto simp: commit_of_def ssi_times_def split: option.splits)
    ultimately have "detect_pivot_abort t x = Some x"
      using c \<open>b |\<in>| out_edges c\<close> by (auto simp: detect_pivot_abort_def)
    with d show False by simp
  qed
  ultimately show ?thesis by (auto simp: may_commit_def)
qed

lemma may_commit_forget: "edges_inv t \<Longrightarrow> may_commit t x \<Longrightarrow> may_commit (ssi_forget t v) x"
  by (auto simp: may_commit_def ssi_forget_edges commit_of_forget split: if_splits)

lemma ssi_safe_commit:
  assumes safe: "ssi_safe t" and x: "ssi_active t x" and ok: "may_commit t x"
    and ts: "\<And>y c. commit_of t y = Some c \<Longrightarrow> c < ts"
  shows "ssi_safe (ssi_record_commit t x ts)"
proof -
  let ?t = "ssi_record_commit t x ts"
  have t': "txns ?t = fm_adjust x (\<lambda>c. c\<lparr>commit_ts := Some ts\<rparr>) (txns t)" "doomed ?t = doomed t"
    by (simp_all add: ssi_record_commit_def)
  have e: "out_edge ?t = out_edge t" "in_edge ?t = in_edge t"
    by (rule out_edge_adjust [OF t'(1)], simp) (rule in_edge_adjust [OF t'(1)], simp)
  have c: "commit_of ?t y = (if y = x then Some ts else commit_of t y)" for y
    using x by (auto simp: commit_of_def ssi_active_times)
  have "dangerous_doomed ?t"
    unfolding dangerous_doomed_def e t'(2) c
  proof (intro allI impI)
    fix a p b cp cb
    assume "in_edge t a p" "out_edge t p b" "(if p = x then Some ts else commit_of t p) = Some cp"
      "(if b = x then Some ts else commit_of t b) = Some cb" "cb < cp"
    then show "a |\<in>| doomed t"
      using ok ts safe unfolding ssi_safe_def dangerous_doomed_def may_commit_def
      by (fastforce split: if_splits dest: less_asym)
  qed
  moreover have "doomed_active ?t"
    using ssi_safeD(2) [OF safe] ok by (auto simp: doomed_active_def t'(2) may_commit_def ssi_active_times)
  moreover have "commits_distinct ?t"
    using ssi_safeD(3) [OF safe] ts unfolding commits_distinct_def c by (fastforce split: if_splits)
  ultimately show ?thesis by (simp add: ssi_safe_def)
qed

end
