(* ===== verification/Serializability.thy ===== *)
theory Serializability
  imports Isolation History Ssi_Safety
begin

text \<open>
  Serializability of the transaction manager: without garbage collection, deletes and
  snapshot-level transactions, the committed transactions of every reachable state form an acyclic
  serialization graph, so that the checker of \<^verbatim>\<open>serializability.rs\<close> reports no anomaly.
\<close>

subsection \<open>The serialization order of the tracker\<close>

text \<open>No two concurrent transactions wrote the same key.\<close>

definition ww_exclusive :: "ssi_tracker \<Rightarrow> bool" where
  [invs]: "ww_exclusive t \<longleftrightarrow>
     (\<forall>a b k. a \<noteq> b \<longrightarrow> k |\<in>| ssi_writes t a \<longrightarrow> k |\<in>| ssi_writes t b \<longrightarrow> \<not> are_concurrent t a b)"

definition lived :: "ssi_tracker \<Rightarrow> txn_id \<Rightarrow> timestamp \<Rightarrow> timestamp \<Rightarrow> bool" where
  "lived t x b c \<longleftrightarrow> ssi_times t x = Some (b, Some c)"

definition times_ok :: "ssi_tracker \<Rightarrow> bool" where
  [invs]: "times_ok t \<longleftrightarrow> (\<forall>x b c. lived t x b c \<longrightarrow> b < c)"

text \<open>Dependencies between committed transactions: write-write, write-read and read-write.\<close>

definition ser_edge :: "ssi_tracker \<Rightarrow> txn_id \<Rightarrow> txn_id \<Rightarrow> bool" where
  "ser_edge t x y \<longleftrightarrow> x \<noteq> y \<and> (\<exists>k bx cx by cy. lived t x bx cx \<and> lived t y by cy \<and>
     (k |\<in>| ssi_writes t x \<and> k |\<in>| ssi_writes t y \<and> cx < cy \<or>
      k |\<in>| ssi_writes t x \<and> k |\<in>| ssi_reads t y \<and> cx \<le> by \<or>
      k |\<in>| ssi_reads t x \<and> k |\<in>| ssi_writes t y \<and> bx < cy))"

lemma rw_conflict_views:
  "k |\<in>| ssi_reads t a \<Longrightarrow> k |\<in>| ssi_writes t b \<Longrightarrow> rw_conflict t a b"
  by (auto simp: ssi_reads_def ssi_writes_def rw_conflict_def split: option.splits)

lemma lived_concurrent:
  "lived t a ba ca \<Longrightarrow> lived t b bb cb \<Longrightarrow> are_concurrent t a b \<longleftrightarrow> bb < ca \<and> ba < cb"
  by (auto simp: lived_def are_concurrent_times)

text \<open>A dependency on a transaction that had begun before is an rw-antidependency edge.\<close>

lemma ser_edge_conflict:
  assumes inv: "ssi_inv t" and ok: "times_ok t" and ww: "ww_exclusive t"
    and e: "ser_edge t a b" and a: "lived t a ba ca" and b: "lived t b bb cb" and lt: "bb < ca"
  shows "out_edge t a b" "in_edge t a b" "ba < cb"
proof -
  have bc: "ba < ca" "bb < cb" using ok a b by (auto simp: times_ok_def)
  from e a b obtain k where ne: "a \<noteq> b" and
    k: "k |\<in>| ssi_writes t a \<and> k |\<in>| ssi_writes t b \<and> ca < cb \<or>
      k |\<in>| ssi_writes t a \<and> k |\<in>| ssi_reads t b \<and> ca \<le> bb \<or>
      k |\<in>| ssi_reads t a \<and> k |\<in>| ssi_writes t b \<and> ba < cb"
    by (auto simp: ser_edge_def lived_def)
  have "\<not> (k |\<in>| ssi_writes t a \<and> k |\<in>| ssi_writes t b \<and> ca < cb)"
    using ww ne bc lt lived_concurrent [OF a b] unfolding ww_exclusive_def by (meson less_trans)
  with k lt have rw: "k |\<in>| ssi_reads t a" "k |\<in>| ssi_writes t b" "ba < cb" by auto
  then have "rw_conflict t a b" "are_concurrent t a b"
    using lt lived_concurrent [OF a b] by (auto intro: rw_conflict_views)
  then show out: "out_edge t a b" using inv ne unfolding ssi_inv_def edges_complete_def by blast
  show "in_edge t a b" using out inv unfolding ssi_inv_def edges_inv_def by blast
  show "ba < cb" by fact
qed

lemma ser_edge_lived: "ser_edge t a b \<Longrightarrow> (\<exists>ba ca. lived t a ba ca) \<and> (\<exists>bb cb. lived t b bb cb)"
  by (auto simp: ser_edge_def)

lemma finite_lived: "finite {x. \<exists>b c. lived t x b c}"
  by (rule finite_subset [of _ "fset (fmdom (txns t))"])
    (auto simp: lived_def ssi_times_def fmlookup_dom_iff)

text \<open>The strongly connected component of a node on a cycle: every member has a predecessor in it.\<close>

lemma cycle_predecessor:
  assumes "(x, x) \<in> R\<^sup>+" and "(x, y) \<in> R\<^sup>+" "(y, x) \<in> R\<^sup>+"
  shows "\<exists>p. (p, y) \<in> R \<and> (x, p) \<in> R\<^sup>+ \<and> (p, x) \<in> R\<^sup>+"
proof -
  have "(x, y) \<in> R\<^sup>+" by fact
  then show ?thesis
  proof (cases rule: tranclE)
    case base
    then show ?thesis using assms by blast
  next
    case (step p)
    then show ?thesis using assms(3) by (meson trancl_into_trancl2)
  qed
qed

lemma ser_edge_acyclic:
  assumes inv: "ssi_inv t" and ok: "times_ok t" and ww: "ww_exclusive t" and safe: "ssi_safe t"
  shows "acyclic {(a, b). ser_edge t a b}"
  unfolding acyclic_def
proof (intro allI notI)
  let ?R = "{(a, b). ser_edge t a b}"
  fix x assume cyc: "(x, x) \<in> ?R\<^sup>+"
  define C where "C = {y. (x, y) \<in> ?R\<^sup>+ \<and> (y, x) \<in> ?R\<^sup>+}"
  have live: "\<exists>b c. lived t y b c" if "y \<in> C" for y
    using that ser_edge_lived by (auto simp: C_def dest!: tranclD)
  have pred: "\<exists>p \<in> C. ser_edge t p y" if "y \<in> C" for y
    using that cycle_predecessor [OF cyc, of y] by (auto simp: C_def)
  have fin: "finite C" using live by (intro finite_subset [OF _ finite_lived [of t]]) auto
  have ne: "C \<noteq> {}" using cyc by (auto simp: C_def)
  let ?c = "\<lambda>y. the (commit_of t y)"
  obtain b where b: "b \<in> C" and mn: "\<And>y. y \<in> C \<Longrightarrow> ?c b \<le> ?c y"
    using ex_min_if_finite [of "?c ` C"] fin ne by (fastforce simp: not_less)
  obtain p where p: "p \<in> C" "ser_edge t p b" using pred [OF b] by blast
  obtain a where a: "a \<in> C" "ser_edge t a p" using pred [OF p(1)] by blast
  obtain ba ca bp cp bb cb where l: "lived t a ba ca" "lived t p bp cp" "lived t b bb cb"
    using live a(1) p(1) b by meson
  then have c: "commit_of t a = Some ca" "commit_of t p = Some cp" "commit_of t b = Some cb"
    by (simp_all add: lived_def commit_of_def)
  have le: "cb \<le> cp" "cb \<le> ca" using mn [OF p(1)] mn [OF a(1)] c by simp_all
  have "bb < cp" using le(1) l(3) ok by (auto simp: times_ok_def intro: less_le_trans)
  note pb = ser_edge_conflict [OF inv ok ww p(2) l(2,3) this]
  have "p \<noteq> b" using p(2) by (auto simp: ser_edge_def)
  then have "cb \<noteq> cp" using ssi_safeD(3) [OF safe] c unfolding commits_distinct_def by blast
  with le have lt: "cb < cp" by simp
  have "bp < ca" using pb(3) le(2) by simp
  then have "in_edge t a p" by (rule ser_edge_conflict(2) [OF inv ok ww a(2) l(1,2)])
  then have "a |\<in>| doomed t"
    using ssi_safeD(1) [OF safe] pb(1) c lt unfolding dangerous_doomed_def by blast
  then have "ssi_active t a" using ssi_safeD(2) [OF safe] by (simp add: doomed_active_def)
  with c(1) show False by (simp add: active_not_committed)
qed

subsection \<open>The history a state records\<close>

text \<open>
  The version number a timestamp sees of a chain: how many distinct creation stamps lie at or
  before it. In-flight stamps lie above every timestamp.
\<close>

definition version_rank :: "version list \<Rightarrow> timestamp \<Rightarrow> u64" where
  "version_rank c ts = of_nat (length (remdups (filter (\<lambda>w. w \<le> ts) (map xmin c))))"

definition committed_txns :: "ssi_tracker \<Rightarrow> txn_id list" where
  "committed_txns t = sorted_list_of_fset (fmdom (fm_retain (\<lambda>_ c. commit_ts c \<noteq> None) (txns t)))"

text \<open>What a committed transaction did: reads of its begin timestamp, writes at its commit.\<close>

definition txn_ops :: "(key \<Rightarrow> version list) \<Rightarrow> txn_conflict \<Rightarrow> op list" where
  "txn_ops ch c =
     map (\<lambda>k. OpRead k (version_rank (ch k) (begin_ts c))) (sorted_list_of_fset (reads c)) @
     (case commit_ts c of None \<Rightarrow> []
      | Some ts \<Rightarrow> map (\<lambda>k. OpWrite k (version_rank (ch k) ts)) (sorted_list_of_fset (writes c)))"

definition history_of :: "(key \<Rightarrow> version list) \<Rightarrow> ssi_tracker \<Rightarrow> txn_history list" where
  "history_of ch t =
     map (\<lambda>x. case fmlookup (txns t) x of
               Some c \<Rightarrow> \<lparr>hist_txn = x, hist_ops = txn_ops ch c\<rparr>
             | None \<Rightarrow> history_new x) (committed_txns t)"

lemma set_committed_txns: "x \<in> set (committed_txns t) \<longleftrightarrow> (\<exists>b c. lived t x b c)"
  by (auto simp: committed_txns_def lived_def ssi_times_def fmlookup_dom_iff
      split: option.splits if_splits)

lemma history_of_txn:
  assumes "x \<in> set (committed_txns t)"
  shows "x \<in> hist_txn ` set (history_of ch t)"
proof -
  have "(case fmlookup (txns t) x of Some c \<Rightarrow> \<lparr>hist_txn = x, hist_ops = txn_ops ch c\<rparr>
      | None \<Rightarrow> history_new x) \<in> set (history_of ch t)"
    using assms by (simp add: history_of_def)
  then show ?thesis by (rule rev_image_eqI) (simp add: history_new_def split: option.splits)
qed

lemma history_of_op:
  "(\<exists>h \<in> set (history_of ch t). hist_txn h = x \<and> q \<in> set (hist_ops h)) \<longleftrightarrow>
     (\<exists>b c. lived t x b c \<and> (\<exists>e. fmlookup (txns t) x = Some e \<and> q \<in> set (txn_ops ch e)))"
  by (force simp: history_of_def set_committed_txns lived_def ssi_times_def)

lemma installs_history_of:
  "installs (history_of ch t) x k v \<longleftrightarrow>
     (\<exists>b c. lived t x b c \<and> k |\<in>| ssi_writes t x \<and> v = version_rank (ch k) c)"
  unfolding installs_def history_of_op
  by (auto simp: txn_ops_def lived_def ssi_times_def ssi_writes_def split: option.splits)

lemma observes_history_of:
  "observes (history_of ch t) x k v \<longleftrightarrow>
     (\<exists>b c. lived t x b c \<and> k |\<in>| ssi_reads t x \<and> v = version_rank (ch k) b)"
  unfolding observes_def history_of_op
  by (auto simp: txn_ops_def lived_def ssi_times_def ssi_reads_def split: option.splits)

lemma unat_version_rank:
  assumes "ts \<le> MAX_TIMESTAMP"
  shows "unat (version_rank c ts) = card {w \<in> xmin ` set c. w \<le> ts}"
proof -
  have "length (remdups (filter (\<lambda>w. w \<le> ts) (map xmin c))) = card {w \<in> xmin ` set c. w \<le> ts}"
    by (simp only: length_remdups_card_conv) (rule arg_cong [where f = card], auto)
  moreover have "card {w \<in> xmin ` set c. w \<le> ts} \<le> card (unat ` {w \<in> xmin ` set c. w \<le> ts})"
    by (subst card_image) (auto intro: inj_onI simp: word_unat_eq_iff)
  moreover have "card (unat ` {w \<in> xmin ` set c. w \<le> ts}) \<le> card {..unat ts}"
    by (intro card_mono) (auto simp: word_le_nat_alt)
  moreover have "unat ts < 2 ^ 63" using assms by (simp add: word_le_nat_alt MAX_TIMESTAMP_eq)
  ultimately show ?thesis by (simp add: version_rank_def unat_of_nat take_bit_nat_eq_self)
qed

lemma version_rank_less:
  assumes "ts < ts'" "ts' \<in> xmin ` set c" "ts' \<le> MAX_TIMESTAMP"
  shows "version_rank c ts < version_rank c ts'"
proof -
  have "ts' \<notin> {w \<in> xmin ` set c. w \<le> ts}" "ts' \<in> {w \<in> xmin ` set c. w \<le> ts'}"
    using assms(1,2) by auto
  then have "{w \<in> xmin ` set c. w \<le> ts} \<subset> {w \<in> xmin ` set c. w \<le> ts'}"
    using assms(1) by (intro psubsetI) (auto intro: order_trans less_imp_le)
  then have "card {w \<in> xmin ` set c. w \<le> ts} < card {w \<in> xmin ` set c. w \<le> ts'}"
    by (intro psubset_card_mono) auto
  moreover have "ts \<le> MAX_TIMESTAMP" using assms(1,3) by simp
  ultimately show ?thesis
    using assms(3) by (simp only: word_less_nat_alt [of "version_rank c ts"] unat_version_rank)
qed

lemma version_rank_mono:
  assumes "ts \<le> ts'" "ts' \<le> MAX_TIMESTAMP"
  shows "version_rank c ts \<le> version_rank c ts'"
  using assms by (auto simp: word_le_nat_alt unat_version_rank intro!: card_mono)

text \<open>Every committed write left a version stamped with the commit timestamp.\<close>

definition committed_versions :: "(key \<Rightarrow> version list) \<Rightarrow> ssi_tracker \<Rightarrow> bool" where
  [invs]: "committed_versions ch t \<longleftrightarrow> (\<forall>x b c k. lived t x b c \<longrightarrow>
     b \<le> MAX_TIMESTAMP \<and> c \<le> MAX_TIMESTAMP \<and> (k |\<in>| ssi_writes t x \<longrightarrow> c \<in> xmin ` set (ch k)))"

lemma dsg_ser_edge:
  assumes cv: "committed_versions ch t"
  shows "dsg (history_of ch t) \<subseteq> {(a, b). ser_edge t a b}"
proof clarify
  fix a b assume "(a, b) \<in> dsg (history_of ch t)"
  then obtain k ba ca bb cb where ne: "a \<noteq> b" and l: "lived t a ba ca" "lived t b bb cb" and
    k: "k |\<in>| ssi_writes t a \<and> k |\<in>| ssi_writes t b \<and> version_rank (ch k) ca < version_rank (ch k) cb \<or>
      k |\<in>| ssi_writes t a \<and> k |\<in>| ssi_reads t b \<and> version_rank (ch k) ca = version_rank (ch k) bb \<or>
      k |\<in>| ssi_reads t a \<and> k |\<in>| ssi_writes t b \<and> version_rank (ch k) ba < version_rank (ch k) cb"
    unfolding dsg_def installs_history_of observes_history_of by clarsimp metis
  have mx: "ba \<le> MAX_TIMESTAMP" "ca \<le> MAX_TIMESTAMP" "bb \<le> MAX_TIMESTAMP" "cb \<le> MAX_TIMESTAMP"
    and ca: "k |\<in>| ssi_writes t a \<Longrightarrow> ca \<in> xmin ` set (ch k)"
    using cv l unfolding committed_versions_def by blast+
  have "k |\<in>| ssi_writes t a \<and> k |\<in>| ssi_writes t b \<and> ca < cb \<or>
      k |\<in>| ssi_writes t a \<and> k |\<in>| ssi_reads t b \<and> ca \<le> bb \<or>
      k |\<in>| ssi_reads t a \<and> k |\<in>| ssi_writes t b \<and> ba < cb"
    using k version_rank_mono [of cb ca "ch k"] version_rank_mono [of cb ba "ch k"]
      version_rank_less [of bb ca "ch k"] mx ca by (auto simp: not_less [symmetric])
  with ne l show "ser_edge t a b" unfolding ser_edge_def by blast
qed

lemma unique_writers_history_of:
  assumes cv: "committed_versions ch t" and d: "commits_distinct t"
  shows "unique_writers (history_of ch t)"
proof -
  have "a = b" if "installs (history_of ch t) a k v" "installs (history_of ch t) b k v" for a b k v
  proof -
    from that obtain ba ca bb cb where l: "lived t a ba ca" "lived t b bb cb"
        "k |\<in>| ssi_writes t a" "k |\<in>| ssi_writes t b"
        and eq: "version_rank (ch k) ca = version_rank (ch k) cb"
      unfolding installs_history_of by metis
    have "ca = cb"
      using cv l eq version_rank_less [of ca cb "ch k"] version_rank_less [of cb ca "ch k"]
      unfolding committed_versions_def by (metis less_irrefl linorder_less_linear)
    with l d show ?thesis by (auto simp: commits_distinct_def commit_of_def lived_def)
  qed
  then show ?thesis
    unfolding unique_writers_def installs_def by (fastforce split: op.splits)
qed

lemma find_anomaly_history_of:
  assumes "ssi_inv t" "times_ok t" "ww_exclusive t" "ssi_safe t" "committed_versions ch t"
  shows "find_anomaly (history_of ch t) = None"
proof -
  note d = build_edges_dsg [OF unique_writers_history_of [OF assms(5) ssi_safeD(3) [OF assms(4)]]]
  have "acyclic (dsg (history_of ch t))"
    using dsg_ser_edge [OF assms(5)] ser_edge_acyclic [OF assms(1-4)] by (rule acyclic_subset [rotated])
  then show ?thesis
    using find_cycle_spec [of "build_edges (history_of ch t)"] is_cycle_not_acyclic
    by (auto simp: find_anomaly_def d split: option.splits)
qed

subsection \<open>The invariant behind serializability\<close>

definition all_serializable :: "('s, 'd) txn_manager \<Rightarrow> bool" where
  [invs]: "all_serializable m \<longleftrightarrow>
     (\<forall>t a. fmlookup (active m) t = Some a \<longrightarrow> isolation a = Serializable)"

text \<open>The creation stamp of what a tracked transaction writes.\<close>

definition write_stamp :: "ssi_tracker \<Rightarrow> txn_id \<Rightarrow> u64" where
  "write_stamp t x = (case commit_of t x of Some c \<Rightarrow> c | None \<Rightarrow> to_raw (InFlight x))"

definition stamps_inv :: "(key \<Rightarrow> version list) \<Rightarrow> ssi_tracker \<Rightarrow> bool" where
  [invs]: "stamps_inv ch t \<longleftrightarrow>
     (\<forall>x k. k |\<in>| ssi_writes t x \<longrightarrow> write_stamp t x \<in> xmin ` set (ch k)) \<and>
     (\<forall>x k. valid_id x \<longrightarrow> to_raw (InFlight x) \<in> xmin ` set (ch k) \<longrightarrow> k |\<in>| ssi_writes t x)"

definition commits_recorded :: "('s, 'd) txn_manager \<Rightarrow> bool" where
  [invs]: "commits_recorded m \<longleftrightarrow>
     (\<forall>t ts. outcome (registry m) t = OutcomeCommitted ts \<longrightarrow> commit_of (ssi m) t = Some ts)"

definition ser_inv :: "('s \<Rightarrow> key \<Rightarrow> version list) \<Rightarrow> ('s, 'd) txn_manager \<Rightarrow> bool" where
  [invs]: "ser_inv versions m \<longleftrightarrow>
     all_serializable m \<and> ssi_safe (ssi m) \<and> ww_exclusive (ssi m) \<and>
     stamps_inv (versions (store m)) (ssi m) \<and> commits_recorded m"

lemma ser_invD:
  assumes "ser_inv versions m"
  shows "all_serializable m" "ssi_safe (ssi m)" "ww_exclusive (ssi m)"
    "stamps_inv (versions (store m)) (ssi m)" "commits_recorded m"
  using assms unfolding ser_inv_def by blast+

lemma ser_invI:
  assumes "all_serializable m" "ssi_safe (ssi m)" "ww_exclusive (ssi m)"
    "stamps_inv (versions (store m)) (ssi m)" "commits_recorded m"
  shows "ser_inv versions m"
  using assms unfolding ser_inv_def by blast

lemma ser_inv_new:
  assumes "\<And>k. versions s k = []"
  shows "ser_inv versions (with_durability_and_config s d cfg)"
proof -
  have "ssi_writes ssi_new = (\<lambda>_. {||})" by (simp add: ssi_writes_def ssi_new_def fun_eq_iff)
  then show ?thesis
    by (intro ser_invI) (simp_all add: with_durability_and_config_def ssi_safe_new all_serializable_def
        ww_exclusive_def stamps_inv_def commits_recorded_def assms)
qed

text \<open>The invariant depends on the tracker through its life times and write sets.\<close>

lemma ww_exclusive_cong:
  assumes "ssi_times t' = ssi_times t" "ssi_writes t' = ssi_writes t"
  shows "ww_exclusive t' = ww_exclusive t"
  unfolding ww_exclusive_def are_concurrent_times assms ..

lemma stamps_inv_cong:
  assumes "ssi_times t' = ssi_times t" "ssi_writes t' = ssi_writes t"
  shows "stamps_inv ch t' = stamps_inv ch t"
  unfolding stamps_inv_def write_stamp_def commit_of_cong [OF assms(1)] assms(2) ..

lemma all_serializable_touch [simp]: "all_serializable (touch m t n) = all_serializable m"
  by (auto simp: all_serializable_def touch_def split: if_splits)

lemma all_serializable_hold [simp]: "all_serializable (hold t k m) = all_serializable m"
  by (auto simp: all_serializable_def hold_def split: if_splits)

lemma all_serializable_retire: "all_serializable m \<Longrightarrow> all_serializable (retire t m)"
  by (auto simp: all_serializable_def retire_def split: option.splits if_splits)

lemma ser_inv_touch [simp]: "ser_inv versions (touch m t n) = ser_inv versions m"
  by (simp add: ser_inv_def commits_recorded_def)

lemma ser_inv_hold [simp]: "ser_inv versions (hold t k m) = ser_inv versions m"
  by (simp add: ser_inv_def commits_recorded_def)

lemma tracked_active:
  assumes "mgr_inv versions m" "snap_of m t = Some sn"
  shows "ssi_active (ssi m) t" "ssi_times (ssi m) t = Some (snap_ts sn, None)"
  using tracker_invD(2) [OF mgr_invD(4) [OF assms(1)] assms(2)] by (auto simp: ssi_active_times)

lemma ser_inv_read:
  assumes inv: "mgr_inv versions m" and ser: "ser_inv versions m" and t: "snap_of m t = Some sn"
  shows "ser_inv versions (m\<lparr>ssi := ssi_record_read (ssi m) t k\<rparr>)"
proof (rule ser_invI)
  let ?t = "ssi_record_read (ssi m) t k"
  have v: "ssi_times ?t = ssi_times (ssi m)" "ssi_writes ?t = ssi_writes (ssi m)"
    by (simp_all add: fun_eq_iff ssi_writes_record)
  show "all_serializable (m\<lparr>ssi := ?t\<rparr>)" using ser_invD(1) [OF ser] by (simp add: all_serializable_def)
  show "ssi_safe (ssi (m\<lparr>ssi := ?t\<rparr>))"
    using ssi_safe_record_read [OF ser_invD(2) [OF ser] tracker_invD(1) [OF mgr_invD(4) [OF inv]]
      tracked_active(1) [OF inv t]] by simp
  show "ww_exclusive (ssi (m\<lparr>ssi := ?t\<rparr>))" using ser_invD(3) [OF ser] ww_exclusive_cong [OF v] by simp
  show "stamps_inv (versions (store (m\<lparr>ssi := ?t\<rparr>))) (ssi (m\<lparr>ssi := ?t\<rparr>))"
    using ser_invD(4) [OF ser] stamps_inv_cong [OF v] by simp
  show "commits_recorded (m\<lparr>ssi := ?t\<rparr>)"
    using ser_invD(5) [OF ser] commit_of_cong [OF v(1)] by (simp add: commits_recorded_def)
qed

text \<open>The creation stamps of a chain under the store's operations.\<close>

lemma xmins_create: "xmin ` set (chain_create w body c) = insert w (xmin ` set c)"
  by (cases c) (auto simp: chain_create_def)

lemma xmins_abort: "xmin ` set (abort_chain w c) = xmin ` set c - {w}"
proof -
  have "xmin (if xmax v = w then v\<lparr>xmax := 0\<rparr> else v) = xmin v" for v :: version by simp
  then show ?thesis unfolding abort_chain_def set_map image_image by auto
qed

lemma xmins_commit:
  "xmin ` set (chain_commit w ts c) = (\<lambda>x. if x = w then ts else x) ` xmin ` set c"
proof -
  have "xmin (stamp_version w (committed ts) v) = (if xmin v = w then ts else xmin v)" for v :: version
    by (simp add: stamp_version_def committed_def Let_def)
  then show ?thesis unfolding chain_commit_def set_map image_image by simp
qed

lemma write_stamp_pending:
  assumes inv: "mgr_inv versions m" and k: "k |\<in>| ssi_writes (ssi m) x" and v: "valid_id v"
  shows "write_stamp (ssi m) x = to_raw (InFlight v) \<longleftrightarrow> x = v \<and> snap_of m v \<noteq> None"
proof -
  note tr = tracker_invD [OF mgr_invD(4) [OF inv]]
  obtain b c where bc: "ssi_times (ssi m) x = Some (b, c)"
    using k by (auto simp: ssi_writes_def ssi_times_def split: option.splits)
  show ?thesis
  proof (cases c)
    case None
    then obtain sn where sn: "snap_of m x = Some sn" using tr(5) [OF bc] by auto
    then have "valid_id x" using active_invD(3) [OF mgr_invD(1) [OF inv]] by blast
    then show ?thesis using None bc sn v
      by (auto simp: write_stamp_def commit_of_def to_raw_InFlight_inj)
  next
    case (Some ts)
    then have "valid_id ts" "snap_of m x = None"
      using tr(5) [OF bc] tr(6) [of x b ts] bc by (auto simp: settled_def)
    then show ?thesis using Some bc InFlight_not_committed [of ts v]
      by (auto simp: write_stamp_def commit_of_def)
  qed
qed

text \<open>Aborting a running transaction.\<close>

lemma stamps_inv_abort:
  assumes inv: "mgr_inv versions m" and st: "stamps_inv ch (ssi m)" and t: "valid_id t"
  shows "stamps_inv (\<lambda>k. abort_chain (to_raw (InFlight t)) (ch k)) (ssi_forget (ssi m) t)"
proof -
  note e = ssi_inv_edges_inv [OF tracker_invD(1) [OF mgr_invD(4) [OF inv]]]
  have ws: "write_stamp (ssi_forget (ssi m) t) x = write_stamp (ssi m) x" if "x \<noteq> t" for x
    using that by (simp add: write_stamp_def commit_of_forget [OF e])
  show ?thesis
    using st t write_stamp_pending [OF inv _ t] to_raw_InFlight_inj [OF _ t]
    unfolding stamps_inv_def xmins_abort ssi_writes_forget [OF e] by (auto simp: ws)
qed

lemma ser_inv_abort:
  assumes inv: "mgr_inv versions m" and ser: "ser_inv versions m" and t: "snap_of m t = Some sn"
    and s': "versions s' = (\<lambda>k. abort_chain (to_raw (InFlight t)) (versions (store m) k))"
  shows "ser_inv versions (retire t (m\<lparr>store := s', registry := reg_record_abort (registry m) t,
    ssi := ssi_forget (ssi m) t\<rparr>))"
proof (rule ser_invI)
  let ?m = "m\<lparr>store := s', registry := reg_record_abort (registry m) t, ssi := ssi_forget (ssi m) t\<rparr>"
  note e = ssi_inv_edges_inv [OF tracker_invD(1) [OF mgr_invD(4) [OF inv]]]
  have id: "valid_id t" using active_invD(3) [OF mgr_invD(1) [OF inv] t] .
  show "all_serializable (retire t ?m)"
    using ser_invD(1) [OF ser] by (intro all_serializable_retire) (simp add: all_serializable_def)
  show "ssi_safe (ssi (retire t ?m))" using ssi_safe_forget [OF ser_invD(2) [OF ser] e] by simp
  show "ww_exclusive (ssi (retire t ?m))"
    using ser_invD(3) [OF ser]
    by (auto simp: ww_exclusive_def ssi_writes_forget [OF e] are_concurrent_times ssi_times_forget [OF e]
        split: if_splits)
  show "stamps_inv (versions (store (retire t ?m))) (ssi (retire t ?m))"
    using stamps_inv_abort [OF inv ser_invD(4) [OF ser] id] by (simp add: s')
  show "commits_recorded (retire t ?m)"
    using ser_invD(5) [OF ser] by (auto simp: commits_recorded_def commit_of_forget [OF e])
qed

text \<open>Publishing a commit.\<close>

lemma are_concurrent_commit:
  "ssi_active t x \<Longrightarrow> are_concurrent (ssi_record_commit t x ts) a b \<Longrightarrow> are_concurrent t a b"
  by (force simp: are_concurrent_times ssi_active_times split: if_splits)

lemma stamps_inv_commit:
  assumes inv: "mgr_inv versions m" and st: "stamps_inv ch (ssi m)" and t: "snap_of m t = Some sn"
    and ts: "valid_id ts"
  shows "stamps_inv (\<lambda>k. chain_commit (to_raw (InFlight t)) ts (ch k)) (ssi_record_commit (ssi m) t ts)"
proof -
  let ?f = "\<lambda>w. if w = to_raw (InFlight t) then ts else w"
  have id: "valid_id t" using active_invD(3) [OF mgr_invD(1) [OF inv] t] .
  have ws: "write_stamp (ssi_record_commit (ssi m) t ts) x = ?f (write_stamp (ssi m) x)"
    if "k |\<in>| ssi_writes (ssi m) x" for x k
    using write_stamp_pending [OF inv that id] t tracked_active(2) [OF inv t]
    by (auto simp: write_stamp_def commit_of_def)
  have ne: "to_raw (InFlight x) \<noteq> ts" for x by (rule InFlight_not_committed [OF ts])
  show ?thesis
    unfolding stamps_inv_def xmins_commit ssi_writes_other
  proof (intro conjI allI impI)
    fix x k assume k: "k |\<in>| ssi_writes (ssi m) x"
    then have "write_stamp (ssi m) x \<in> xmin ` set (ch k)" using st by (simp add: stamps_inv_def)
    then show "write_stamp (ssi_record_commit (ssi m) t ts) x \<in> ?f ` xmin ` set (ch k)"
      unfolding ws [OF k] by (rule imageI)
  next
    fix x k assume "valid_id x" "to_raw (InFlight x) \<in> ?f ` xmin ` set (ch k)"
    then have "to_raw (InFlight x) \<in> xmin ` set (ch k)" using ne [of x] by (auto split: if_splits)
    then show "k |\<in>| ssi_writes (ssi m) x" using st \<open>valid_id x\<close> unfolding stamps_inv_def by blast
  qed
qed

lemma ser_inv_publish:
  assumes inv: "mgr_inv versions m" and ser: "ser_inv versions m" and t: "snap_of m t = Some sn"
    and ok: "may_commit (ssi m) t" and ts: "now_ts m < ts" "valid_id ts"
    and s': "versions s' = (\<lambda>k. chain_commit (to_raw (InFlight t)) ts (versions (store m) k))"
  shows "ser_inv versions (retire t ((ticked m ts)\<lparr>durability := d, store := s',
    registry := reg_record_commit (registry m) t ts, ssi := ssi_record_commit (ssi m) t ts\<rparr>))"
    (is "ser_inv versions (retire t ?m)")
proof (rule ser_invI)
  note act = tracked_active [OF inv t]
  note tr = tracker_invD [OF mgr_invD(4) [OF inv]]
  have id: "valid_id t" using active_invD(3) [OF mgr_invD(1) [OF inv] t] .
  have c: "commit_of (ssi_record_commit (ssi m) t ts) y = (if y = t then Some ts else commit_of (ssi m) y)" for y
    using act by (auto simp: commit_of_def)
  have lt: "c < ts" if "commit_of (ssi m) y = Some c" for y c
    using that tr(6) ts(1) by (fastforce simp: commit_of_def settled_def split: option.splits)
  show "all_serializable (retire t ?m)"
    using ser_invD(1) [OF ser] by (intro all_serializable_retire) (simp add: all_serializable_def ticked_def)
  show "ssi_safe (ssi (retire t ?m))"
    using ssi_safe_commit [OF ser_invD(2) [OF ser] act(1) ok lt] by simp
  show "ww_exclusive (ssi (retire t ?m))"
    using ser_invD(3) [OF ser] are_concurrent_commit [OF act(1), of ts]
    by (simp add: ww_exclusive_def) blast
  show "stamps_inv (versions (store (retire t ?m))) (ssi (retire t ?m))"
    using stamps_inv_commit [OF inv ser_invD(4) [OF ser] t ts(2)] by (simp add: s')
  show "commits_recorded (retire t ?m)"
    using ser_invD(5) [OF ser] by (auto simp: commits_recorded_def c)
qed

text \<open>Beginning a serializable transaction.\<close>

lemma ser_inv_admit:
  assumes inv: "mgr_inv versions m" and ser: "ser_inv versions m" and tid: "next_txn_id m < tid"
  shows "ser_inv versions (admit Serializable now tid bts orc m)" (is "ser_inv versions ?m")
proof (rule ser_invI)
  note tr = tracker_invD [OF mgr_invD(4) [OF inv]]
  have new: "ssi_times (ssi m) tid = None"
    using tr(4) [of tid] tid by (cases "ssi_times (ssi m) tid") (auto simp: not_le)
  then have w: "ssi_writes (ssi m) tid = {||}"
    by (auto simp: ssi_times_def ssi_writes_def)
  have ssi: "ssi ?m = ssi_register (ssi m) tid bts" by (simp add: admit_def)
  have c: "commit_of (ssi ?m) = commit_of (ssi m)"
    using new by (auto simp: ssi commit_of_def fun_eq_iff fmdom_ssi_times)
  show "all_serializable ?m" using ser_invD(1) [OF ser] by (auto simp: all_serializable_def admit_def)
  show "ssi_safe (ssi ?m)" using ssi_safe_register [OF ser_invD(2) [OF ser] new] by (simp add: ssi)
  show "ww_exclusive (ssi ?m)"
    using ser_invD(3) [OF ser] w new
    by (auto simp: ww_exclusive_def ssi are_concurrent_times fmdom_ssi_times split: if_splits)
  have "ssi_writes (ssi ?m) = ssi_writes (ssi m)" "store ?m = store m" by (simp_all add: admit_def)
  then show "stamps_inv (versions (store ?m)) (ssi ?m)"
    using ser_invD(4) [OF ser] unfolding stamps_inv_def write_stamp_def c by simp
  show "commits_recorded ?m"
    using ser_invD(5) [OF ser] unfolding commits_recorded_def c by (auto simp: admit_def split: if_splits)
qed

text \<open>A write of a key nobody else holds and whose head is not newer than the snapshot.\<close>

lemma write_not_concurrent:
  assumes inv: "mgr_inv versions m" and st: "stamps_inv (versions (store m)) (ssi m)"
    and t: "snap_of m t = Some sn" and free: "writers m k \<subseteq> {t}" and old: "\<not> newer_head versions m t k"
    and first: "k |\<notin>| ssi_writes (ssi m) t" and b: "k |\<in>| ssi_writes (ssi m) b" "b \<noteq> t"
  shows "\<exists>bb cb. ssi_times (ssi m) b = Some (bb, Some cb) \<and> cb \<le> snap_ts sn"
proof -
  note tr = tracker_invD [OF mgr_invD(4) [OF inv]]
  obtain bb c where bc: "ssi_times (ssi m) b = Some (bb, c)"
    using b by (auto simp: ssi_writes_def ssi_times_def split: option.splits)
  have "snap_of m b = None" using tr(3) [of b k] b free by (cases "snap_of m b") auto
  then obtain cb where cb: "c = Some cb" using tr(5) [OF bc] by auto
  have "cb \<in> xmin ` set (versions (store m) k)"
    using st b(1) bc cb by (fastforce simp: stamps_inv_def write_stamp_def commit_of_def)
  then obtain v where v: "v \<in> set (versions (store m) k)" "xmin v = cb" by auto
  then obtain h hs where c: "versions (store m) k = h # hs" by (cases "versions (store m) k") auto
  have le: "cb \<le> xmin h"
    using v c chain_sorted_head [of h hs v] chain_inv(2) [OF inv, of k] by auto
  have "to_raw (InFlight t) \<noteq> xmin h"
    using st first active_invD(3) [OF mgr_invD(1) [OF inv] t] c unfolding stamps_inv_def by auto
  then have "settled (now_ts m) (xmin h)"
    using chain_inv(1) [OF inv, of k] free by (auto simp: c chain_ok_def stamp_ok_def)
  then have "from_raw (xmin h) = Committed (xmin h)" by (simp add: settled_def)
  then have "xmin h \<le> snap_ts sn" using old t c by (auto simp: newer_head_def not_less)
  with le bc cb show ?thesis by auto
qed

lemma ser_inv_write:
  assumes inv: "mgr_inv versions m" and ser: "ser_inv versions m"
    and t: "snap_of m t = Some sn" and free: "writers m k \<subseteq> {t}" and old: "\<not> newer_head versions m t k"
    and s': "versions s' = (versions (store m))(k := chain_create (to_raw (InFlight t)) body (versions (store m) k))"
  shows "ser_inv versions (m\<lparr>store := s', ssi := ssi_record_write (ssi m) t k\<rparr>)"
    (is "ser_inv versions ?m")
proof (rule ser_invI)
  note act = tracked_active [OF inv t]
  note nc = write_not_concurrent [OF inv ser_invD(4) [OF ser] t free old]
  have dom: "t |\<in>| fmdom (txns (ssi m))" using act by (simp add: fmdom_ssi_times)
  have w: "ssi_writes (ssi ?m) x = (if x = t then finsert k (ssi_writes (ssi m) x) else ssi_writes (ssi m) x)" for x
    using dom by (simp add: ssi_writes_record)
  have tm: "ssi_times (ssi ?m) = ssi_times (ssi m)" by simp
  show "all_serializable ?m" using ser_invD(1) [OF ser] by (simp add: all_serializable_def)
  show "ssi_safe (ssi ?m)"
    using ssi_safe_record_write [OF ser_invD(2) [OF ser] tracker_invD(1) [OF mgr_invD(4) [OF inv]] act(1)]
    by simp
  have sep: "\<not> are_concurrent (ssi m) t b \<and> \<not> are_concurrent (ssi m) b t"
    if "b \<noteq> t" "k |\<in>| ssi_writes (ssi m) b" for b
  proof (cases "k |\<in>| ssi_writes (ssi m) t")
    case True
    then show ?thesis using ser_invD(3) [OF ser] that unfolding ww_exclusive_def by metis
  next
    case False
    from nc [OF this that(2,1)] act(2) show ?thesis by (auto simp: are_concurrent_times)
  qed
  show "ww_exclusive (ssi ?m)"
    unfolding ww_exclusive_def w are_concurrent_times tm unfolding are_concurrent_times [symmetric]
    using ser_invD(3) [OF ser] sep unfolding ww_exclusive_def by (auto split: if_splits)
  have ws: "write_stamp (ssi ?m) = write_stamp (ssi m)"
    unfolding write_stamp_def commit_of_cong [OF tm] ..
  have x: "xmin ` set (versions s' j) = (if j = k then insert (to_raw (InFlight t)) (xmin ` set (versions (store m) k))
      else xmin ` set (versions (store m) j))" for j
    by (simp add: s' xmins_create)
  have "write_stamp (ssi m) t = to_raw (InFlight t)"
    using act by (simp add: write_stamp_def active_not_committed)
  then show "stamps_inv (versions (store ?m)) (ssi ?m)"
    using ser_invD(4) [OF ser] to_raw_InFlight_inj [OF _ active_invD(3) [OF mgr_invD(1) [OF inv] t]]
    unfolding stamps_inv_def ws w by (auto simp: x) metis
  show "commits_recorded ?m"
    using ser_invD(5) [OF ser] commit_of_cong [OF tm] by (simp add: commits_recorded_def)
qed

subsection \<open>Every request keeps it\<close>

text \<open>
  The requests of a serializable workload: no deletes, no collections and no snapshot-level
  transactions.
\<close>

fun ser_request :: "request \<Rightarrow> bool" where
  "ser_request (ReqBegin level now) \<longleftrightarrow> level = Serializable"
| "ser_request (ReqDelete t k now) \<longleftrightarrow> False"
| "ser_request ReqGc \<longleftrightarrow> False"
| "ser_request _ \<longleftrightarrow> True"

lemma may_commit_abort:
  assumes "mgr_inv versions m" "may_commit (ssi m) t"
  shows "may_commit (ssi_forget (ssi m) v) t"
  using may_commit_forget [OF ssi_inv_edges_inv [OF tracker_invD(1) [OF mgr_invD(4) [OF assms(1)]]] assms(2)] .

context versioned_store
begin

lemma abort_internal_ser:
  assumes inv: "mgr_inv versions m" and ser: "ser_inv versions m" and t: "snap_of m t \<noteq> None"
  shows "ser_inv versions (snd (abort_internal S m t))"
    "ssi (snd (abort_internal S m t)) = ssi_forget (ssi m) t"
proof -
  obtain sn where sn: "snap_of m t = Some sn" using t by auto
  obtain s' where ab: "abort_internal S m t = (Inr (), retire t (m\<lparr>store := s',
        registry := reg_record_abort (registry m) t, ssi := ssi_forget (ssi m) t\<rparr>))"
    and s': "versions s' = (\<lambda>k. abort_chain (to_raw (InFlight t)) (versions (store m) k))"
    by (rule abort_internal_active [OF inv sn])
  show "ser_inv versions (snd (abort_internal S m t))"
    using ser_inv_abort [OF inv ser sn s'] by (simp add: ab)
  show "ssi (snd (abort_internal S m t)) = ssi_forget (ssi m) t" by (simp add: ab)
qed

lemma abort_all_ser:
  assumes "mgr_inv versions m" "ser_inv versions m" "distinct vs" "\<And>v. v \<in> set vs \<Longrightarrow> snap_of m v \<noteq> None"
  shows "ser_inv versions (snd (abort_all S m vs))"
  using assms
proof (induction vs arbitrary: m)
  case (Cons v vs)
  have v: "snap_of m v \<noteq> None" using Cons.prems(4) by simp
  note step = abort_internal_inv [OF Cons.prems(1) v] and ser = abort_internal_ser(1) [OF Cons.prems(1,2) v]
  obtain m1 where m1: "abort_internal S m v = (Inr (), m1)"
    using step(2) by (cases "abort_internal S m v") auto
  have "mgr_inv versions m1" "\<And>u. u \<in> set vs \<Longrightarrow> snap_of m1 u \<noteq> None" "ser_inv versions m1"
    using step ser Cons.prems m1 by auto
  with Cons.IH [of m1] Cons.prems m1 show ?case by simp
qed simp

lemma commit_publish_ser:
  assumes inv: "mgr_inv versions m" and ser: "ser_inv versions m" and t: "snap_of m t = Some sn"
    and ok: "may_commit (ssi m) t"
  shows "ser_inv versions (snd (commit_publish S hook m t))"
  using inv t
proof (cases rule: commit_publish_cases [where hook = hook])
  case full
  then show ?thesis using abort_internal_ser(1) [OF inv ser] t by simp
next
  case (refused e ts d)
  let ?m = "(ticked m ts)\<lparr>durability := d\<rparr>"
  have "mgr_inv versions ?m" using mgr_inv_tick [OF inv refused(1,2)] by (simp add: ticked_def)
  moreover have "ser_inv versions ?m"
    using ser by (simp add: ser_inv_def ticked_def all_serializable_def commits_recorded_def)
  ultimately show ?thesis
    using abort_internal_ser(1) [of ?m t] t refused(4) by (simp add: ticked_def)
next
  case publish: (ok ts d s')
  then show ?thesis using ser_inv_publish [OF inv ser t ok publish(1,2,4)] by simp
qed

lemma mgr_commit_ser:
  assumes inv: "mgr_inv versions m" and ser: "ser_inv versions m"
  shows "ser_inv versions (snd (mgr_commit S hook m t))"
proof -
  note e = ssi_inv_edges_inv [OF tracker_invD(1) [OF mgr_invD(4) [OF inv]]]
  have ok: "may_commit (ssi m) t" if "snap_of m t \<noteq> None" "detect_pivot_abort (ssi m) t \<noteq> Some t"
    using that tracked_active(1) [OF inv] by (auto intro: detect_may_commit [OF e])
  from inv show ?thesis
  proof (cases rule: mgr_commit_cases [where t = t and hook = hook])
    case (victim v)
    note ab = abort_internal_inv [OF inv victim(4)] and ab' = abort_internal_ser [OF inv ser victim(4)]
    obtain sn where "snap_of (snd (abort_internal S m v)) t = Some sn" using ab(3) victim(2,3) by auto
    moreover have "may_commit (ssi (snd (abort_internal S m v))) t"
      using may_commit_abort [OF inv ok] victim by (simp add: ab'(2))
    ultimately show ?thesis using commit_publish_ser [OF ab(1) ab'(1)] victim(1) by simp
  next
    case (pass a)
    have "isolation a = Serializable"
      using ser_invD(1) [OF ser] pass(3) by (simp add: all_serializable_def)
    then have "detect_pivot_abort (ssi m) t = None" using pass(4) by (simp add: runs_ssi_def)
    then have "may_commit (ssi m) t" using ok pass(2) by simp
    moreover obtain sn where "snap_of m t = Some sn" using pass(2) by auto
    ultimately show ?thesis using commit_publish_ser [OF inv ser] pass(1) by simp
  qed (use ser abort_internal_ser(1) [OF inv ser] in simp_all)
qed

lemma mgr_write_ser:
  assumes inv: "mgr_inv versions m" and ser: "ser_inv versions m"
  shows "ser_inv versions (snd (mgr_write S m t k body n))"
  using inv
proof (cases rule: mgr_write_cases [where t = t and k = k and body = body and n = n])
  case (ok s')
  let ?m = "hold t k (touch m t n)"
  obtain sn where sn: "snap_of m t = Some sn" using ok(3) by auto
  have "mgr_inv versions ?m" using inv ok(3,4) by (intro mgr_inv_hold) simp_all
  moreover have "writers ?m k \<subseteq> {t}" using ok(3,4) by (simp add: writers_hold)
  ultimately have "ser_inv versions (?m\<lparr>store := s', ssi := ssi_record_write (ssi ?m) t k\<rparr>)"
    using ser ok(2,5) sn by (intro ser_inv_write [where body = body]) simp_all
  then show ?thesis using ok(1) by simp
qed (use ser in simp_all)

lemma exec_ser:
  assumes inv: "mgr_inv versions m" and ser: "ser_inv versions m" and q: "ser_request q"
  shows "ser_inv versions (snd (exec S hook q m))"
proof (cases q)
  case (ReqBegin level now)
  from inv show ?thesis
  proof (cases rule: mgr_begin_cases [where level = level and now = now])
    case (ok tid bts orc)
    then show ?thesis using ser_inv_admit [OF inv ser ok(2)] q ReqBegin by simp
  qed (use ser ReqBegin in simp_all)
next
  case (ReqRead t k n)
  show ?thesis
  proof (cases "snap_of m t")
    case (Some sn)
    have "ser_inv versions ((touch m t n)\<lparr>ssi := ssi_record_read (ssi (touch m t n)) t k\<rparr>)"
      using inv ser Some by (intro ser_inv_read) simp_all
    then show ?thesis using ReqRead Some by (simp add: mgr_read_active)
  qed (use ReqRead ser in \<open>simp add: mgr_read_inactive\<close>)
next
  case (ReqWrite t k body n)
  then show ?thesis using mgr_write_ser [OF inv ser] by simp
next
  case (ReqCommit t)
  then show ?thesis using mgr_commit_ser [OF inv ser] by simp
next
  case (ReqRollback t)
  then show ?thesis using ser abort_internal_ser(1) [OF inv ser]
    by (auto simp: mgr_rollback_def snap_of_dom)
next
  case (ReqReap now)
  then show ?thesis
    using abort_all_ser [OF inv ser idle_victims_active(1) idle_victims_active(2), of m now]
    by (simp add: reap_idle_result [OF inv])
qed (use q in simp_all)

lemma exec_all_ser:
  "mgr_inv versions m \<Longrightarrow> ser_inv versions m \<Longrightarrow> list_all ser_request qs \<Longrightarrow>
     mgr_inv versions (snd (exec_all S hook qs m)) \<and> ser_inv versions (snd (exec_all S hook qs m))"
proof (induction qs arbitrary: m)
  case (Cons q qs)
  from Cons.IH [OF exec_inv [OF Cons.prems(1), of hook q] exec_ser [OF Cons.prems(1,2), of q hook]] Cons.prems(3)
  show ?case by (auto simp: Let_def split: prod.splits)
qed simp

lemma ser_no_anomaly:
  assumes inv: "mgr_inv versions m" and ser: "ser_inv versions m"
  shows "find_anomaly (history_of (versions (store m)) (ssi m)) = None"
proof (rule find_anomaly_history_of)
  note tr = tracker_invD [OF mgr_invD(4) [OF inv]]
  show "ssi_inv (ssi m)" "ww_exclusive (ssi m)" "ssi_safe (ssi m)" using tr(1) ser_invD [OF ser] by auto
  show "times_ok (ssi m)" using tr(6) by (auto simp: times_ok_def lived_def)
  show "committed_versions (versions (store m)) (ssi m)"
    unfolding committed_versions_def
  proof (intro allI impI)
    fix x b c k assume l: "lived (ssi m) x b c"
    then have c: "settled (now_ts m) c" "b < c" using tr(6) by (auto simp: lived_def)
    have "commit_of (ssi m) x = Some c" using l by (simp add: lived_def commit_of_def)
    with c ser_invD(4) [OF ser]
    show "b \<le> MAX_TIMESTAMP \<and> c \<le> MAX_TIMESTAMP \<and>
        (k |\<in>| ssi_writes (ssi m) x \<longrightarrow> c \<in> xmin ` set (versions (store m) k))"
      by (fastforce simp: settled_def valid_id_def stamps_inv_def write_stamp_def)
  qed
qed

end

end
