(* ===== verification/Serializability_Properties.thy ===== *)
theory Serializability_Properties
  imports Serializability Isolation_Properties
begin






subsection \<open>Collection and dangerous structures\<close>





subsection \<open>Deletes and first-committer-wins\<close>



end
