(* ===== verification/Bytes.thy ===== *)
theory Bytes
  imports Prelude
begin

text \<open>
  Little-endian byte codecs, \<^verbatim>\<open>to_le_bytes\<close> and \<^verbatim>\<open>from_le_bytes\<close> of the fixed-width unsigned
  integers, and slices of byte strings, shared by the log and page formats.
\<close>

fun to_le :: "nat \<Rightarrow> 'a::len word \<Rightarrow> bytes" where
  "to_le 0 w = []"
| "to_le (Suc n) w = ucast w # to_le n (drop_bit 8 w)"

fun from_le :: "bytes \<Rightarrow> 'a::len word" where
  "from_le [] = 0"
| "from_le (b # bs) = ucast b OR push_bit 8 (from_le bs)"

definition le32 :: "u32 \<Rightarrow> bytes" where
  "le32 = to_le 4"

definition le64 :: "u64 \<Rightarrow> bytes" where
  "le64 = to_le 8"

text \<open>\<^verbatim>\<open>b[off..off + n]\<close>; the callers guard the range.\<close>

definition bslice :: "nat \<Rightarrow> nat \<Rightarrow> 'a list \<Rightarrow> 'a list" where
  "bslice off n b = take n (drop off b)"

text \<open>\<^verbatim>\<open>dst[off..off + src.len()].copy_from_slice(src)\<close>; the callers guard the range.\<close>

definition copy_at :: "nat \<Rightarrow> 'a list \<Rightarrow> 'a list \<Rightarrow> 'a list" where
  "copy_at off src dst = take off dst @ src @ drop (off + length src) dst"

definition read_u32 :: "bytes \<Rightarrow> nat \<Rightarrow> u32" where
  "read_u32 b off = from_le (bslice off 4 b)"

definition read_u64 :: "bytes \<Rightarrow> nat \<Rightarrow> u64" where
  "read_u64 b off = from_le (bslice off 8 b)"

subsection \<open>The codecs are inverse to each other\<close>

lemma length_to_le [simp]: "length (to_le n w) = n"
  by (induction n w rule: to_le.induct) auto

lemma bit_from_le_to_le:
  "bit (from_le (to_le n (w::'a::len word)) :: 'a word) i \<longleftrightarrow> i < 8 * n \<and> bit w i"
proof (induction n w arbitrary: i rule: to_le.induct)
  case (2 n w)
  show ?case
    using 2 [of "i - 8"] bit_imp_le_length [of w i]
    by (cases "i < 8") (auto simp: bit_or_iff bit_push_bit_iff bit_ucast_iff bit_drop_bit_eq)
qed simp

lemma from_le_to_le:
  assumes "LENGTH('a) \<le> 8 * n"
  shows "from_le (to_le n w) = (w :: 'a::len word)"
  by (rule bit_word_eqI) (use assms in \<open>auto simp: bit_from_le_to_le\<close>)

lemma from_le_zeros: "\<forall>b \<in> set bs. b = 0 \<Longrightarrow> from_le bs = 0"
  by (induction bs) auto

lemma from_le_le32 [simp]: "from_le (le32 w) = w"
  by (simp add: le32_def from_le_to_le)

lemma from_le_le64 [simp]: "from_le (le64 w) = w"
  by (simp add: le64_def from_le_to_le)

lemma length_le32 [simp]: "length (le32 w) = 4"
  by (simp add: le32_def)

lemma length_le64 [simp]: "length (le64 w) = 8"
  by (simp add: le64_def)

lemma bit_from_le:
  "bit (from_le bs :: 'a::len word) j \<longleftrightarrow>
     j < LENGTH('a) \<and> j < 8 * length bs \<and> bit (bs ! (j div 8)) (j mod 8)"
proof (induction bs arbitrary: j)
  case (Cons b bs)
  show ?case
  proof (cases "j < 8")
    case True
    then show ?thesis by (auto simp: bit_or_iff bit_push_bit_iff bit_ucast_iff)
  next
    case False
    then obtain i where j: "j = i + 8" by (metis add.commute le_Suc_ex not_less)
    have "\<not> bit b j" using False bit_imp_le_length [of b j] by auto
    then show ?thesis using Cons [of i] j
      by (auto simp: bit_or_iff bit_push_bit_iff bit_ucast_iff)
  qed
qed simp

lemma nth_to_le: "i < n \<Longrightarrow> to_le n w ! i = ucast (drop_bit (8 * i) w)"
proof (induction n w arbitrary: i rule: to_le.induct)
  case (2 n w)
  then show ?case by (cases i) (auto simp: drop_bit_drop_bit algebra_simps)
qed simp

lemma to_le_from_le:
  assumes "length bs = n" "8 * n \<le> LENGTH('a)"
  shows "to_le n (from_le bs :: 'a::len word) = bs"
proof (rule nth_equalityI)
  fix i assume i: "i < length (to_le n (from_le bs :: 'a word))"
  show "to_le n (from_le bs :: 'a word) ! i = bs ! i"
  proof (rule bit_word_eqI)
    fix k assume k: "k < LENGTH(8)"
    then have "(8 * i + k) div 8 = i" "(8 * i + k) mod 8 = k" "8 * i + k < 8 * n"
      using i by auto
    then show "bit (to_le n (from_le bs :: 'a word) ! i) k = bit (bs ! i) k"
      using i k assms by (auto simp: nth_to_le bit_ucast_iff bit_drop_bit_eq bit_from_le)
  qed
qed (use assms in simp)

subsection \<open>Slices of concatenations\<close>

lemma slice_append_skip: "length a \<le> off \<Longrightarrow> bslice off n (a @ b) = bslice (off - length a) n b"
  by (simp add: bslice_def)

lemma slice_Cons_skip: "0 < off \<Longrightarrow> bslice off n (x # b) = bslice (off - 1) n b"
  by (cases off) (simp_all add: bslice_def)

lemma slice_append_take: "off = 0 \<Longrightarrow> n = length a \<Longrightarrow> bslice off n (a @ b) = a"
  by (simp add: bslice_def)

lemma slice_cover: "off = 0 \<Longrightarrow> n = length a \<Longrightarrow> bslice off n a = a"
  by (simp add: bslice_def)

lemma slice_prefix: "off + n \<le> length a \<Longrightarrow> bslice off n (a @ b) = bslice off n a"
  by (simp add: bslice_def)

lemma slice_take: "off + n \<le> k \<Longrightarrow> bslice off n (take k a) = bslice off n a"
  by (simp add: bslice_def drop_take min_def)

lemma length_slice: "off + n \<le> length a \<Longrightarrow> length (bslice off n a) = n"
  by (simp add: bslice_def)

lemma slice_adjacent: "off' = off + a \<Longrightarrow> bslice off a b @ bslice off' n b = bslice off (a + n) b"
  by (simp add: bslice_def take_add add.commute)

lemma le32_read_u32: "off + 4 \<le> length b \<Longrightarrow> le32 (read_u32 b off) = bslice off 4 b"
  by (simp add: le32_def read_u32_def to_le_from_le length_slice)

lemma le64_read_u64: "off + 8 \<le> length b \<Longrightarrow> le64 (read_u64 b off) = bslice off 8 b"
  by (simp add: le64_def read_u64_def to_le_from_le length_slice)

lemma slice_one: "off < length b \<Longrightarrow> bslice off 1 b = [b ! off]"
  by (simp add: bslice_def take_Suc_conv_app_nth hd_drop_conv_nth take_Suc)

lemmas slice_simps = slice_append_skip slice_Cons_skip slice_append_take slice_cover

subsection \<open>Overwriting a range\<close>

lemma length_copy_at: "off + length src \<le> length dst \<Longrightarrow> length (copy_at off src dst) = length dst"
  by (simp add: copy_at_def)

lemma nth_copy_at:
  assumes "off + length src \<le> length dst" "i < length dst"
  shows "copy_at off src dst ! i = (if off \<le> i \<and> i < off + length src then src ! (i - off) else dst ! i)"
  using assms by (auto simp: copy_at_def nth_append)

lemma slice_copy_at: "off + length src \<le> length dst \<Longrightarrow> n = length src \<Longrightarrow> bslice off n (copy_at off src dst) = src"
  by (simp add: bslice_def copy_at_def)

lemma slice_copy_at_other:
  assumes "off + length src \<le> length dst" "o2 + n \<le> off \<or> off + length src \<le> o2" "o2 + n \<le> length dst"
  shows "bslice o2 n (copy_at off src dst) = bslice o2 n dst"
  using assms by (intro nth_equalityI) (auto simp: bslice_def length_copy_at nth_copy_at)

end
