(* ===== verification/Log_Record.thy ===== *)
theory Log_Record
  imports Bytes
begin

text \<open>
  The write-ahead log's record format, \<^verbatim>\<open>crates/graphus-wal/src/record.rs\<close>: the record kinds, the
  byte-exact encoder and the validating decoder. The checksum \<^verbatim>\<open>crc32c::crc32c\<close> comes from another
  crate and is the parameter \<open>crc\<close>; sizes and offsets (\<^verbatim>\<open>usize\<close>, 64 bits) are natural numbers.
\<close>

type_synonym lsn = u64
type_synonym page_id = u64

definition REC_FIXED_PREFIX :: nat where
  "REC_FIXED_PREFIX = 4 + 8 + 8 + 8 + 1 + 8 + 8"

definition MIN_RECORD_LEN :: nat where
  "MIN_RECORD_LEN = REC_FIXED_PREFIX + 4 + 4 + 4"

definition OFF_TOTAL_LEN :: nat where "OFF_TOTAL_LEN = 0"
definition OFF_LSN :: nat where "OFF_LSN = 4"
definition OFF_PREV_LSN :: nat where "OFF_PREV_LSN = 12"
definition OFF_TXN_ID :: nat where "OFF_TXN_ID = 20"
definition OFF_TYPE :: nat where "OFF_TYPE = 28"
definition OFF_PAGE_ID :: nat where "OFF_PAGE_ID = 29"
definition OFF_UNDO_NEXT :: nat where "OFF_UNDO_NEXT = 37"
definition OFF_REDO_LEN :: nat where "OFF_REDO_LEN = 45"

lemmas offsets = REC_FIXED_PREFIX_def MIN_RECORD_LEN_def OFF_TOTAL_LEN_def OFF_LSN_def OFF_PREV_LSN_def
  OFF_TXN_ID_def OFF_TYPE_def OFF_PAGE_ID_def OFF_UNDO_NEXT_def OFF_REDO_LEN_def

subsection \<open>Record kinds\<close>

datatype record_type =
    RBegin | RUpdate | RInsert | RDelete | RCommit | RAbort | RClr
  | RCheckpointBegin | RCheckpointEnd | RFullPageImage | RAlloc | RFree

text \<open>The discriminant, \<^verbatim>\<open>self.rec_type as u8\<close>.\<close>

fun record_type_byte :: "record_type \<Rightarrow> u8" where
  "record_type_byte RBegin = 1"
| "record_type_byte RUpdate = 2"
| "record_type_byte RInsert = 3"
| "record_type_byte RDelete = 4"
| "record_type_byte RCommit = 5"
| "record_type_byte RAbort = 6"
| "record_type_byte RClr = 7"
| "record_type_byte RCheckpointBegin = 8"
| "record_type_byte RCheckpointEnd = 9"
| "record_type_byte RFullPageImage = 10"
| "record_type_byte RAlloc = 11"
| "record_type_byte RFree = 12"

definition record_type_from_u8 :: "u8 \<Rightarrow> record_type option" where
  "record_type_from_u8 b =
     (if b = 1 then Some RBegin else if b = 2 then Some RUpdate else if b = 3 then Some RInsert
      else if b = 4 then Some RDelete else if b = 5 then Some RCommit else if b = 6 then Some RAbort
      else if b = 7 then Some RClr else if b = 8 then Some RCheckpointBegin
      else if b = 9 then Some RCheckpointEnd else if b = 10 then Some RFullPageImage
      else if b = 11 then Some RAlloc else if b = 12 then Some RFree else None)"

definition is_page_change :: "record_type \<Rightarrow> bool" where
  "is_page_change t \<longleftrightarrow> t \<in> {RUpdate, RInsert, RDelete, RClr, RFullPageImage, RAlloc, RFree}"

definition is_undoable_action :: "record_type \<Rightarrow> bool" where
  "is_undoable_action t \<longleftrightarrow> t \<in> {RUpdate, RInsert, RDelete, RAlloc, RFree}"

subsection \<open>Records\<close>

record log_record =
  rec_lsn :: lsn
  prev_lsn :: lsn
  rec_txn :: txn_id
  rec_type :: record_type
  rec_page :: page_id
  undo_next_lsn :: lsn
  redo :: bytes
  undo :: bytes

datatype decode_error = Incomplete | Corrupt | BadCrc

definition log_record_new :: "record_type \<Rightarrow> txn_id \<Rightarrow> page_id \<Rightarrow> log_record" where
  "log_record_new ty txn page =
     \<lparr>rec_lsn = 0, prev_lsn = 0, rec_txn = txn, rec_type = ty, rec_page = page, undo_next_lsn = 0,
      redo = [], undo = []\<rparr>"

definition log_record_commit :: "txn_id \<Rightarrow> lsn \<Rightarrow> timestamp \<Rightarrow> log_record" where
  "log_record_commit txn prev ts =
     (log_record_new RCommit txn 0)\<lparr>prev_lsn := prev, redo := le64 ts\<rparr>"

definition record_commit_ts :: "log_record \<Rightarrow> timestamp option" where
  "record_commit_ts r =
     (if rec_type r \<noteq> RCommit then None
      else Some (if 8 \<le> length (redo r) then from_le (take 8 (redo r)) else 0))"

definition encoded_len :: "log_record \<Rightarrow> nat" where
  "encoded_len r = REC_FIXED_PREFIX + 4 + length (redo r) + 4 + length (undo r) + 4"

text \<open>The bytes before the checksum.\<close>

definition record_body :: "log_record \<Rightarrow> lsn \<Rightarrow> bytes \<Rightarrow> bytes \<Rightarrow> bytes" where
  "record_body r lsn rd ud =
     (let tlen = REC_FIXED_PREFIX + 4 + length rd + 4 + length ud + 4
      in le32 (of_nat tlen) @ le64 lsn @ le64 (prev_lsn r) @ le64 (rec_txn r) @
         [record_type_byte (rec_type r)] @ le64 (rec_page r) @ le64 (undo_next_lsn r) @
         le32 (of_nat (length rd)) @ rd @ le32 (of_nat (length ud)) @ ud)"

definition encode_header_to ::
  "(bytes \<Rightarrow> u32) \<Rightarrow> log_record \<Rightarrow> lsn \<Rightarrow> bytes \<Rightarrow> bytes \<Rightarrow> bytes \<Rightarrow> log_record \<times> bytes \<times> nat" where
  "encode_header_to crc r lsn rd ud out =
     (let body = record_body r lsn rd ud
      in (r\<lparr>rec_lsn := lsn\<rparr>, out @ body @ le32 (crc body),
          REC_FIXED_PREFIX + 4 + length rd + 4 + length ud + 4))"

definition encode_to ::
  "(bytes \<Rightarrow> u32) \<Rightarrow> log_record \<Rightarrow> lsn \<Rightarrow> bytes \<Rightarrow> log_record \<times> bytes \<times> nat" where
  "encode_to crc r lsn out =
     (case encode_header_to crc (r\<lparr>redo := [], undo := []\<rparr>) lsn (redo r) (undo r) out of
        (r', out', tlen) \<Rightarrow> (r'\<lparr>redo := redo r, undo := undo r\<rparr>, out', tlen))"

text \<open>
  Both decoders, the owning and the borrowing one, run the same checks; the images of the borrowing
  one are slices of its input with the same bytes, so one definition models both. Every
  index below is in range by the checks before it. First the checks on a frame of the claimed
  length, then the decoder that cuts the frame out of its input.
\<close>

definition decode_frame :: "(bytes \<Rightarrow> u32) \<Rightarrow> bytes \<Rightarrow> decode_error + log_record" where
  "decode_frame crc r =
     (if crc (take (length r - 4) r) \<noteq> read_u32 r (length r - 4) then Inl BadCrc
      else case record_type_from_u8 (r ! OFF_TYPE) of
        None \<Rightarrow> Inl Corrupt
      | Some ty \<Rightarrow>
          let redo_len = unat (read_u32 r OFF_REDO_LEN);
              redo_start = OFF_REDO_LEN + 4;
              undo_len_off = redo_start + redo_len
          in if undo_len_off + 4 + 4 > length r then Inl Corrupt
          else let undo_len = unat (read_u32 r undo_len_off);
                   undo_start = undo_len_off + 4
          in if undo_start + undo_len + 4 \<noteq> length r then Inl Corrupt
          else Inr \<lparr>rec_lsn = read_u64 r OFF_LSN, prev_lsn = read_u64 r OFF_PREV_LSN,
                    rec_txn = read_u64 r OFF_TXN_ID, rec_type = ty,
                    rec_page = read_u64 r OFF_PAGE_ID, undo_next_lsn = read_u64 r OFF_UNDO_NEXT,
                    redo = bslice redo_start redo_len r, undo = bslice undo_start undo_len r\<rparr>)"

definition decode :: "(bytes \<Rightarrow> u32) \<Rightarrow> bytes \<Rightarrow> decode_error + (log_record \<times> nat)" where
  "decode crc bs =
     (if length bs < REC_FIXED_PREFIX + 8 then Inl Incomplete
      else let tlen = unat (read_u32 bs OFF_TOTAL_LEN)
      in if tlen < MIN_RECORD_LEN then Inl Corrupt
      else if length bs < tlen then Inl Incomplete
      else map_sum id (\<lambda>r. (r, tlen)) (decode_frame crc (take tlen bs)))"

subsection \<open>Round trip\<close>

abbreviation encode :: "(bytes \<Rightarrow> u32) \<Rightarrow> log_record \<Rightarrow> lsn \<Rightarrow> bytes" where
  "encode crc r lsn \<equiv> fst (snd (encode_to crc r lsn []))"

lemma record_type_roundtrip [simp]: "record_type_from_u8 (record_type_byte t) = Some t"
  by (cases t) (simp_all add: record_type_from_u8_def)

lemma record_type_from_u8_Some: "record_type_from_u8 b = Some t \<Longrightarrow> record_type_byte t = b"
  by (auto simp: record_type_from_u8_def split: if_splits)

lemma encode_eq:
  "encode crc r lsn = record_body r lsn (redo r) (undo r) @ le32 (crc (record_body r lsn (redo r) (undo r)))"
  by (simp add: encode_to_def encode_header_to_def Let_def record_body_def)

lemma encode_to_eq: "encode_to crc r lsn out = (r\<lparr>rec_lsn := lsn\<rparr>, out @ encode crc r lsn, encoded_len r)"
  by (simp add: encode_eq encode_to_def encode_header_to_def encoded_len_def Let_def record_body_def)

lemma length_record_body: "length (record_body r lsn rd ud) = REC_FIXED_PREFIX + 8 + length rd + length ud"
  by (simp add: record_body_def Let_def offsets)

lemma length_encode: "length (encode crc r lsn) = encoded_len r"
  by (simp add: encode_eq length_record_body encoded_len_def)

lemma MIN_le_encoded_len: "MIN_RECORD_LEN \<le> encoded_len r"
  by (simp add: encoded_len_def offsets)

lemma unat_of_nat_u32: "n < 2 ^ 32 \<Longrightarrow> unat (of_nat n :: u32) = n"
  by (simp add: unat_of_nat take_bit_nat_eq_self)

lemma read_record_body:
  fixes b :: bytes
  assumes "b = record_body r lsn (redo r) (undo r)" "encoded_len r < 2 ^ 32"
  shows "unat (read_u32 (b @ c) OFF_TOTAL_LEN) = encoded_len r"
    and "read_u64 (b @ c) OFF_LSN = lsn" "read_u64 (b @ c) OFF_PREV_LSN = prev_lsn r"
    and "read_u64 (b @ c) OFF_TXN_ID = rec_txn r" "(b @ c) ! OFF_TYPE = record_type_byte (rec_type r)"
    and "read_u64 (b @ c) OFF_PAGE_ID = rec_page r" "read_u64 (b @ c) OFF_UNDO_NEXT = undo_next_lsn r"
    and "unat (read_u32 (b @ c) OFF_REDO_LEN) = length (redo r)"
    and "bslice (OFF_REDO_LEN + 4) (length (redo r)) (b @ c) = redo r"
    and "unat (read_u32 (b @ c) (OFF_REDO_LEN + 4 + length (redo r))) = length (undo r)"
    and "bslice (OFF_REDO_LEN + 4 + length (redo r) + 4) (length (undo r)) (b @ c) = undo r"
  using assms(2) unfolding assms(1)
  by (simp_all add: record_body_def Let_def read_u32_def read_u64_def slice_simps offsets nth_append
      unat_of_nat_u32 encoded_len_def del: of_nat_add)

lemma decode_encode:
  assumes "encoded_len r < 2 ^ 32"
  shows "decode crc (encode crc r lsn @ rest) = Inr (r\<lparr>rec_lsn := lsn\<rparr>, encoded_len r)"
proof -
  define b where "b = record_body r lsn (redo r) (undo r)"
  define c where "c = le32 (crc b)"
  have len: "encoded_len r = length b + 4" "length b = OFF_REDO_LEN + 4 + length (redo r) + 4 + length (undo r)"
    by (simp_all add: b_def length_record_body encoded_len_def offsets)
  note rd = read_record_body [OF b_def assms]
  have e: "encode crc r lsn @ rest = b @ c @ rest" by (simp add: encode_eq b_def c_def)
  have take: "take (length b + 4) (b @ c @ rest) = b @ c" by (simp add: c_def)
  have crc: "read_u32 (b @ c) (length b) = crc b"
    by (simp add: read_u32_def c_def slice_simps)
  have "\<not> length (b @ c @ rest) < REC_FIXED_PREFIX + 8" "\<not> length b + 4 < MIN_RECORD_LEN"
    "\<not> length (b @ c @ rest) < length b + 4"
    using len by (simp_all add: c_def offsets)
  moreover have "decode_frame crc (b @ c) = Inr (r\<lparr>rec_lsn := lsn\<rparr>)"
  proof -
    have "\<not> OFF_REDO_LEN + 4 + length (redo r) + 4 + 4 > length (b @ c)"
      "OFF_REDO_LEN + 4 + length (redo r) + 4 + length (undo r) + 4 = length (b @ c)"
      "length (b @ c) - 4 = length b" "take (length b) (b @ c) = b"
      using len(2) by (simp_all add: c_def)
    then show ?thesis unfolding decode_frame_def Let_def by (simp only: crc rd) simp
  qed
  ultimately show ?thesis
    unfolding e decode_def Let_def rd [unfolded len(1)] take len(1) by simp
qed

subsection \<open>Cut and torn records\<close>

lemma decode_frame_complete: "decode_frame crc r \<noteq> Inl Incomplete"
  by (auto simp: decode_frame_def Let_def split: option.splits)

lemma decode_Inr_iff:
  "decode crc bs = Inr (r, n) \<longleftrightarrow>
     MIN_RECORD_LEN \<le> n \<and> n \<le> length bs \<and> n = unat (read_u32 bs OFF_TOTAL_LEN) \<and>
     decode_frame crc (take n bs) = Inr r"
proof -
  have "MIN_RECORD_LEN \<le> k \<Longrightarrow> k \<le> length bs \<Longrightarrow> \<not> length bs < REC_FIXED_PREFIX + 8" for k
    by (simp add: offsets)
  then show ?thesis
    by (cases "decode_frame crc (take (unat (read_u32 bs OFF_TOTAL_LEN)) bs)")
      (auto simp: decode_def Let_def not_less)
qed

lemma decode_Incomplete_iff:
  "decode crc bs = Inl Incomplete \<longleftrightarrow>
     length bs < REC_FIXED_PREFIX + 8 \<or>
     MIN_RECORD_LEN \<le> unat (read_u32 bs OFF_TOTAL_LEN) \<and> length bs < unat (read_u32 bs OFF_TOTAL_LEN)"
  using decode_frame_complete [of crc "take (unat (read_u32 bs OFF_TOTAL_LEN)) bs"]
  by (cases "decode_frame crc (take (unat (read_u32 bs OFF_TOTAL_LEN)) bs)")
    (auto simp: decode_def Let_def not_less)

text \<open>More bytes after the ones the decoder looked at do not change its verdict.\<close>

lemma decode_more:
  assumes "decode crc bs \<noteq> Inl Incomplete"
  shows "decode crc (bs @ rest) = decode crc bs"
proof -
  have l: "\<not> length bs < REC_FIXED_PREFIX + 8"
    "unat (read_u32 bs OFF_TOTAL_LEN) < MIN_RECORD_LEN \<or> unat (read_u32 bs OFF_TOTAL_LEN) \<le> length bs"
    using assms by (auto simp: decode_Incomplete_iff)
  moreover have "read_u32 (bs @ rest) OFF_TOTAL_LEN = read_u32 bs OFF_TOTAL_LEN"
    using l(1) by (simp add: read_u32_def slice_prefix offsets)
  ultimately show ?thesis by (auto simp: decode_def Let_def)
qed

lemma decode_cut: "decode crc (take k bs) = decode crc bs \<or> decode crc (take k bs) = Inl Incomplete"
  using decode_more [of crc "take k bs" "drop k bs"] by fastforce

lemma decode_take:
  assumes "decode crc bs = Inr (r, n)" "n \<le> k"
  shows "decode crc (take k bs) = Inr (r, n)"
proof -
  from assms have d: "MIN_RECORD_LEN \<le> n" "n \<le> length bs" "n = unat (read_u32 bs OFF_TOTAL_LEN)"
    "decode_frame crc (take n bs) = Inr r"
    by (auto simp: decode_Inr_iff)
  then have "read_u32 (take k bs) OFF_TOTAL_LEN = read_u32 bs OFF_TOTAL_LEN"
    using assms(2) by (simp add: read_u32_def slice_take offsets)
  with d assms(2) show ?thesis by (simp add: decode_Inr_iff min_def)
qed

text \<open>A torn tail: every proper prefix of a record is incomplete.\<close>

lemma decode_torn:
  assumes "encoded_len r < 2 ^ 32" "k < encoded_len r"
  shows "decode crc (take k (encode crc r lsn)) = Inl Incomplete"
proof (rule ccontr)
  let ?e = "encode crc r lsn"
  assume "decode crc (take k ?e) \<noteq> Inl Incomplete"
  then have "decode crc (take k ?e) = Inr (r\<lparr>rec_lsn := lsn\<rparr>, encoded_len r)"
    using decode_more [of crc "take k ?e" "drop k ?e"] decode_encode [OF assms(1), of crc lsn "[]"] by simp
  then show False using assms(2) by (simp add: decode_Inr_iff length_encode)
qed

text \<open>The format is canonical: what decodes is what the encoder writes.\<close>

lemma encode_decode_frame:
  assumes dec: "decode_frame crc b = Inr r" and tot: "length b = unat (read_u32 b OFF_TOTAL_LEN)"
    and mn: "MIN_RECORD_LEN \<le> length b"
  shows "encode crc r (rec_lsn r) = b" "encoded_len r = length b"
proof -
  define u where "u = OFF_REDO_LEN + 4 + length (redo r)"
  from dec obtain ty where ty: "record_type_from_u8 (b ! OFF_TYPE) = Some ty"
    and crc: "crc (take (length b - 4) b) = read_u32 b (length b - 4)"
    and le: "OFF_REDO_LEN + 4 + unat (read_u32 b OFF_REDO_LEN) + 4 + 4 \<le> length b"
    and eq: "OFF_REDO_LEN + 4 + unat (read_u32 b OFF_REDO_LEN) + 4 +
      unat (read_u32 b (OFF_REDO_LEN + 4 + unat (read_u32 b OFF_REDO_LEN))) + 4 = length b"
    and r: "r = \<lparr>rec_lsn = read_u64 b OFF_LSN, prev_lsn = read_u64 b OFF_PREV_LSN,
        rec_txn = read_u64 b OFF_TXN_ID, rec_type = ty, rec_page = read_u64 b OFF_PAGE_ID,
        undo_next_lsn = read_u64 b OFF_UNDO_NEXT,
        redo = bslice (OFF_REDO_LEN + 4) (unat (read_u32 b OFF_REDO_LEN)) b,
        undo = bslice (OFF_REDO_LEN + 4 + unat (read_u32 b OFF_REDO_LEN) + 4)
          (unat (read_u32 b (OFF_REDO_LEN + 4 + unat (read_u32 b OFF_REDO_LEN)))) b\<rparr>"
    unfolding decode_frame_def Let_def by (auto split: if_splits option.splits)
  have lr: "length (redo r) = unat (read_u32 b OFF_REDO_LEN)"
    "length (undo r) = unat (read_u32 b (OFF_REDO_LEN + 4 + unat (read_u32 b OFF_REDO_LEN)))"
    using le eq by (simp_all add: r length_slice)
  show el: "encoded_len r = length b" using eq by (simp add: encoded_len_def lr offsets)
  have "record_body r (rec_lsn r) (redo r) (undo r) = take (length b - 4) b"
  proof -
    have rd: "redo r = bslice 49 (length (redo r)) b"
      "undo r = bslice (53 + length (redo r)) (length (undo r)) b"
      unfolding lr by (simp_all add: r offsets)
    have "le32 (of_nat (length (redo r))) = bslice 45 4 b"
      "le32 (of_nat (length (undo r))) = bslice (49 + length (redo r)) 4 b"
      using mn le unfolding lr by (simp_all add: le32_read_u32 offsets)
    moreover have "le32 (of_nat (length b)) = bslice 0 4 b"
      using mn by (subst tot) (simp add: le32_read_u32 offsets)
    moreover have "le64 (rec_lsn r) = bslice 4 8 b" "le64 (prev_lsn r) = bslice 12 8 b"
      "le64 (rec_txn r) = bslice 20 8 b" "le64 (rec_page r) = bslice 29 8 b"
      "le64 (undo_next_lsn r) = bslice 37 8 b"
      using mn by (simp_all add: r le64_read_u64 offsets)
    moreover have "[record_type_byte (rec_type r)] = bslice 28 1 b"
      using mn record_type_from_u8_Some [OF ty] slice_one [of 28 b] by (simp add: r offsets)
    ultimately have "record_body r (rec_lsn r) (redo r) (undo r) =
        bslice 0 4 b @ bslice 4 8 b @ bslice 12 8 b @ bslice 20 8 b @ bslice 28 1 b @ bslice 29 8 b @
        bslice 37 8 b @ bslice 45 4 b @ bslice 49 (length (redo r)) b @ bslice (49 + length (redo r)) 4 b @
        bslice (53 + length (redo r)) (length (undo r)) b"
      using el rd unfolding record_body_def encoded_len_def Let_def by (simp only:)
    also have "\<dots> = bslice 0 (49 + length (redo r) + 4 + length (undo r)) b"
      by (simp add: slice_adjacent algebra_simps)
    also have "49 + length (redo r) + 4 + length (undo r) = length b - 4"
      using eq lr by (simp add: offsets)
    finally show ?thesis by (simp add: bslice_def)
  qed
  moreover have "le32 (read_u32 b (length b - 4)) = drop (length b - 4) b"
    using mn by (simp add: le32_read_u32 bslice_def offsets)
  ultimately show "encode crc r (rec_lsn r) = b" by (simp add: encode_eq crc)
qed

lemma encode_decode:
  assumes "decode crc bs = Inr (r, n)"
  shows "encode crc r (rec_lsn r) = take n bs" "encoded_len r = n" "n < 2 ^ 32"
proof -
  from assms have d: "MIN_RECORD_LEN \<le> n" "n \<le> length bs" "n = unat (read_u32 bs OFF_TOTAL_LEN)"
    "decode_frame crc (take n bs) = Inr r"
    by (auto simp: decode_Inr_iff)
  have "read_u32 (take n bs) OFF_TOTAL_LEN = read_u32 bs OFF_TOTAL_LEN"
    using d(1) by (simp add: read_u32_def slice_take offsets)
  then show "encode crc r (rec_lsn r) = take n bs" "encoded_len r = n"
    using encode_decode_frame [OF d(4)] d by simp_all
  show "n < 2 ^ 32" using d(3) unsigned_less [of "read_u32 bs OFF_TOTAL_LEN"] by simp
qed

lemma commit_ts_roundtrip: "record_commit_ts (log_record_commit txn prev ts) = Some ts"
  by (simp add: record_commit_ts_def log_record_commit_def log_record_new_def)

end
