(* ===== verification/Checkpoint.thy ===== *)
theory Checkpoint
  imports Log_Record
begin

text \<open>
  The fuzzy-checkpoint snapshot, \<^verbatim>\<open>crates/graphus-wal/src/checkpoint.rs\<close>: the dirty page table and
  the active transaction table, their encoding and the LSN redo starts from.
\<close>

record checkpoint_snapshot =
  dirty_pages :: "(page_id \<times> lsn) list"
  active_txns :: "(txn_id \<times> lsn) list"

fun encode_entries :: "(u64 \<times> u64) list \<Rightarrow> bytes" where
  "encode_entries [] = []"
| "encode_entries ((p, l) # es) = le64 p @ le64 l @ encode_entries es"

definition checkpoint_encode :: "checkpoint_snapshot \<Rightarrow> bytes" where
  "checkpoint_encode s =
     le32 (of_nat (length (dirty_pages s))) @ encode_entries (dirty_pages s) @
     le32 (of_nat (length (active_txns s))) @ encode_entries (active_txns s)"

definition take_u32 :: "bytes \<Rightarrow> nat \<Rightarrow> (u32 \<times> nat) option" where
  "take_u32 b cur = (if cur + 4 \<le> length b then Some (from_le (bslice cur 4 b), cur + 4) else None)"

definition take_u64 :: "bytes \<Rightarrow> nat \<Rightarrow> (u64 \<times> nat) option" where
  "take_u64 b cur = (if cur + 8 \<le> length b then Some (from_le (bslice cur 8 b), cur + 8) else None)"

fun take_entries :: "bytes \<Rightarrow> nat \<Rightarrow> nat \<Rightarrow> ((u64 \<times> u64) list \<times> nat) option" where
  "take_entries b 0 cur = Some ([], cur)"
| "take_entries b (Suc n) cur =
     (case take_u64 b cur of
        None \<Rightarrow> None
      | Some (p, cur1) \<Rightarrow>
          (case take_u64 b cur1 of
             None \<Rightarrow> None
           | Some (l, cur2) \<Rightarrow> map_option (\<lambda>(es, c). ((p, l) # es, c)) (take_entries b n cur2)))"

definition checkpoint_decode :: "bytes \<Rightarrow> checkpoint_snapshot option" where
  "checkpoint_decode b =
     (case take_u32 b 0 of
        None \<Rightarrow> None
      | Some (n_dpt, cur) \<Rightarrow>
          (case take_entries b (unat n_dpt) cur of
             None \<Rightarrow> None
           | Some (dpt, cur1) \<Rightarrow>
               (case take_u32 b cur1 of
                  None \<Rightarrow> None
                | Some (n_att, cur2) \<Rightarrow>
                    map_option (\<lambda>(att, _). \<lparr>dirty_pages = dpt, active_txns = att\<rparr>)
                      (take_entries b (unat n_att) cur2))))"

fun min_lsn :: "lsn list \<Rightarrow> lsn option" where
  "min_lsn [] = None"
| "min_lsn (l # ls) = (case min_lsn ls of None \<Rightarrow> Some l | Some x \<Rightarrow> Some (min l x))"

definition checkpoint_redo_start :: "checkpoint_snapshot \<Rightarrow> lsn option" where
  "checkpoint_redo_start s = min_lsn (map snd (dirty_pages s))"

subsection \<open>Round trip and bounds\<close>

lemma length_encode_entries [simp]: "length (encode_entries es) = 16 * length es"
  by (induction es rule: encode_entries.induct) auto

lemma take_u64_at:
  "cur = length a \<Longrightarrow> take_u64 (a @ le64 w @ rest) cur = Some (w, cur + 8)"
  by (simp add: take_u64_def slice_simps)

lemma take_u32_at:
  "cur = length a \<Longrightarrow> take_u32 (a @ le32 w @ rest) cur = Some (w, cur + 4)"
  by (simp add: take_u32_def slice_simps)

lemma take_entries_encode:
  "take_entries (a @ encode_entries es @ rest) (length es) (length a) = Some (es, length a + 16 * length es)"
proof (induction es arbitrary: a rule: encode_entries.induct)
  case (2 p l es)
  from 2 [of "a @ le64 p @ le64 l"] show ?case
    using take_u64_at [of _ a p "le64 l @ encode_entries es @ rest"]
      take_u64_at [of _ "a @ le64 p" l "encode_entries es @ rest"]
    by (simp add: add.commute)
qed simp

lemma checkpoint_decode_encode:
  assumes "length (dirty_pages s) < 2 ^ 32" "length (active_txns s) < 2 ^ 32"
  shows "checkpoint_decode (checkpoint_encode s @ rest) = Some s"
proof -
  let ?d = "dirty_pages s" and ?t = "active_txns s"
  let ?h = "le32 (of_nat (length ?d))" and ?k = "le32 (of_nat (length ?t))"
  have "take_entries (?h @ encode_entries ?d @ ?k @ encode_entries ?t @ rest) (length ?d) 4 =
      Some (?d, 4 + 16 * length ?d)"
    using take_entries_encode [of ?h ?d "?k @ encode_entries ?t @ rest"] by simp
  moreover have "take_u32 (?h @ encode_entries ?d @ ?k @ encode_entries ?t @ rest) (4 + 16 * length ?d) =
      Some (of_nat (length ?t), 8 + 16 * length ?d)"
    using take_u32_at [of _ "?h @ encode_entries ?d"] by simp
  moreover have "take_entries (?h @ encode_entries ?d @ ?k @ encode_entries ?t @ rest) (length ?t)
      (8 + 16 * length ?d) = Some (?t, 8 + 16 * length ?d + 16 * length ?t)"
    using take_entries_encode [of "?h @ encode_entries ?d @ ?k" ?t rest] by simp
  ultimately show ?thesis
    using assms take_u32_at [of 0 "[]"]
    by (simp add: checkpoint_decode_def checkpoint_encode_def unat_of_nat_u32)
qed

lemma take_entries_bound:
  assumes "take_entries b n cur = Some (es, c)"
  shows "length es = n \<and> c = cur + 16 * n \<and> (0 < n \<longrightarrow> c \<le> length b)"
  using assms
proof (induction n arbitrary: cur es c)
  case (Suc n)
  show ?case
  proof (cases "cur + 16 \<le> length b")
    case True
    then obtain es' where *: "take_entries b n (16 + cur) = Some (es', c)" "length es = Suc (length es')"
      using Suc.prems by (auto simp: take_u64_def)
    with Suc.IH [OF *(1)] True show ?thesis by (cases n) auto
  next
    case False
    then show ?thesis using Suc.prems by (auto simp: take_u64_def split: if_splits)
  qed
qed simp

lemma checkpoint_decode_bound:
  assumes "checkpoint_decode b = Some s"
  shows "8 + 16 * (length (dirty_pages s) + length (active_txns s)) \<le> length b"
proof -
  from assms obtain n dpt c1 n' att c2 where
    t: "take_entries b n 4 = Some (dpt, c1)" "c1 + 4 \<le> length b"
      "take_entries b n' (c1 + 4) = Some (att, c2)" and s: "s = \<lparr>dirty_pages = dpt, active_txns = att\<rparr>"
    by (auto simp: checkpoint_decode_def take_u32_def split: option.splits if_splits)
  from take_entries_bound [OF t(1)] take_entries_bound [OF t(3)] t(2) show ?thesis
    by (auto simp: s)
qed

lemma min_lsn_spec:
  "min_lsn ls = (if ls = [] then None else Some (Min (set ls)))"
  by (induction ls) (auto split: if_splits)

lemma min_lsn_le: "l \<in> set ls \<Longrightarrow> \<exists>x. min_lsn ls = Some x \<and> x \<le> l"
  by (auto simp: min_lsn_spec)

end
