(* ===== verification/Log_Sink.thy ===== *)
theory Log_Sink
  imports Checkpoint
begin

text \<open>
  The append-only log with its durability boundary, \<^verbatim>\<open>crates/graphus-wal/src/sink.rs\<close>: the trait
  \<^verbatim>\<open>LogSink\<close> as a record of operations with its contract, the in-memory sink with reclamation and
  deferred hardening, and the discarding sink of the derived indexes. Byte offsets are natural
  numbers. An \<^verbatim>\<open>FsyncJob\<close> is its declared range; the deferred work of the in-memory sink is empty.
\<close>

datatype wal_error =
    InjectedSyncFailure
  | SinkNotEmpty
  | HeaderTooShort
  | BadMagic
  | UnsupportedVersion u32
  | InactiveCommit txn_id
  | InteriorLogCorruption nat nat
  | WindowOverflow
  | UndoTruncated nat
  | UndoNotARecord nat decode_error
  | ApplyRefused
  | SyncPanic

record fsync_job =
  covers_from :: nat
  target_len :: nat

definition fsync_job_deferred :: "nat \<Rightarrow> nat \<Rightarrow> wal_error + fsync_job" where
  "fsync_job_deferred cov tgt =
     (if cov \<le> tgt then Inr \<lparr>covers_from = cov, target_len = tgt\<rparr> else Inl SyncPanic)"

definition already_durable :: "nat \<Rightarrow> fsync_job" where
  "already_durable tgt = \<lparr>covers_from = tgt, target_len = tgt\<rparr>"

record 's sink_ops =
  sk_append :: "'s \<Rightarrow> bytes \<Rightarrow> 's"
  sk_sync :: "'s \<Rightarrow> (wal_error + unit) \<times> 's"
  sk_begin_harden :: "'s \<Rightarrow> (wal_error + fsync_job) \<times> 's"
  sk_complete_harden :: "'s \<Rightarrow> nat \<Rightarrow> 's"
  sk_durable_len :: "'s \<Rightarrow> nat"
  sk_buffered_len :: "'s \<Rightarrow> nat"
  sk_read_bounded :: "'s \<Rightarrow> nat \<Rightarrow> nat \<Rightarrow> bytes"
  sk_reclaim :: "'s \<Rightarrow> nat \<Rightarrow> nat \<Rightarrow> 's"
  sk_reclaimed_floor :: "'s \<Rightarrow> nat"
  sk_retains_undo :: "'s \<Rightarrow> bool"

subsection \<open>The in-memory sink\<close>

record mem_log_sink =
  snk_head :: bytes
  snk_base :: nat
  snk_tail :: bytes
  snk_written :: bytes
  snk_pending :: bytes
  deferred_harden :: bool
  armed_sync_error :: bool

definition mem_sink_new :: mem_log_sink where
  "mem_sink_new = \<lparr>snk_head = [], snk_base = 0, snk_tail = [], snk_written = [], snk_pending = [],
     deferred_harden = False, armed_sync_error = False\<rparr>"

definition with_deferred_harden :: mem_log_sink where
  "with_deferred_harden = mem_sink_new\<lparr>deferred_harden := True\<rparr>"

definition sink_crash :: "mem_log_sink \<Rightarrow> mem_log_sink" where
  "sink_crash s = s\<lparr>snk_written := [], snk_pending := []\<rparr>"

definition arm_sync_error :: "mem_log_sink \<Rightarrow> mem_log_sink" where
  "arm_sync_error s = s\<lparr>armed_sync_error := True\<rparr>"

definition durable_end :: "mem_log_sink \<Rightarrow> nat" where
  "durable_end s = snk_base s + length (snk_tail s)"

definition durable_bytes :: "mem_log_sink \<Rightarrow> bytes" where
  "durable_bytes s =
     copy_at (snk_base s) (snk_tail s)
       (copy_at 0 (snk_head s) (replicate (durable_end s) 0))"

definition mem_append :: "mem_log_sink \<Rightarrow> bytes \<Rightarrow> mem_log_sink" where
  "mem_append s bs = s\<lparr>snk_pending := snk_pending s @ bs\<rparr>"

definition mem_sync :: "mem_log_sink \<Rightarrow> (wal_error + unit) \<times> mem_log_sink" where
  "mem_sync s =
     (if armed_sync_error s then (Inl InjectedSyncFailure, s\<lparr>armed_sync_error := False\<rparr>)
      else (Inr (), s\<lparr>snk_tail := snk_tail s @ snk_written s @ snk_pending s,
                      snk_written := [], snk_pending := []\<rparr>))"

definition mem_begin_harden :: "mem_log_sink \<Rightarrow> (wal_error + fsync_job) \<times> mem_log_sink" where
  "mem_begin_harden s =
     (if \<not> deferred_harden s
      then (case mem_sync s of
              (Inl e, s1) \<Rightarrow> (Inl e, s1)
            | (Inr _, s1) \<Rightarrow> (Inr (already_durable (durable_end s1)), s1))
      else let covers = durable_end s;
               s1 = s\<lparr>snk_written := snk_written s @ snk_pending s, snk_pending := []\<rparr>
           in (fsync_job_deferred covers (covers + length (snk_written s1)), s1))"

definition mem_complete_harden :: "mem_log_sink \<Rightarrow> nat \<Rightarrow> mem_log_sink" where
  "mem_complete_harden s tgt =
     (if \<not> deferred_harden s \<or> tgt \<le> durable_end s then s
      else let promote = min (tgt - durable_end s) (length (snk_written s))
           in s\<lparr>snk_tail := snk_tail s @ take promote (snk_written s),
                snk_written := drop promote (snk_written s)\<rparr>)"

definition mem_buffered_len :: "mem_log_sink \<Rightarrow> nat" where
  "mem_buffered_len s = durable_end s + length (snk_written s) + length (snk_pending s)"

definition mem_read_durable :: "mem_log_sink \<Rightarrow> nat \<Rightarrow> bytes" where
  "mem_read_durable s fr =
     (let nd = durable_end s in
      if nd \<le> fr then []
      else
        let buf = replicate (nd - fr) 0;
            head_end = length (snk_head s);
            buf1 = (if fr < head_end then copy_at 0 (drop fr (snk_head s)) buf else buf);
            tail_start = max (snk_base s) fr
        in if tail_start < nd
           then copy_at (tail_start - fr) (drop (tail_start - snk_base s) (snk_tail s)) buf1
           else buf1)"

definition mem_read_bounded :: "mem_log_sink \<Rightarrow> nat \<Rightarrow> nat \<Rightarrow> bytes" where
  "mem_read_bounded s fr t =
     (let nd = min t (durable_end s) in
      if nd \<le> fr then []
      else
        let buf = replicate (nd - fr) 0;
            head_end = length (snk_head s);
            buf1 = (if fr < head_end then copy_at 0 (bslice fr (min head_end nd - fr) (snk_head s)) buf
                    else buf);
            tail_start = max (snk_base s) fr
        in if tail_start < nd
           then copy_at (tail_start - fr)
                  (bslice (tail_start - snk_base s) (nd - tail_start) (snk_tail s)) buf1
           else buf1)"

definition mem_reclaim :: "mem_log_sink \<Rightarrow> nat \<Rightarrow> nat \<Rightarrow> mem_log_sink" where
  "mem_reclaim s fr0 up0 =
     (let fr = min fr0 (durable_end s);
          up = max (min up0 (durable_end s)) fr;
          s1 = (if snk_base s = length (snk_head s) \<and> length (snk_head s) < fr
                then let promote = fr - snk_base s
                     in s\<lparr>snk_head := snk_head s @ take promote (snk_tail s),
                          snk_tail := drop promote (snk_tail s), snk_base := fr\<rparr>
                else s)
      in if up \<le> snk_base s1 then s1
         else s1\<lparr>snk_tail := drop (up - snk_base s1) (snk_tail s1), snk_base := up\<rparr>)"

definition mem_reclaimed_floor :: "mem_log_sink \<Rightarrow> nat" where
  "mem_reclaimed_floor s = (if snk_base s > length (snk_head s) then snk_base s else 0)"

definition mem_sink_ops :: "mem_log_sink sink_ops" where
  "mem_sink_ops = \<lparr>sk_append = mem_append, sk_sync = mem_sync, sk_begin_harden = mem_begin_harden,
     sk_complete_harden = mem_complete_harden, sk_durable_len = durable_end,
     sk_buffered_len = mem_buffered_len, sk_read_bounded = mem_read_bounded,
     sk_reclaim = mem_reclaim, sk_reclaimed_floor = mem_reclaimed_floor,
     sk_retains_undo = (\<lambda>_. True)\<rparr>"

subsection \<open>The discarding sink\<close>

definition HEADER_LEN :: nat where
  "HEADER_LEN = 8"

record discarding_log_sink =
  dsk_head :: bytes
  dsk_len :: nat

definition discarding_new :: discarding_log_sink where
  "discarding_new = \<lparr>dsk_head = [], dsk_len = 0\<rparr>"

definition discarding_append :: "discarding_log_sink \<Rightarrow> bytes \<Rightarrow> discarding_log_sink" where
  "discarding_append s bs =
     (let s1 = (if dsk_len s < HEADER_LEN
                then s\<lparr>dsk_head := dsk_head s @ take (min (HEADER_LEN - dsk_len s) (length bs)) bs\<rparr>
                else s)
      in s1\<lparr>dsk_len := dsk_len s1 + length bs\<rparr>)"

definition discarding_read_durable :: "discarding_log_sink \<Rightarrow> nat \<Rightarrow> bytes" where
  "discarding_read_durable s fr =
     (if dsk_len s \<le> fr then []
      else let buf = replicate (dsk_len s - fr) 0
           in if fr < length (dsk_head s) then copy_at 0 (drop fr (dsk_head s)) buf else buf)"

text \<open>The trait's default \<^verbatim>\<open>read_bounded\<close>, which the discarding sink keeps.\<close>

definition discarding_read_bounded :: "discarding_log_sink \<Rightarrow> nat \<Rightarrow> nat \<Rightarrow> bytes" where
  "discarding_read_bounded s fr t = take (t - fr) (discarding_read_durable s fr)"

definition discarding_sink_ops :: "discarding_log_sink sink_ops" where
  "discarding_sink_ops = \<lparr>sk_append = discarding_append, sk_sync = (\<lambda>s. (Inr (), s)),
     sk_begin_harden = (\<lambda>s. (Inr (already_durable (dsk_len s)), s)),
     sk_complete_harden = (\<lambda>s _. s), sk_durable_len = dsk_len, sk_buffered_len = dsk_len,
     sk_read_bounded = discarding_read_bounded, sk_reclaim = (\<lambda>s _ _. s),
     sk_reclaimed_floor = (\<lambda>_. 0), sk_retains_undo = (\<lambda>_. False)\<rparr>"

subsection \<open>The contract\<close>

text \<open>
  A recoverable sink, through the image a reader sees of its durable bytes and the bytes not yet
  durable: appends go behind the boundary, a successful sync moves it to the end, reads return the
  image, and a reclaim only replaces bytes between its bounds by zeros.
\<close>

locale log_sink =
  fixes S :: "'s sink_ops"
    and ok :: "'s \<Rightarrow> bool"
    and image :: "'s \<Rightarrow> bytes"
    and unsynced :: "'s \<Rightarrow> bytes"
  assumes durable_len_law: "ok s \<Longrightarrow> sk_durable_len S s = length (image s)"
    and buffered_len_law: "ok s \<Longrightarrow> sk_buffered_len S s = length (image s @ unsynced s)"
    and append_law: "ok s \<Longrightarrow> ok (sk_append S s bs) \<and> image (sk_append S s bs) = image s \<and>
      unsynced (sk_append S s bs) = unsynced s @ bs"
    and sync_law: "ok s \<Longrightarrow> sk_sync S s = (Inr u, s') \<Longrightarrow>
      ok s' \<and> image s' = image s @ unsynced s \<and> unsynced s' = []"
    and sync_error_law: "ok s \<Longrightarrow> sk_sync S s = (Inl e, s') \<Longrightarrow>
      ok s' \<and> image s' = image s \<and> unsynced s' = unsynced s"
    and harden_law: "ok s \<Longrightarrow> sk_begin_harden S s = (Inr j, s') \<Longrightarrow>
      ok s' \<and> image s' @ unsynced s' = image s @ unsynced s \<and>
      length (image s) \<le> length (image s') \<and> covers_from j \<le> target_len j \<and>
      covers_from j = length (image s') \<and> target_len j = length (image s @ unsynced s)"
    and complete_law: "ok s \<Longrightarrow> ok (sk_complete_harden S s n) \<and>
      image (sk_complete_harden S s n) @ unsynced (sk_complete_harden S s n) = image s @ unsynced s \<and>
      length (image s) \<le> length (image (sk_complete_harden S s n))"
    and read_law: "ok s \<Longrightarrow> sk_read_bounded S s fr t = bslice fr (t - fr) (image s)"
    and reclaim_law: "ok s \<Longrightarrow> ok (sk_reclaim S s fr up) \<and>
      length (image (sk_reclaim S s fr up)) = length (image s) \<and>
      unsynced (sk_reclaim S s fr up) = unsynced s"
    and reclaim_above_law: "ok s \<Longrightarrow> max fr up \<le> i \<Longrightarrow> i < length (image s) \<Longrightarrow>
      image (sk_reclaim S s fr up) ! i = image s ! i"

subsection \<open>The in-memory sink meets the contract\<close>

definition mem_sink_ok :: "mem_log_sink \<Rightarrow> bool" where
  [invs]: "mem_sink_ok s \<longleftrightarrow> length (snk_head s) \<le> snk_base s"

definition mem_unsynced :: "mem_log_sink \<Rightarrow> bytes" where
  "mem_unsynced s = snk_written s @ snk_pending s"

lemma durable_bytes_eq:
  assumes "mem_sink_ok s"
  shows "durable_bytes s = snk_head s @ replicate (snk_base s - length (snk_head s)) 0 @ snk_tail s"
  using assms by (simp add: durable_bytes_def copy_at_def mem_sink_ok_def durable_end_def)

lemma length_durable_bytes: "mem_sink_ok s \<Longrightarrow> length (durable_bytes s) = durable_end s"
  by (simp add: durable_bytes_eq durable_end_def mem_sink_ok_def)

lemma nth_durable_bytes:
  assumes "mem_sink_ok s" "i < durable_end s"
  shows "durable_bytes s ! i = (if i < length (snk_head s) then snk_head s ! i
     else if i < snk_base s then 0 else snk_tail s ! (i - snk_base s))"
  using assms by (auto simp: durable_bytes_eq nth_append durable_end_def mem_sink_ok_def)

lemma mem_read_bounded_eq:
  assumes ok: "mem_sink_ok s"
  shows "mem_read_bounded s fr t = bslice fr (t - fr) (durable_bytes s)"
proof (cases "min t (durable_end s) \<le> fr")
  case True
  then show ?thesis
    by (auto simp: mem_read_bounded_def Let_def bslice_def length_durable_bytes [OF ok] min_def split: if_splits)
next
  case False
  define nd where "nd = min t (durable_end s)"
  have fr: "fr < nd" using False by (simp add: nd_def not_le)
  define h where "h = length (snk_head s)"
  define ts where "ts = max (snk_base s) fr"
  define b1 where "b1 = (if fr < h then copy_at 0 (bslice fr (min h nd - fr) (snk_head s)) (replicate (nd - fr) 0)
     else replicate (nd - fr) 0)"
  have hb: "h \<le> snk_base s" using ok by (simp add: h_def mem_sink_ok_def)
  have lh: "length (bslice fr (min h nd - fr) (snk_head s)) = min h nd - fr"
    by (simp add: bslice_def h_def)
  have l1: "length b1 = nd - fr" using fr by (auto simp: b1_def length_copy_at lh)
  have n1: "b1 ! i = (if fr + i < h then snk_head s ! (fr + i) else 0)" if "i < nd - fr" for i
  proof (cases "fr < h")
    case True
    define w where "w = bslice fr (min h nd - fr) (snk_head s)"
    have w: "length w = min h nd - fr" "length w \<le> nd - fr" using lh by (simp_all add: w_def)
    then have "b1 ! i = (if i < length w then w ! i else 0)"
      using True that nth_copy_at [of 0 w "replicate (nd - fr) 0" i] by (simp add: b1_def w_def)
    moreover have "w ! i = snk_head s ! (fr + i)" if "i < length w"
      using that w(1) by (simp add: w_def bslice_def h_def)
    ultimately show ?thesis using that w(1) by auto
  qed (use that in \<open>simp add: b1_def\<close>)
  have lt: "length (bslice (ts - snk_base s) (nd - ts) (snk_tail s)) = nd - ts"
    by (auto simp: bslice_def ts_def nd_def durable_end_def)
  have r: "mem_read_bounded s fr t = (if ts < nd then copy_at (ts - fr)
      (bslice (ts - snk_base s) (nd - ts) (snk_tail s)) b1 else b1)"
    using fr unfolding mem_read_bounded_def Let_def by (simp add: nd_def [symmetric] h_def b1_def ts_def)
  have len: "length (mem_read_bounded s fr t) = nd - fr"
    unfolding r using l1 lt fr by (auto simp: length_copy_at ts_def)
  have ln: "length (bslice fr (t - fr) (durable_bytes s)) = nd - fr"
    by (auto simp: bslice_def length_durable_bytes [OF ok] nd_def min_def)
  show ?thesis
  proof (rule nth_equalityI)
    fix i assume "i < length (mem_read_bounded s fr t)"
    then have i: "i < nd - fr" using len by simp
    then have d: "fr + i < durable_end s" "fr + i < t" by (auto simp: nd_def)
    have "bslice fr (t - fr) (durable_bytes s) ! i = durable_bytes s ! (fr + i)"
      using d by (simp add: bslice_def length_durable_bytes [OF ok])
    also have "\<dots> = (if fr + i < h then snk_head s ! (fr + i) else if fr + i < snk_base s then 0
        else snk_tail s ! (fr + i - snk_base s))"
      using nth_durable_bytes [OF ok d(1)] by (simp add: h_def)
    also have "\<dots> = mem_read_bounded s fr t ! i"
      unfolding r using i l1 lt n1 [OF i] hb d
      by (auto simp: nth_copy_at ts_def bslice_def nd_def durable_end_def max_def add.commute split: if_splits)
    finally show "mem_read_bounded s fr t ! i = bslice fr (t - fr) (durable_bytes s) ! i" by simp
  qed (simp add: len ln)
qed

lemma mem_reclaim_views:
  assumes ok: "mem_sink_ok s"
  shows "mem_sink_ok (mem_reclaim s fr up)" "durable_end (mem_reclaim s fr up) = durable_end s"
    "mem_unsynced (mem_reclaim s fr up) = mem_unsynced s"
  using ok by (auto simp: mem_reclaim_def Let_def mem_sink_ok_def durable_end_def mem_unsynced_def)

lemma mem_reclaim_above:
  assumes ok: "mem_sink_ok s" and i: "max fr up \<le> i" "i < durable_end s"
  shows "durable_bytes (mem_reclaim s fr up) ! i = durable_bytes s ! i"
proof -
  note v = mem_reclaim_views [OF ok, of fr up]
  show ?thesis
    using ok i unfolding nth_durable_bytes [OF v(1) i(2) [folded v(2)]] nth_durable_bytes [OF ok i(2)]
    by (auto simp: mem_reclaim_def Let_def mem_sink_ok_def durable_end_def nth_append)
qed

lemma mem_append_views:
  "mem_sink_ok (mem_append s bs) = mem_sink_ok s" "durable_bytes (mem_append s bs) = durable_bytes s"
  "mem_unsynced (mem_append s bs) = mem_unsynced s @ bs"
  by (simp_all add: mem_append_def mem_sink_ok_def mem_unsynced_def durable_bytes_def durable_end_def)

lemma mem_sync_views:
  assumes "mem_sink_ok s" "mem_sync s = (r, s')"
  shows "mem_sink_ok s'" "deferred_harden s' = deferred_harden s"
    "r = Inr () \<Longrightarrow> durable_bytes s' = durable_bytes s @ mem_unsynced s \<and> mem_unsynced s' = []"
    "r = Inl e \<Longrightarrow> durable_bytes s' = durable_bytes s \<and> mem_unsynced s' = mem_unsynced s"
proof -
  show ok: "mem_sink_ok s'" and "deferred_harden s' = deferred_harden s"
    using assms by (auto simp: mem_sync_def mem_sink_ok_def split: if_splits)
  show "durable_bytes s' = durable_bytes s @ mem_unsynced s \<and> mem_unsynced s' = []" if "r = Inr ()"
    using assms ok that
    by (auto simp: mem_sync_def durable_bytes_eq mem_unsynced_def split: if_splits)
  show "durable_bytes s' = durable_bytes s \<and> mem_unsynced s' = mem_unsynced s" if "r = Inl e"
    using assms ok that
    by (auto simp: mem_sync_def durable_bytes_eq mem_unsynced_def split: if_splits)
qed

lemma mem_begin_harden_views:
  assumes ok: "mem_sink_ok s" and h: "mem_begin_harden s = (Inr j, s')"
  shows "mem_sink_ok s' \<and> durable_bytes s' @ mem_unsynced s' = durable_bytes s @ mem_unsynced s \<and>
    length (durable_bytes s) \<le> length (durable_bytes s') \<and> covers_from j \<le> target_len j \<and>
    covers_from j = length (durable_bytes s') \<and> target_len j = length (durable_bytes s @ mem_unsynced s)"
proof (cases "deferred_harden s")
  case True
  then have s': "s' = s\<lparr>snk_written := snk_written s @ snk_pending s, snk_pending := []\<rparr>"
    and j: "j = \<lparr>covers_from = durable_end s, target_len = durable_end s + length (mem_unsynced s)\<rparr>"
    using h by (auto simp: mem_begin_harden_def Let_def fsync_job_deferred_def mem_unsynced_def)
  have "mem_sink_ok s'" "durable_bytes s' = durable_bytes s" "mem_unsynced s' = mem_unsynced s"
    using ok by (simp_all add: s' mem_sink_ok_def durable_bytes_def durable_end_def mem_unsynced_def)
  then show ?thesis using ok by (simp add: j length_durable_bytes)
next
  case False
  then obtain r s1 where sy: "mem_sync s = (r, s1)" "r = Inr ()" "s' = s1" "j = already_durable (durable_end s1)"
    using h by (cases "mem_sync s") (auto simp: mem_begin_harden_def split: sum.splits)
  from mem_sync_views [OF ok sy(1)] sy(2-4) show ?thesis
    by (simp add: already_durable_def flip: length_durable_bytes)
qed

lemma mem_complete_harden_views:
  assumes ok: "mem_sink_ok s"
  shows "mem_sink_ok (mem_complete_harden s n)"
    "durable_bytes (mem_complete_harden s n) @ mem_unsynced (mem_complete_harden s n) =
       durable_bytes s @ mem_unsynced s"
    "length (durable_bytes s) \<le> length (durable_bytes (mem_complete_harden s n))"
proof -
  show ok': "mem_sink_ok (mem_complete_harden s n)"
    using ok by (simp add: mem_complete_harden_def mem_sink_ok_def Let_def)
  show "durable_bytes (mem_complete_harden s n) @ mem_unsynced (mem_complete_harden s n) =
      durable_bytes s @ mem_unsynced s"
    "length (durable_bytes s) \<le> length (durable_bytes (mem_complete_harden s n))"
    unfolding durable_bytes_eq [OF ok'] durable_bytes_eq [OF ok]
    by (simp_all add: mem_complete_harden_def mem_unsynced_def Let_def)
qed

interpretation mem_sink: log_sink mem_sink_ops mem_sink_ok durable_bytes mem_unsynced
proof (unfold_locales, goal_cases)
  case (2 s)
  then show ?case
    by (simp add: mem_sink_ops_def mem_buffered_len_def length_durable_bytes mem_unsynced_def)
next
  case (4 s u s')
  with mem_sync_views [of s "Inr ()" s'] show ?case by (simp add: mem_sink_ops_def)
next
  case (5 s e s')
  with mem_sync_views [of s "Inl e" s'] show ?case by (simp add: mem_sink_ops_def)
next
  case (6 s j s')
  then show ?case using mem_begin_harden_views [of s j s'] by (simp add: mem_sink_ops_def)
next
  case (7 s n)
  then show ?case using mem_complete_harden_views [of s n] by (simp add: mem_sink_ops_def)
qed (auto simp: mem_sink_ops_def length_durable_bytes mem_read_bounded_eq mem_reclaim_views
    mem_reclaim_above mem_append_views)

end
