(* ===== verification/Log_Scan.thy ===== *)
theory Log_Scan
  imports Log_Sink
begin

text \<open>
  The streaming scans of \<^verbatim>\<open>crates/graphus-wal/src/recovery.rs\<close>: they read the durable log one window
  at a time, restart at a record that straddles a window, and double the window for a record larger
  than it. The main result is that the window does not matter: each scan equals the scan of the
  whole durable image.

  \<open>rd fr t\<close> stands for \<^verbatim>\<open>wal.read_bounded\<close>. The outer loops only end because the window is positive, so
  they are partial functions, and the results below state that they return. Offsets are natural
  numbers; the overflow check of the doubled window is kept.
\<close>

datatype scan_outcome = ScanComplete | ScanTornTail | ScanInteriorCorruption nat nat

definition RECOVERY_WINDOW_BYTES :: nat where
  "RECOVERY_WINDOW_BYTES = 4 * 1024 * 1024"

definition checked_double :: "nat \<Rightarrow> nat option" where
  "checked_double w = (if w * 2 < 2 ^ 64 then Some (w * 2) else None)"

subsection \<open>The probe for a self-consistent record\<close>

datatype probe = ProbeFound nat | ProbeStop nat

text \<open>One window: the offset of a self-consistent record, or where the probe stopped.\<close>

function probe_window :: "(bytes \<Rightarrow> u32) \<Rightarrow> bytes \<Rightarrow> nat \<Rightarrow> bool \<Rightarrow> nat \<Rightarrow> probe" where
  "probe_window crc buf win_start fin p =
     (if length buf \<le> p then ProbeStop p
      else case decode crc (drop p buf) of
        Inr (r, _) \<Rightarrow>
          if rec_lsn r = of_nat (win_start + p) then ProbeFound (win_start + p)
          else probe_window crc buf win_start fin (p + 1)
      | Inl Incomplete \<Rightarrow>
          if fin then probe_window crc buf win_start fin (p + 1) else ProbeStop p
      | Inl _ \<Rightarrow> probe_window crc buf win_start fin (p + 1))"
  by pat_completeness auto
termination by (relation "measure (\<lambda>(_, buf, _, _, p). length buf - p)") auto

declare probe_window.simps [simp del]

partial_function (option) scan_for_self_consistent ::
  "(bytes \<Rightarrow> u32) \<Rightarrow> (nat \<Rightarrow> nat \<Rightarrow> bytes) \<Rightarrow> nat \<Rightarrow> nat \<Rightarrow> nat \<Rightarrow> nat \<Rightarrow> (wal_error + nat option) option" where
  "scan_for_self_consistent crc rd durable_len window win_start win =
     (if durable_len \<le> win_start then Some (Inr None)
      else
        let win_end = min (win_start + win) durable_len;
            buf = rd win_start win_end;
            fin = (win_end = durable_len)
        in case probe_window crc buf win_start fin 0 of
             ProbeFound n \<Rightarrow> Some (Inr (Some n))
           | ProbeStop p \<Rightarrow>
               if fin then Some (Inr None)
               else if p = 0
               then (case checked_double win of
                       None \<Rightarrow> Some (Inl WindowOverflow)
                     | Some w \<Rightarrow> scan_for_self_consistent crc rd durable_len window win_start w)
               else scan_for_self_consistent crc rd durable_len window (win_start + p) window)"

definition decide_tail ::
  "(bytes \<Rightarrow> u32) \<Rightarrow> (nat \<Rightarrow> nat \<Rightarrow> bytes) \<Rightarrow> nat \<Rightarrow> nat \<Rightarrow> bool \<Rightarrow> nat \<Rightarrow> (wal_error + scan_outcome) option" where
  "decide_tail crc rd durable_len window probe bad_at =
     (if \<not> probe then Some (Inr ScanTornTail)
      else case scan_for_self_consistent crc rd durable_len window (bad_at + 1) window of
        None \<Rightarrow> None
      | Some (Inl e) \<Rightarrow> Some (Inl e)
      | Some (Inr (Some nx)) \<Rightarrow> Some (Inr (ScanInteriorCorruption bad_at nx))
      | Some (Inr None) \<Rightarrow> Some (Inr ScanTornTail))"

subsection \<open>The forward scan\<close>

type_synonym 'a on_record = "log_record \<Rightarrow> nat \<Rightarrow> 'a \<Rightarrow> (wal_error + unit) \<times> 'a"

datatype progress = Progress nat | Undecodable nat | Failed wal_error

text \<open>One window: how far it was consumed, or why the scan ends; with the callback's state.\<close>

function scan_window ::
  "(bytes \<Rightarrow> u32) \<Rightarrow> 'a on_record \<Rightarrow> nat \<Rightarrow> bytes \<Rightarrow> bool \<Rightarrow> nat \<Rightarrow> 'a \<Rightarrow> progress \<times> 'a" where
  "scan_window crc on_record base buf fin off a =
     (if length buf \<le> off then (Progress off, a)
      else case decode crc (drop off buf) of
        Inr (r, n) \<Rightarrow>
          (case on_record r (base + off) a of
             (Inl e, a') \<Rightarrow> (Failed e, a')
           | (Inr _, a') \<Rightarrow>
               scan_window crc on_record base buf fin (off + n) a')
      | Inl Incomplete \<Rightarrow> (if fin then Undecodable (base + off) else Progress off, a)
      | Inl _ \<Rightarrow> (Undecodable (base + off), a))"
  by pat_completeness auto
termination
  by (relation "measure (\<lambda>(_, _, _, buf, _, off, _). length buf - off)")
    (auto simp: decode_Inr_iff offsets)

declare scan_window.simps [simp del]

partial_function (option) scan_forward ::
  "(bytes \<Rightarrow> u32) \<Rightarrow> (nat \<Rightarrow> nat \<Rightarrow> bytes) \<Rightarrow> 'a on_record \<Rightarrow> bool \<Rightarrow> nat \<Rightarrow> nat \<Rightarrow> nat \<Rightarrow> nat \<Rightarrow> 'a \<Rightarrow>
     ((wal_error + scan_outcome) \<times> 'a) option" where
  "scan_forward crc rd on_record probe durable_len window base win a =
     (if durable_len \<le> base then Some (Inr ScanComplete, a)
      else
        let win_end = min (base + win) durable_len;
            buf = rd base win_end;
            fin = (win_end = durable_len)
        in case scan_window crc on_record base buf fin 0 a of
             (Failed e, a') \<Rightarrow> Some (Inl e, a')
           | (Undecodable at, a') \<Rightarrow>
               map_option (\<lambda>r. (r, a')) (decide_tail crc rd durable_len window probe at)
           | (Progress p, a') \<Rightarrow>
               if p = 0 \<and> \<not> fin
               then (case checked_double win of
                       None \<Rightarrow> Some (Inl WindowOverflow, a')
                     | Some w \<Rightarrow> scan_forward crc rd on_record probe durable_len window base w a')
               else scan_forward crc rd on_record probe durable_len window (base + p) window a')"

subsection \<open>The first record\<close>

partial_function (option) record_decodes_at ::
  "(bytes \<Rightarrow> u32) \<Rightarrow> (nat \<Rightarrow> nat \<Rightarrow> bytes) \<Rightarrow> nat \<Rightarrow> nat \<Rightarrow> nat \<Rightarrow> (wal_error + bool) option" where
  "record_decodes_at crc rd durable_len at win =
     (let win_end = min (at + win) durable_len;
          buf = rd at win_end
      in case decode crc buf of
           Inr _ \<Rightarrow> Some (Inr True)
         | Inl Incomplete \<Rightarrow>
             if win_end = durable_len then Some (Inr False)
             else (case checked_double win of
                     None \<Rightarrow> Some (Inl WindowOverflow)
                   | Some w \<Rightarrow> record_decodes_at crc rd durable_len at w)
         | Inl _ \<Rightarrow> Some (Inr False))"

definition position_nonzero :: "bytes \<Rightarrow> nat option" where
  "position_nonzero buf =
     (let p = length (takeWhile (\<lambda>b. b = 0) buf) in if p < length buf then Some p else None)"

partial_function (option) find_first_record_offset ::
  "(bytes \<Rightarrow> u32) \<Rightarrow> (nat \<Rightarrow> nat \<Rightarrow> bytes) \<Rightarrow> nat \<Rightarrow> nat \<Rightarrow> nat \<Rightarrow> (wal_error + nat option) option" where
  "find_first_record_offset crc rd durable_len window base =
     (if durable_len \<le> base then Some (Inr None)
      else
        let win_end = min (base + window) durable_len;
            buf = rd base win_end
        in case position_nonzero buf of
             None \<Rightarrow> find_first_record_offset crc rd durable_len window win_end
           | Some 0 \<Rightarrow> Some (Inr (Some base))
           | Some pos \<Rightarrow>
               (case record_decodes_at crc rd durable_len base window of
                  None \<Rightarrow> None
                | Some (Inl e) \<Rightarrow> Some (Inl e)
                | Some (Inr True) \<Rightarrow> Some (Inr (Some base))
                | Some (Inr False) \<Rightarrow> Some (Inr (Some (base + pos)))))"

declare scan_for_self_consistent.simps [code] scan_forward.simps [code] record_decodes_at.simps [code]
  find_first_record_offset.simps [code]

subsection \<open>The window does not matter\<close>

text \<open>Reading the durable image \<open>im\<close>.\<close>

definition reads_image :: "(nat \<Rightarrow> nat \<Rightarrow> bytes) \<Rightarrow> bytes \<Rightarrow> bool" where
  "reads_image rd im \<longleftrightarrow> (\<forall>fr t. rd fr t = bslice fr (t - fr) im)"

lemma window_length:
  assumes "reads_image rd im" "we = min (ws + win) (length im)"
  shows "length (rd ws we) = we - ws"
  using assms by (auto simp: reads_image_def bslice_def)

lemma window_drop:
  assumes "reads_image rd im" "we = min (ws + win) (length im)"
  shows "drop p (rd ws we) = take (we - ws - p) (drop (ws + p) im)"
  using assms by (simp add: reads_image_def bslice_def drop_take add.commute)

lemma window_decode:
  assumes rd: "reads_image rd im" and we: "we = min (ws + win) (length im)"
    and d: "we = length im \<or> decode crc (drop p (rd ws we)) \<noteq> Inl Incomplete"
  shows "decode crc (drop p (rd ws we)) = decode crc (drop (ws + p) im)"
  using d
proof
  assume "we = length im"
  then show ?thesis using window_drop [OF rd we, of p] by simp
next
  assume "decode crc (drop p (rd ws we)) \<noteq> Inl Incomplete"
  then show ?thesis using decode_cut [of crc "we - ws - p" "drop (ws + p) im"]
    by (simp add: window_drop [OF rd we])
qed

definition self_consistent :: "(bytes \<Rightarrow> u32) \<Rightarrow> bytes \<Rightarrow> nat \<Rightarrow> bool" where
  "self_consistent crc im p =
     (case decode crc (drop p im) of Inr (r, _) \<Rightarrow> rec_lsn r = of_nat p | Inl _ \<Rightarrow> False)"

lemma find_upt_Some: "find P [a..<b] = Some n \<longleftrightarrow> a \<le> n \<and> n < b \<and> P n \<and> (\<forall>q. a \<le> q \<and> q < n \<longrightarrow> \<not> P q)"
proof (induction "b - a" arbitrary: a)
  case (Suc d)
  then have "[a..<b] = a # [Suc a..<b]" by (simp add: upt_conv_Cons)
  moreover have "d = b - Suc a" using Suc(2) by simp
  ultimately show ?case using Suc(1) [of "Suc a"] Suc(2)
    by (auto simp: Suc_le_eq dest: le_neq_implies_less)
qed auto

lemma find_upt_skip:
  assumes "a \<le> c" "\<And>q. a \<le> q \<Longrightarrow> q < c \<Longrightarrow> \<not> P q"
  shows "find P [a..<b] = find P [c..<b]"
proof -
  have "find P [a..<b] = Some n \<longleftrightarrow> find P [c..<b] = Some n" for n
    unfolding find_upt_Some using assms by (meson le_trans not_le)
  then show ?thesis by (metis not_Some_eq)
qed

lemma probe_window_spec:
  assumes rd: "reads_image rd im" and we: "we = min (ws + win) (length im)"
    and fin: "fin \<longleftrightarrow> we = length im" and p: "p \<le> length (rd ws we)"
  shows "case probe_window crc (rd ws we) ws fin p of
      ProbeFound n \<Rightarrow> ws + p \<le> n \<and> n < ws + length (rd ws we) \<and> self_consistent crc im n \<and>
        (\<forall>q. ws + p \<le> q \<and> q < n \<longrightarrow> \<not> self_consistent crc im q)
    | ProbeStop k \<Rightarrow> p \<le> k \<and> k \<le> length (rd ws we) \<and> (fin \<longrightarrow> k = length (rd ws we)) \<and>
        (\<forall>q. ws + p \<le> q \<and> q < ws + k \<longrightarrow> \<not> self_consistent crc im q)"
    (is "?spec p")
  using p
proof (induction "length (rd ws we) - p" arbitrary: p)
  case 0
  then have "probe_window crc (rd ws we) ws fin p = ProbeStop p" by (subst probe_window.simps) simp
  with 0 show ?case by auto
next
  case (Suc d)
  let ?d = "decode crc (drop p (rd ws we))"
  have lt: "p < length (rd ws we)" using Suc(2) by simp
  have IH: "?spec (p + 1)" using Suc(1) [of "p + 1"] Suc(2) lt by simp
  have skip: "?spec p" if "probe_window crc (rd ws we) ws fin p = probe_window crc (rd ws we) ws fin (p + 1)"
    "\<not> self_consistent crc im (ws + p)"
  proof -
    have "\<not> self_consistent crc im q" if "ws + p \<le> q" "q < n" "\<forall>q. ws + (p + 1) \<le> q \<and> q < n \<longrightarrow> \<not> self_consistent crc im q" for q n
      using that \<open>\<not> self_consistent crc im (ws + p)\<close> by (cases "q = ws + p") auto
    then show ?thesis using IH that(1) by (auto split: probe.splits)
  qed
  note wd = window_decode [OF rd we, of crc p]
  show ?case
  proof (cases ?d)
    case (Inr rn)
    obtain r n where rn: "rn = (r, n)" by (cases rn)
    have full: "decode crc (drop (ws + p) im) = Inr (r, n)" using wd Inr rn by simp
    show ?thesis
    proof (cases "rec_lsn r = of_nat (ws + p)")
      case True
      then have "probe_window crc (rd ws we) ws fin p = ProbeFound (ws + p)"
        using lt Inr rn by (subst probe_window.simps) simp
      moreover have "self_consistent crc im (ws + p)" using True full by (simp add: self_consistent_def)
      ultimately show ?thesis using lt by auto
    next
      case False
      then show ?thesis using lt Inr rn full
        by (intro skip, subst probe_window.simps) (simp_all add: self_consistent_def)
    qed
  next
    case (Inl e)
    show ?thesis
    proof (cases "e = Incomplete \<and> \<not> fin")
      case True
      then have "probe_window crc (rd ws we) ws fin p = ProbeStop p"
        using lt Inl by (subst probe_window.simps) simp
      then show ?thesis using True lt by auto
    next
      case False
      then have "decode crc (drop (ws + p) im) = Inl e" using wd Inl fin by auto
      then have "\<not> self_consistent crc im (ws + p)" by (simp add: self_consistent_def)
      moreover have "probe_window crc (rd ws we) ws fin p = probe_window crc (rd ws we) ws fin (p + 1)"
        using lt Inl False by (subst probe_window.simps) (auto split: decode_error.splits)
      ultimately show ?thesis by (intro skip)
    qed
  qed
qed

lemma scan_for_self_consistent_eq:
  assumes rd: "reads_image rd im" and L: "length im < 2 ^ 63" and w: "0 < window" and win: "0 < win"
  shows "scan_for_self_consistent crc rd (length im) window ws win =
    Some (Inr (find (self_consistent crc im) [ws..<length im]))"
  using wf_measures [of "[\<lambda>(ws, _). length im - ws, \<lambda>(_, win). length im - win]"] win
proof (induction "(ws, win)" arbitrary: ws win rule: wf_induct_rule)
  case less
  let ?we = "min (ws + win) (length im)"
  let ?fin = "?we = length im"
  let ?sc = "self_consistent crc im"
  show ?case
  proof (cases "length im \<le> ws")
    case True
    then show ?thesis by (subst scan_for_self_consistent.simps) simp
  next
    case False
    note spec = probe_window_spec [OF rd refl, of ?fin ws win 0 crc, OF refl]
    note unf = scan_for_self_consistent.simps [of crc rd "length im" window ws win]
    have len: "length (rd ws ?we) = ?we - ws" by (rule window_length [OF rd refl])
    show ?thesis
    proof (cases "probe_window crc (rd ws ?we) ws ?fin 0")
      case (ProbeFound n)
      then have "find ?sc [ws..<length im] = Some n" using spec len by (auto simp: find_upt_Some)
      then show ?thesis using False ProbeFound by (simp add: unf Let_def)
    next
      case (ProbeStop k)
      then have k: "k \<le> ?we - ws" "?fin \<Longrightarrow> k = ?we - ws" and no: "\<And>q. ws \<le> q \<Longrightarrow> q < ws + k \<Longrightarrow> \<not> ?sc q"
        using spec len by auto
      have skip: "find ?sc [ws..<length im] = find ?sc [ws + k..<length im]"
        by (rule find_upt_skip) (use no in auto)
      show ?thesis
      proof (cases ?fin)
        case True
        then show ?thesis using False ProbeStop skip k(2) by (simp add: unf Let_def)
      next
        case nf: False
        then have lt: "ws + win < length im" by (auto simp: min_def split: if_splits)
        show ?thesis
        proof (cases "k = 0")
          case True
          have "win * 2 < 2 ^ 64" using lt L by simp
          then show ?thesis using less.hyps [of ws "win * 2"] less.prems False nf ProbeStop True lt
            by (simp add: unf Let_def checked_double_def)
        next
          case kpos: False
          then have "length im - (ws + k) < length im - ws" using False by simp
          then show ?thesis using kpos less.hyps [of "ws + k" window] w False nf ProbeStop skip
            by (simp add: unf Let_def)
        qed
      qed
    qed
  qed
qed

text \<open>The scan of the whole image.\<close>

definition tail_verdict :: "(bytes \<Rightarrow> u32) \<Rightarrow> bytes \<Rightarrow> bool \<Rightarrow> nat \<Rightarrow> scan_outcome" where
  "tail_verdict crc im probe bad_at =
     (if \<not> probe then ScanTornTail
      else case find (self_consistent crc im) [bad_at + 1..<length im] of
        Some nx \<Rightarrow> ScanInteriorCorruption bad_at nx
      | None \<Rightarrow> ScanTornTail)"

function scan_all ::
  "(bytes \<Rightarrow> u32) \<Rightarrow> 'a on_record \<Rightarrow> bytes \<Rightarrow> bool \<Rightarrow> nat \<Rightarrow> 'a \<Rightarrow> (wal_error + scan_outcome) \<times> 'a" where
  "scan_all crc on_record im probe pos a =
     (if length im \<le> pos then (Inr ScanComplete, a)
      else case decode crc (drop pos im) of
        Inr (r, n) \<Rightarrow>
          (case on_record r pos a of
             (Inl e, a') \<Rightarrow> (Inl e, a')
           | (Inr _, a') \<Rightarrow> scan_all crc on_record im probe (pos + n) a')
      | Inl _ \<Rightarrow> (Inr (tail_verdict crc im probe pos), a))"
  by pat_completeness auto
termination
  by (relation "measure (\<lambda>(_, _, im, _, pos, _). length im - pos)") (auto simp: decode_Inr_iff offsets)

declare scan_all.simps [simp del]

lemma decide_tail_eq:
  assumes "reads_image rd im" "length im < 2 ^ 63" "0 < window"
  shows "decide_tail crc rd (length im) window probe at = Some (Inr (tail_verdict crc im probe at))"
  using scan_for_self_consistent_eq [OF assms assms(3), of crc "at + 1"]
  by (auto simp: decide_tail_def tail_verdict_def split: option.splits)

lemma scan_window_spec:
  assumes rd: "reads_image rd im" and we: "we = min (ws + win) (length im)"
    and fin: "fin \<longleftrightarrow> we = length im" and off: "off \<le> length (rd ws we)"
  shows "case scan_window crc f ws (rd ws we) fin off a of
      (Progress k, a') \<Rightarrow> off \<le> k \<and> k \<le> length (rd ws we) \<and> (fin \<longrightarrow> k = length (rd ws we)) \<and>
        (k = off \<longrightarrow> a' = a) \<and>
        scan_all crc f im probe (ws + off) a = scan_all crc f im probe (ws + k) a'
    | (Undecodable at, a') \<Rightarrow>
        scan_all crc f im probe (ws + off) a = (Inr (tail_verdict crc im probe at), a')
    | (Failed e, a') \<Rightarrow> scan_all crc f im probe (ws + off) a = (Inl e, a')"
    (is "?spec off a")
  using off
proof (induction "length (rd ws we) - off" arbitrary: off a rule: less_induct)
  case less
  let ?b = "rd ws we"
  let ?d = "decode crc (drop off ?b)"
  note wd = window_decode [OF rd we, of crc off]
  show ?case
  proof (cases "length ?b \<le> off")
    case True
    then have "scan_window crc f ws ?b fin off a = (Progress off, a)" by (subst scan_window.simps) simp
    then show ?thesis using True less.prems by simp
  next
    case lt: False
    then have in_im: "\<not> length im \<le> ws + off" using window_length [OF rd we] we by simp
    note unf = scan_window.simps [of crc f ws ?b fin off a] and all = scan_all.simps [of crc f im probe "ws + off" a]
    show ?thesis
    proof (cases ?d)
      case (Inr rn)
      obtain r n where rn: "rn = (r, n)" by (cases rn)
      have full: "decode crc (drop (ws + off) im) = Inr (r, n)" using wd Inr rn by simp
      have n: "0 < n" "off + n \<le> length ?b"
        using Inr rn lt by (auto simp: decode_Inr_iff offsets)
      obtain q a' where q: "f r (ws + off) a = (q, a')" by force
      show ?thesis
      proof (cases q)
        case Inl: (Inl e)
        then show ?thesis using Inr rn full lt in_im q by (simp add: unf all)
      next
        case (Inr u)
        have IH: "?spec (off + n) a'" using n lt by (intro less.hyps) auto
        have "scan_window crc f ws ?b fin off a = scan_window crc f ws ?b fin (off + n) a'"
          using \<open>?d = Inr rn\<close> rn lt q Inr by (simp add: unf)
        moreover have "scan_all crc f im probe (ws + off) a = scan_all crc f im probe (ws + (off + n)) a'"
          using full in_im q Inr by (simp add: all add.assoc)
        ultimately show ?thesis using IH n(1) by (auto split: prod.splits progress.splits)
      qed
    next
      case (Inl e)
      show ?thesis
      proof (cases "e = Incomplete \<and> \<not> fin")
        case True
        then show ?thesis unfolding unf using Inl lt by simp
      next
        case False
        then have "decode crc (drop (ws + off) im) = Inl e" using wd Inl fin by auto
        then show ?thesis using Inl lt in_im False by (auto simp: unf all split: decode_error.splits)
      qed
    qed
  qed
qed

lemma scan_forward_eq:
  assumes rd: "reads_image rd im" and L: "length im < 2 ^ 63" and w: "0 < window" and win: "0 < win"
  shows "scan_forward crc rd f probe (length im) window ws win a = Some (scan_all crc f im probe ws a)"
  using wf_measures [of "[\<lambda>(ws, _, _). length im - ws, \<lambda>(_, win, _). length im - win]"] win
proof (induction "(ws, win, a)" arbitrary: ws win a rule: wf_induct_rule)
  case less
  let ?we = "min (ws + win) (length im)"
  let ?fin = "?we = length im"
  note unf = scan_forward.simps [of crc rd f probe "length im" window ws win a]
  show ?case
  proof (cases "length im \<le> ws")
    case True
    then show ?thesis by (simp add: unf scan_all.simps)
  next
    case in_im: False
    note spec = scan_window_spec [OF rd refl, where fin = ?fin and ws = ws and win = win and off = 0 and crc = crc
        and f = f and a = a and probe = probe, OF refl, simplified]
    have len: "length (rd ws ?we) = ?we - ws" by (rule window_length [OF rd refl])
    obtain g a' where g: "scan_window crc f ws (rd ws ?we) ?fin 0 a = (g, a')" by force
    show ?thesis
    proof (cases g)
      case (Progress k)
      then have k: "k \<le> ?we - ws" "?fin \<Longrightarrow> k = ?we - ws" "k = 0 \<Longrightarrow> a' = a"
        and eq: "scan_all crc f im probe ws a = scan_all crc f im probe (ws + k) a'"
        using spec g len by auto
      show ?thesis
      proof (cases "k = 0")
        case True
        then have nf: "\<not> ?fin" using k(2) in_im by auto
        then have lt: "ws + win < length im" by (auto simp: min_def split: if_splits)
        have "win * 2 < 2 ^ 64" using lt L by simp
        then show ?thesis using less.hyps [of ws "win * 2" a] less.prems in_im nf g Progress True k(3) lt
          by (simp add: unf Let_def checked_double_def)
      next
        case False
        then have "length im - (ws + k) < length im - ws" using in_im by simp
        then show ?thesis using less.hyps [of "ws + k" window a'] w in_im g Progress False eq
          by (simp add: unf Let_def)
      qed
    next
      case (Undecodable at)
      then show ?thesis using spec g in_im decide_tail_eq [OF rd L w] by (simp add: unf Let_def)
    next
      case (Failed e)
      then show ?thesis using spec g in_im by (simp add: unf Let_def)
    qed
  qed
qed

lemma record_decodes_at_eq:
  assumes rd: "reads_image rd im" and L: "length im < 2 ^ 63" and win: "0 < win"
  shows "record_decodes_at crc rd (length im) at win = Some (Inr (\<not> isl (decode crc (drop at im))))"
  using win
proof (induction "length im - win" arbitrary: win rule: less_induct)
  case less
  let ?we = "min (at + win) (length im)"
  note unf = record_decodes_at.simps [of crc rd "length im" at win]
  have wd: "?we = length im \<or> decode crc (rd at ?we) \<noteq> Inl Incomplete \<Longrightarrow>
      decode crc (rd at ?we) = decode crc (drop at im)"
    using window_decode [OF rd refl, of at win crc 0] by simp
  show ?case
  proof (cases "decode crc (rd at ?we) = Inl Incomplete \<and> ?we \<noteq> length im")
    case True
    then have "at + win < length im" by (auto simp: min_def split: if_splits)
    then show ?thesis using less.hyps [of "win * 2"] less.prems True L
      by (simp add: unf Let_def checked_double_def)
  next
    case False
    then have "decode crc (rd at ?we) = decode crc (drop at im)" using wd by auto
    then show ?thesis using False
      by (cases "decode crc (drop at im)") (auto simp: unf Let_def split: decode_error.splits)
  qed
qed

lemma position_nonzero_Some:
  assumes "\<exists>b \<in> set buf. b \<noteq> 0"
  shows "\<exists>p. position_nonzero buf = Some p"
proof -
  have "takeWhile (\<lambda>b. b = 0) buf \<noteq> buf" using assms takeWhile_eq_all_conv [of "\<lambda>b. b = 0" buf] by simp
  then have "\<not> length buf \<le> length (takeWhile (\<lambda>b. b = 0) buf)"
    using takeWhile_eq_take [of "\<lambda>b. b = 0" buf] take_all by metis
  then show ?thesis by (simp add: position_nonzero_def Let_def)
qed

text \<open>A record at the start of the scan is found there, even if its first bytes are zero.\<close>

lemma find_first_record_offset_at:
  assumes rd: "reads_image rd im" and L: "length im < 2 ^ 63" and w: "4 \<le> window"
    and d: "decode crc (drop pos im) = Inr (r, n)"
  shows "find_first_record_offset crc rd (length im) window pos = Some (Inr (Some pos))"
proof -
  let ?we = "min (pos + window) (length im)"
  have n: "MIN_RECORD_LEN \<le> n" "n \<le> length (drop pos im)" "n = unat (read_u32 (drop pos im) OFF_TOTAL_LEN)"
    using d by (auto simp: decode_Inr_iff)
  have buf: "rd pos ?we = take (?we - pos) (drop pos im)"
    using window_drop [OF rd refl, of 0 pos window] by simp
  have le: "4 \<le> ?we - pos" using n(1,2) w by (simp add: offsets)
  have "\<exists>b \<in> set (rd pos ?we). b \<noteq> 0"
  proof (rule ccontr)
    assume "\<not> ?thesis"
    then have "\<forall>b \<in> set (bslice 0 4 (drop pos im)). b = 0"
      using le set_take_subset_set_take [OF le, of "drop pos im"] unfolding buf bslice_def by auto
    then have "read_u32 (drop pos im) 0 = 0" unfolding read_u32_def by (rule from_le_zeros)
    then show False using n by (simp add: offsets)
  qed
  then obtain p where p: "position_nonzero (rd pos ?we) = Some p"
    using position_nonzero_Some by blast
  have "\<not> length im \<le> pos" using n by (auto simp: offsets)
  moreover have "record_decodes_at crc rd (length im) pos window = Some (Inr True)"
    using record_decodes_at_eq [OF rd L, of window crc pos] d w by simp
  ultimately show ?thesis
    using p by (cases p) (simp_all add: find_first_record_offset.simps [of crc rd "length im" window pos] Let_def)
qed

lemma find_first_record_offset_end:
  "length im \<le> pos \<Longrightarrow> find_first_record_offset crc rd (length im) window pos = Some (Inr None)"
  by (simp add: find_first_record_offset.simps)

end
