(* ===== verification/Wal_Manager.thy ===== *)
theory Wal_Manager
  imports Log_Scan
begin

text \<open>
  The write-ahead-log manager, \<^verbatim>\<open>crates/graphus-wal/src/manager.rs\<close>: LSN allocation, the
  per-transaction undo chain, commit, step-wise rollback, checkpoints, reclamation and the rule that
  a page is written only after its log. The sink is a record of operations \<open>S\<close>, the page store a
  record of operations \<open>T\<close>. A failed sync aborts the process (\<open>SyncPanic\<close>). The scratch buffer,
  cleared before every use, is not part of the state, and the debug assertions are not modelled.
\<close>

record undo_entry =
  ue_lsn :: lsn
  ue_page :: page_id
  ue_undo :: bytes
  ue_prev :: lsn

record txn_state =
  first_lsn :: lsn
  last_lsn :: lsn
  undo_chain :: "undo_entry list"

record 's wal_manager =
  wal_sink :: 's
  wal_active :: "(txn_id, txn_state) fmap"

text \<open>What a redo or undo image means for a page, \<^verbatim>\<open>trait ApplyTarget\<close>.\<close>

record 't apply_ops =
  page_lsn :: "'t \<Rightarrow> page_id \<Rightarrow> lsn"
  apply_image :: "'t \<Rightarrow> page_id \<Rightarrow> lsn \<Rightarrow> bytes \<Rightarrow> (wal_error + unit) \<times> 't"

definition WAL_MAGIC :: u32 where
  "WAL_MAGIC = 0x4757414C"

definition WAL_VERSION :: u32 where
  "WAL_VERSION = 1"

definition harden :: "'s sink_ops \<Rightarrow> 's wal_manager \<Rightarrow> (wal_error + unit) \<times> 's wal_manager" where
  "harden S m =
     (case sk_sync S (wal_sink m) of
        (Inl _, s') \<Rightarrow> (Inl SyncPanic, m\<lparr>wal_sink := s'\<rparr>)
      | (Inr _, s') \<Rightarrow> (Inr (), m\<lparr>wal_sink := s'\<rparr>))"

definition wal_header :: bytes where
  "wal_header = le32 WAL_MAGIC @ le32 WAL_VERSION"

definition wal_create :: "'s sink_ops \<Rightarrow> 's \<Rightarrow> wal_error + 's wal_manager" where
  "wal_create S s =
     (if sk_buffered_len S s \<noteq> 0 then Inl SinkNotEmpty
      else case harden S \<lparr>wal_sink = sk_append S s wal_header, wal_active = fmempty\<rparr> of
        (Inl e, _) \<Rightarrow> Inl e
      | (Inr _, m) \<Rightarrow> Inr m)"

definition wal_open :: "'s sink_ops \<Rightarrow> 's \<Rightarrow> wal_error + 's wal_manager" where
  "wal_open S s =
     (if sk_durable_len S s < HEADER_LEN then Inl HeaderTooShort
      else let hdr = sk_read_bounded S s 0 HEADER_LEN;
               magic = from_le (bslice 0 4 hdr);
               version = from_le (bslice 4 4 hdr)
      in if magic \<noteq> WAL_MAGIC then Inl BadMagic
      else if version \<noteq> WAL_VERSION then Inl (UnsupportedVersion version)
      else Inr \<lparr>wal_sink = s, wal_active = fmempty\<rparr>)"

definition next_lsn :: "'s sink_ops \<Rightarrow> 's wal_manager \<Rightarrow> lsn" where
  "next_lsn S m = of_nat (sk_buffered_len S (wal_sink m))"

definition wal_append ::
  "(bytes \<Rightarrow> u32) \<Rightarrow> 's sink_ops \<Rightarrow> 's wal_manager \<Rightarrow> log_record \<Rightarrow> lsn \<times> 's wal_manager" where
  "wal_append crc S m r =
     (let l = next_lsn S m; buf = fst (snd (encode_to crc r l []))
      in (l, m\<lparr>wal_sink := sk_append S (wal_sink m) buf\<rparr>))"

definition wal_begin ::
  "(bytes \<Rightarrow> u32) \<Rightarrow> 's sink_ops \<Rightarrow> 's wal_manager \<Rightarrow> txn_id \<Rightarrow> lsn \<times> 's wal_manager" where
  "wal_begin crc S m txn =
     (let (l, m1) = wal_append crc S m (log_record_new RBegin txn 0)
      in (l, m1\<lparr>wal_active := fmupd txn \<lparr>first_lsn = l, last_lsn = l, undo_chain = []\<rparr> (wal_active m1)\<rparr>))"

definition txn_last_lsn :: "'s wal_manager \<Rightarrow> txn_id \<Rightarrow> lsn" where
  "txn_last_lsn m txn = (case fmlookup (wal_active m) txn of Some st \<Rightarrow> last_lsn st | None \<Rightarrow> 0)"

definition log_update_borrowed ::
  "(bytes \<Rightarrow> u32) \<Rightarrow> 's sink_ops \<Rightarrow> 's wal_manager \<Rightarrow> txn_id \<Rightarrow> page_id \<Rightarrow> bytes \<Rightarrow> bytes \<Rightarrow>
     lsn \<times> 's wal_manager" where
  "log_update_borrowed crc S m txn page rd ud =
     (let prev = txn_last_lsn m txn;
          r = (log_record_new RUpdate txn page)\<lparr>prev_lsn := prev\<rparr>;
          l = next_lsn S m;
          buf = fst (snd (encode_header_to crc r l rd ud []));
          s1 = sk_append S (wal_sink m) buf;
          retain = sk_retains_undo S s1;
          e = \<lparr>ue_lsn = l, ue_page = page, ue_undo = ud, ue_prev = prev\<rparr>
      in (l, m\<lparr>wal_sink := s1,
                wal_active := fm_entry txn \<lparr>first_lsn = l, last_lsn = l, undo_chain = []\<rparr>
                  (\<lambda>st. st\<lparr>last_lsn := l,
                           undo_chain := (if retain then undo_chain st @ [e] else undo_chain st)\<rparr>)
                  (wal_active m)\<rparr>))"

definition log_update ::
  "(bytes \<Rightarrow> u32) \<Rightarrow> 's sink_ops \<Rightarrow> 's wal_manager \<Rightarrow> txn_id \<Rightarrow> page_id \<Rightarrow> bytes \<Rightarrow> bytes \<Rightarrow>
     lsn \<times> 's wal_manager" where
  "log_update crc S m txn page rd ud = log_update_borrowed crc S m txn page rd ud"

definition log_update_redo_only ::
  "(bytes \<Rightarrow> u32) \<Rightarrow> 's sink_ops \<Rightarrow> 's wal_manager \<Rightarrow> txn_id \<Rightarrow> page_id \<Rightarrow> bytes \<Rightarrow> lsn \<times> 's wal_manager" where
  "log_update_redo_only crc S m txn page rd =
     (let prev = txn_last_lsn m txn;
          r = (log_record_new RUpdate txn page)\<lparr>prev_lsn := prev\<rparr>;
          l = next_lsn S m;
          buf = fst (snd (encode_header_to crc r l rd [] []))
      in (l, m\<lparr>wal_sink := sk_append S (wal_sink m) buf,
                wal_active := fm_entry txn \<lparr>first_lsn = l, last_lsn = l, undo_chain = []\<rparr>
                  (\<lambda>st. st\<lparr>last_lsn := l\<rparr>) (wal_active m)\<rparr>))"

definition commit_prev_lsn :: "'s wal_manager \<Rightarrow> txn_id \<Rightarrow> wal_error + lsn" where
  "commit_prev_lsn m txn =
     (case fmlookup (wal_active m) txn of None \<Rightarrow> Inl (InactiveCommit txn) | Some st \<Rightarrow> Inr (last_lsn st))"

definition append_commit_record ::
  "(bytes \<Rightarrow> u32) \<Rightarrow> 's sink_ops \<Rightarrow> 's wal_manager \<Rightarrow> txn_id \<Rightarrow> log_record \<Rightarrow> lsn \<times> 's wal_manager" where
  "append_commit_record crc S m txn r =
     (let (l, m1) = wal_append crc S m r in (l, m1\<lparr>wal_active := fmdrop txn (wal_active m1)\<rparr>))"

definition finish_commit ::
  "(bytes \<Rightarrow> u32) \<Rightarrow> 's sink_ops \<Rightarrow> 's wal_manager \<Rightarrow> txn_id \<Rightarrow> log_record \<Rightarrow>
     (wal_error + lsn) \<times> 's wal_manager" where
  "finish_commit crc S m txn r =
     (let (l, m1) = append_commit_record crc S m txn r
      in case harden S m1 of (Inl e, m2) \<Rightarrow> (Inl e, m2) | (Inr _, m2) \<Rightarrow> (Inr l, m2))"

definition wal_commit ::
  "(bytes \<Rightarrow> u32) \<Rightarrow> 's sink_ops \<Rightarrow> 's wal_manager \<Rightarrow> txn_id \<Rightarrow> (wal_error + lsn) \<times> 's wal_manager" where
  "wal_commit crc S m txn =
     (case commit_prev_lsn m txn of
        Inl e \<Rightarrow> (Inl e, m)
      | Inr prev \<Rightarrow> finish_commit crc S m txn ((log_record_new RCommit txn 0)\<lparr>prev_lsn := prev\<rparr>))"

definition commit_at ::
  "(bytes \<Rightarrow> u32) \<Rightarrow> 's sink_ops \<Rightarrow> 's wal_manager \<Rightarrow> txn_id \<Rightarrow> timestamp \<Rightarrow>
     (wal_error + lsn) \<times> 's wal_manager" where
  "commit_at crc S m txn ts =
     (case commit_prev_lsn m txn of
        Inl e \<Rightarrow> (Inl e, m)
      | Inr prev \<Rightarrow> finish_commit crc S m txn (log_record_commit txn prev ts))"

definition commit_at_no_sync ::
  "(bytes \<Rightarrow> u32) \<Rightarrow> 's sink_ops \<Rightarrow> 's wal_manager \<Rightarrow> txn_id \<Rightarrow> timestamp \<Rightarrow>
     (wal_error + lsn) \<times> 's wal_manager" where
  "commit_at_no_sync crc S m txn ts =
     (case commit_prev_lsn m txn of
        Inl e \<Rightarrow> (Inl e, m)
      | Inr prev \<Rightarrow>
          (let (l, m1) = append_commit_record crc S m txn (log_record_commit txn prev ts) in (Inr l, m1)))"

definition write_clr ::
  "(bytes \<Rightarrow> u32) \<Rightarrow> 's sink_ops \<Rightarrow> 's wal_manager \<Rightarrow> txn_id \<Rightarrow> page_id \<Rightarrow> lsn \<Rightarrow> bytes \<Rightarrow> lsn \<Rightarrow>
     lsn \<times> 's wal_manager" where
  "write_clr crc S m txn page compensated img undo_next =
     wal_append crc S m ((log_record_new RClr txn page)\<lparr>prev_lsn := compensated,
       undo_next_lsn := undo_next, redo := img\<rparr>)"

definition write_end ::
  "(bytes \<Rightarrow> u32) \<Rightarrow> 's sink_ops \<Rightarrow> 's wal_manager \<Rightarrow> txn_id \<Rightarrow> lsn \<times> 's wal_manager" where
  "write_end crc S m txn = wal_append crc S m (log_record_new RAbort txn 0)"

definition next_undo_page :: "'s wal_manager \<Rightarrow> txn_id \<Rightarrow> page_id option" where
  "next_undo_page m txn =
     (case fmlookup (wal_active m) txn of
        None \<Rightarrow> None
      | Some st \<Rightarrow> if undo_chain st = [] then None else Some (ue_page (last (undo_chain st))))"

definition undo_chain_len :: "'s wal_manager \<Rightarrow> txn_id \<Rightarrow> nat" where
  "undo_chain_len m txn =
     (case fmlookup (wal_active m) txn of None \<Rightarrow> 0 | Some st \<Rightarrow> length (undo_chain st))"

definition compensate_next ::
  "(bytes \<Rightarrow> u32) \<Rightarrow> 's sink_ops \<Rightarrow> 's wal_manager \<Rightarrow> txn_id \<Rightarrow>
     (page_id \<times> lsn \<times> bytes) option \<times> 's wal_manager" where
  "compensate_next crc S m txn =
     (case fmlookup (wal_active m) txn of
        None \<Rightarrow> (None, m)
      | Some st \<Rightarrow>
          if undo_chain st = [] then (None, m)
          else let e = last (undo_chain st);
                   m1 = m\<lparr>wal_active := fmupd txn (st\<lparr>undo_chain := butlast (undo_chain st)\<rparr>) (wal_active m)\<rparr>;
                   (l, m2) = write_clr crc S m1 txn (ue_page e) (ue_lsn e) (ue_undo e) (ue_prev e)
               in (Some (ue_page e, l, ue_undo e), m2))"

definition finish_rollback ::
  "(bytes \<Rightarrow> u32) \<Rightarrow> 's sink_ops \<Rightarrow> 's wal_manager \<Rightarrow> txn_id \<Rightarrow> (wal_error + unit) \<times> 's wal_manager" where
  "finish_rollback crc S m txn =
     (case fmlookup (wal_active m) txn of
        None \<Rightarrow> (Inr (), m)
      | Some st \<Rightarrow>
          let m1 = m\<lparr>wal_active := fmdrop txn (wal_active m)\<rparr>;
              (l, m2) = wal_append crc S m1 (log_record_new RAbort txn 0)
          in harden S m2)"

definition wal_abort ::
  "(bytes \<Rightarrow> u32) \<Rightarrow> 's sink_ops \<Rightarrow> 's wal_manager \<Rightarrow> txn_id \<Rightarrow> (wal_error + unit) \<times> 's wal_manager" where
  "wal_abort crc S m txn =
     (if fmlookup (wal_active m) txn = None then (Inr (), m)
      else let m1 = m\<lparr>wal_active := fmdrop txn (wal_active m)\<rparr>;
               (l, m2) = wal_append crc S m1 (log_record_new RAbort txn 0)
           in harden S m2)"

lemma undo_chain_len_compensate:
  "compensate_next crc S m txn = (Some x, m') \<Longrightarrow> undo_chain_len m' txn < undo_chain_len m txn"
  by (auto simp: compensate_next_def undo_chain_len_def Let_def write_clr_def wal_append_def
      split: option.splits if_splits prod.splits)

function rollback_loop ::
  "(bytes \<Rightarrow> u32) \<Rightarrow> 's sink_ops \<Rightarrow> 't apply_ops \<Rightarrow> 's wal_manager \<Rightarrow> txn_id \<Rightarrow> 't \<Rightarrow>
     (wal_error + unit) \<times> 's wal_manager \<times> 't" where
  "rollback_loop crc S T m txn t =
     (case compensate_next crc S m txn of
        (None, m1) \<Rightarrow> (Inr (), m1, t)
      | (Some (page, l, img), m1) \<Rightarrow>
          (case apply_image T t page l img of
             (Inl e, t1) \<Rightarrow> (Inl e, m1, t1)
           | (Inr _, t1) \<Rightarrow> rollback_loop crc S T m1 txn t1))"
  by pat_completeness auto
termination
  by (relation "measure (\<lambda>(crc, S, T, m, txn, t). undo_chain_len m txn)")
    (auto dest: undo_chain_len_compensate [OF sym])

declare rollback_loop.simps [simp del]

definition wal_rollback ::
  "(bytes \<Rightarrow> u32) \<Rightarrow> 's sink_ops \<Rightarrow> 't apply_ops \<Rightarrow> 's wal_manager \<Rightarrow> txn_id \<Rightarrow> 't \<Rightarrow>
     (wal_error + unit) \<times> 's wal_manager \<times> 't" where
  "wal_rollback crc S T m txn t =
     (case rollback_loop crc S T m txn t of
        (Inl e, m1, t1) \<Rightarrow> (Inl e, m1, t1)
      | (Inr _, m1, t1) \<Rightarrow> (let (r, m2) = finish_rollback crc S m1 txn in (r, m2, t1)))"

definition wal_checkpoint ::
  "(bytes \<Rightarrow> u32) \<Rightarrow> 's sink_ops \<Rightarrow> 's wal_manager \<Rightarrow> (page_id \<times> lsn) list \<Rightarrow>
     (wal_error + lsn) \<times> 's wal_manager" where
  "wal_checkpoint crc S m dpt =
     (let (_, m1) = wal_append crc S m (log_record_new RCheckpointBegin 0 0);
          snap = \<lparr>dirty_pages = dpt,
                  active_txns = map (\<lambda>t. (t, txn_last_lsn m1 t)) (sorted_list_of_fset (fmdom (wal_active m1)))\<rparr>;
          (l, m2) = wal_append crc S m1 ((log_record_new RCheckpointEnd 0 0)\<lparr>redo := checkpoint_encode snap\<rparr>)
      in case harden S m2 of (Inl e, m3) \<Rightarrow> (Inl e, m3) | (Inr _, m3) \<Rightarrow> (Inr l, m3))"

definition oldest_active_first_lsn :: "'s wal_manager \<Rightarrow> lsn option" where
  "oldest_active_first_lsn m =
     min_lsn (map (\<lambda>t. first_lsn (the (fmlookup (wal_active m) t))) (sorted_list_of_fset (fmdom (wal_active m))))"

definition wal_reclaim :: "'s sink_ops \<Rightarrow> 's wal_manager \<Rightarrow> lsn \<Rightarrow> 's wal_manager" where
  "wal_reclaim S m up_to =
     (let floor = (case oldest_active_first_lsn m of None \<Rightarrow> up_to | Some oldest \<Rightarrow> min up_to oldest)
      in m\<lparr>wal_sink := sk_reclaim S (wal_sink m) HEADER_LEN (unat floor)\<rparr>)"

definition wal_is_active :: "'s wal_manager \<Rightarrow> txn_id \<Rightarrow> bool" where
  "wal_is_active m txn \<longleftrightarrow> txn |\<in>| fmdom (wal_active m)"

definition retained_undo_bytes :: "'s wal_manager \<Rightarrow> nat" where
  "retained_undo_bytes m =
     sum_list (map (\<lambda>t. sum_list (map (length \<circ> ue_undo) (undo_chain (the (fmlookup (wal_active m) t)))))
       (sorted_list_of_fset (fmdom (wal_active m))))"

definition ensure_durable :: "'s sink_ops \<Rightarrow> 's wal_manager \<Rightarrow> lsn \<Rightarrow> (wal_error + unit) \<times> 's wal_manager" where
  "ensure_durable S m up_to =
     (if sk_durable_len S (wal_sink m) \<le> unat up_to then harden S m else (Inr (), m))"

definition wal_flush :: "'s sink_ops \<Rightarrow> 's wal_manager \<Rightarrow> (wal_error + unit) \<times> 's wal_manager" where
  "wal_flush S m = harden S m"

definition wal_begin_harden ::
  "'s sink_ops \<Rightarrow> 's wal_manager \<Rightarrow> (wal_error + fsync_job) \<times> 's wal_manager" where
  "wal_begin_harden S m =
     (let (r, s') = sk_begin_harden S (wal_sink m) in (r, m\<lparr>wal_sink := s'\<rparr>))"

definition wal_complete_harden :: "'s sink_ops \<Rightarrow> 's wal_manager \<Rightarrow> nat \<Rightarrow> 's wal_manager" where
  "wal_complete_harden S m n = m\<lparr>wal_sink := sk_complete_harden S (wal_sink m) n\<rparr>"

subsection \<open>Reading the log back\<close>

abbreviation wal_rd :: "'s sink_ops \<Rightarrow> 's wal_manager \<Rightarrow> nat \<Rightarrow> nat \<Rightarrow> bytes" where
  "wal_rd S m \<equiv> sk_read_bounded S (wal_sink m)"

definition on_commit :: "(txn_id \<times> timestamp \<times> lsn) list on_record" where
  "on_commit r pos out =
     (Inr (), case record_commit_ts r of
        Some ts \<Rightarrow> if rec_type r = RCommit then out @ [(rec_txn r, ts, rec_lsn r)] else out
      | None \<Rightarrow> out)"

definition committed_transactions ::
  "(bytes \<Rightarrow> u32) \<Rightarrow> 's sink_ops \<Rightarrow> 's wal_manager \<Rightarrow> (wal_error + (txn_id \<times> timestamp \<times> lsn) list) option" where
  "committed_transactions crc S m =
     (let base = max HEADER_LEN (sk_reclaimed_floor S (wal_sink m));
          durable = sk_durable_len S (wal_sink m);
          window = RECOVERY_WINDOW_BYTES
      in case find_first_record_offset crc (wal_rd S m) durable window base of
           None \<Rightarrow> None
         | Some (Inl e) \<Rightarrow> Some (Inl e)
         | Some (Inr None) \<Rightarrow> Some (Inr [])
         | Some (Inr (Some start)) \<Rightarrow>
             (case scan_forward crc (wal_rd S m) on_commit True durable window start window [] of
                None \<Rightarrow> None
              | Some (Inl e, _) \<Rightarrow> Some (Inl e)
              | Some (Inr (ScanInteriorCorruption at nx), _) \<Rightarrow> Some (Inl (InteriorLogCorruption at nx))
              | Some (Inr _, out) \<Rightarrow> Some (Inr out)))"

definition on_max_id :: "txn_id on_record" where
  "on_max_id r pos mx =
     (Inr (), if rec_txn r \<noteq> 0 \<and> rec_txn r \<noteq> - 1 then max mx (rec_txn r) else mx)"

definition max_recovered_txn_id ::
  "(bytes \<Rightarrow> u32) \<Rightarrow> 's sink_ops \<Rightarrow> 's wal_manager \<Rightarrow> (wal_error + txn_id) option" where
  "max_recovered_txn_id crc S m =
     (let base = max HEADER_LEN (sk_reclaimed_floor S (wal_sink m));
          durable = sk_durable_len S (wal_sink m);
          window = RECOVERY_WINDOW_BYTES
      in case find_first_record_offset crc (wal_rd S m) durable window base of
           None \<Rightarrow> None
         | Some (Inl e) \<Rightarrow> Some (Inl e)
         | Some (Inr None) \<Rightarrow> Some (Inr 0)
         | Some (Inr (Some start)) \<Rightarrow>
             (case scan_forward crc (wal_rd S m) on_max_id False durable window start window 0 of
                None \<Rightarrow> None
              | Some (Inl e, _) \<Rightarrow> Some (Inl e)
              | Some (Inr _, mx) \<Rightarrow> Some (Inr mx)))"

end
