(* ===== verification/Recovery.thy ===== *)
theory Recovery
  imports Wal_Manager
begin

text \<open>
  Three-phase recovery, \<^verbatim>\<open>crates/graphus-wal/src/recovery.rs\<close>: analysis and redo are scans of the
  durable log, undo follows the back-chains of the losers with one record read at a time, newest
  first over all losers.

  The loser set comes out of a \<^verbatim>\<open>HashMap\<close>, whose iteration order is unspecified: it is the parameter
  \<open>order\<close>. The \<^verbatim>\<open>BinaryHeap\<close> is a list in descending order. The undo loop ends only if the back links
  of the log descend, so it is a partial function.
\<close>

record recovery_report =
  records_scanned :: nat
  redo_start :: lsn
  redo_applied :: nat
  losers :: nat
  clrs_written :: nat
  tail_truncated :: bool

subsection \<open>Analysis\<close>

record analysis =
  an_committed :: "u64 fset"
  an_ended :: "u64 fset"
  an_txn_last :: "(u64, lsn) fmap"
  an_checkpoint :: "checkpoint_snapshot option"
  an_checkpoint_lsn :: "lsn option"
  an_scanned :: nat

definition analysis_new :: analysis where
  "analysis_new = \<lparr>an_committed = {||}, an_ended = {||}, an_txn_last = fmempty, an_checkpoint = None,
     an_checkpoint_lsn = None, an_scanned = 0\<rparr>"

definition analyse :: "log_record \<Rightarrow> analysis \<Rightarrow> analysis" where
  "analyse r a =
     (let a1 = a\<lparr>an_scanned := an_scanned a + 1\<rparr>;
          a2 = (case rec_type r of
                  RCommit \<Rightarrow> a1\<lparr>an_committed := finsert (rec_txn r) (an_committed a1)\<rparr>
                | RAbort \<Rightarrow> a1\<lparr>an_ended := finsert (rec_txn r) (an_ended a1)\<rparr>
                | RCheckpointEnd \<Rightarrow>
                    (case checkpoint_decode (redo r) of
                       Some s \<Rightarrow> a1\<lparr>an_checkpoint := Some s, an_checkpoint_lsn := Some (rec_lsn r)\<rparr>
                     | None \<Rightarrow> a1)
                | _ \<Rightarrow> a1)
      in if rec_txn r \<noteq> 0 then a2\<lparr>an_txn_last := fmupd (rec_txn r) (rec_lsn r) (an_txn_last a2)\<rparr> else a2)"

definition on_analysis :: "analysis on_record" where
  "on_analysis r pos a = (Inr (), analyse r a)"

definition redo_start_of :: "analysis \<Rightarrow> lsn" where
  "redo_start_of a =
     (case Option.bind (an_checkpoint a) checkpoint_redo_start of
        Some l \<Rightarrow> l
      | None \<Rightarrow> (case an_checkpoint_lsn a of Some l \<Rightarrow> l | None \<Rightarrow> of_nat HEADER_LEN))"

definition loser_set :: "analysis \<Rightarrow> u64 fset" where
  "loser_set a = ffilter (\<lambda>t. t |\<notin>| an_committed a \<and> t |\<notin>| an_ended a) (fmdom (an_txn_last a))"

subsection \<open>Redo\<close>

definition on_redo :: "'t apply_ops \<Rightarrow> lsn \<Rightarrow> ('t \<times> nat) on_record" where
  "on_redo T start r pos tn =
     (let (t, n) = tn
      in if start \<le> rec_lsn r \<and> is_page_change (rec_type r) \<and> redo r \<noteq> [] \<and>
            page_lsn T t (rec_page r) < rec_lsn r
         then (case apply_image T t (rec_page r) (rec_lsn r) (redo r) of
                 (Inl e, t') \<Rightarrow> (Inl e, t', n)
               | (Inr _, t') \<Rightarrow> (Inr (), t', n + 1))
         else (Inr (), t, n))"

subsection \<open>Undo\<close>

definition saturating_add_u64 :: "nat \<Rightarrow> nat \<Rightarrow> nat" where
  "saturating_add_u64 a b = min (a + b) (2 ^ 64 - 1)"

definition read_record_at ::
  "(bytes \<Rightarrow> u32) \<Rightarrow> 's sink_ops \<Rightarrow> 's wal_manager \<Rightarrow> lsn \<Rightarrow> wal_error + log_record" where
  "read_record_at crc S m l =
     (let p = unat l;
          hdr = wal_rd S m p (saturating_add_u64 p 4)
      in if length hdr < 4 then Inl (UndoTruncated p)
      else let total_len = unat (from_le (bslice 0 4 hdr) :: u32);
               buf = wal_rd S m p (saturating_add_u64 p total_len)
      in case decode crc buf of
           Inl e \<Rightarrow> Inl (UndoNotARecord p e)
         | Inr (r, _) \<Rightarrow> Inr r)"

primrec heap_push :: "lsn \<Rightarrow> lsn list \<Rightarrow> lsn list" where
  "heap_push x [] = [x]"
| "heap_push x (y # ys) = (if y \<le> x then x # y # ys else y # heap_push x ys)"

definition heap_push_link :: "lsn \<Rightarrow> lsn list \<Rightarrow> lsn list" where
  "heap_push_link l h = (if l \<noteq> 0 then heap_push l h else h)"

partial_function (option) undo_loop ::
  "(bytes \<Rightarrow> u32) \<Rightarrow> 's sink_ops \<Rightarrow> 't apply_ops \<Rightarrow> nat \<Rightarrow> lsn list \<Rightarrow> 's wal_manager \<Rightarrow> 't \<Rightarrow> nat \<Rightarrow>
     ((wal_error + nat) \<times> 's wal_manager \<times> 't) option" where
  "undo_loop crc S T undo_floor h m t clrs =
     (case h of
        [] \<Rightarrow> Some (Inr clrs, m, t)
      | l # h1 \<Rightarrow>
          if unat l < undo_floor then undo_loop crc S T undo_floor h1 m t clrs
          else case read_record_at crc S m l of
            Inl e \<Rightarrow> Some (Inl e, m, t)
          | Inr r \<Rightarrow>
              if rec_type r = RClr
              then undo_loop crc S T undo_floor (heap_push_link (undo_next_lsn r) h1) m t clrs
              else if is_undoable_action (rec_type r)
              then (let (cl, m1) = write_clr crc S m (rec_txn r) (rec_page r) (rec_lsn r) (undo r) (prev_lsn r)
                    in case (if undo r \<noteq> [] then apply_image T t (rec_page r) cl (undo r) else (Inr (), t)) of
                         (Inl e, t1) \<Rightarrow> Some (Inl e, m1, t1)
                       | (Inr _, t1) \<Rightarrow>
                           undo_loop crc S T undo_floor (heap_push_link (prev_lsn r) h1) m1 t1 (clrs + 1))
              else undo_loop crc S T undo_floor (heap_push_link (prev_lsn r) h1) m t clrs)"

declare undo_loop.simps [code]

definition initial_heap :: "analysis \<Rightarrow> u64 list \<Rightarrow> lsn list" where
  "initial_heap a ts =
     fold (\<lambda>t h. case fmlookup (an_txn_last a) t of Some l \<Rightarrow> heap_push_link l h | None \<Rightarrow> h) ts []"

definition write_ends ::
  "(bytes \<Rightarrow> u32) \<Rightarrow> 's sink_ops \<Rightarrow> u64 list \<Rightarrow> 's wal_manager \<Rightarrow> 's wal_manager" where
  "write_ends crc S ts m = fold (\<lambda>t m. snd (write_end crc S m t)) ts m"

subsection \<open>The three phases\<close>

definition run_analysis ::
  "(bytes \<Rightarrow> u32) \<Rightarrow> (nat \<Rightarrow> nat \<Rightarrow> bytes) \<Rightarrow> nat \<Rightarrow> nat \<Rightarrow> nat option \<Rightarrow> (wal_error + analysis \<times> bool) option" where
  "run_analysis crc rd durable_len window first =
     (case first of
        None \<Rightarrow> Some (Inr (analysis_new, False))
      | Some start \<Rightarrow>
          (case scan_forward crc rd on_analysis True durable_len window start window analysis_new of
             None \<Rightarrow> None
           | Some (Inl e, _) \<Rightarrow> Some (Inl e)
           | Some (Inr ScanComplete, a) \<Rightarrow> Some (Inr (a, False))
           | Some (Inr ScanTornTail, a) \<Rightarrow> Some (Inr (a, True))
           | Some (Inr (ScanInteriorCorruption at nx), _) \<Rightarrow> Some (Inl (InteriorLogCorruption at nx))))"

definition run_redo ::
  "(bytes \<Rightarrow> u32) \<Rightarrow> (nat \<Rightarrow> nat \<Rightarrow> bytes) \<Rightarrow> 't apply_ops \<Rightarrow> lsn \<Rightarrow> nat \<Rightarrow> nat \<Rightarrow> nat option \<Rightarrow> 't \<Rightarrow>
     ((wal_error + nat) \<times> 't) option" where
  "run_redo crc rd T start_lsn durable_len window first t =
     (case first of
        None \<Rightarrow> Some (Inr 0, t)
      | Some start \<Rightarrow>
          (case scan_forward crc rd (on_redo T start_lsn) False durable_len window start window (t, 0) of
             None \<Rightarrow> None
           | Some (Inl e, t', _) \<Rightarrow> Some (Inl e, t')
           | Some (Inr _, t', n) \<Rightarrow> Some (Inr n, t')))"

definition run_undo ::
  "(bytes \<Rightarrow> u32) \<Rightarrow> 's sink_ops \<Rightarrow> 't apply_ops \<Rightarrow> nat \<Rightarrow> analysis \<Rightarrow> u64 list \<Rightarrow> 's wal_manager \<Rightarrow> 't \<Rightarrow>
     ((wal_error + nat) \<times> 's wal_manager \<times> 't) option" where
  "run_undo crc S T undo_floor a ls m t =
     (case undo_loop crc S T undo_floor (initial_heap a ls) m t 0 of
        None \<Rightarrow> None
      | Some (Inl e, m1, t1) \<Rightarrow> Some (Inl e, m1, t1)
      | Some (Inr clrs, m1, t1) \<Rightarrow>
          (case wal_flush S (write_ends crc S ls m1) of
             (Inl e, m2) \<Rightarrow> Some (Inl e, m2, t1)
           | (Inr _, m2) \<Rightarrow> Some (Inr clrs, m2, t1)))"

definition recover_from_windowed ::
  "(bytes \<Rightarrow> u32) \<Rightarrow> 's sink_ops \<Rightarrow> 't apply_ops \<Rightarrow> (u64 fset \<Rightarrow> u64 list) \<Rightarrow> 's wal_manager \<Rightarrow> 't \<Rightarrow>
     lsn \<Rightarrow> nat \<Rightarrow> ((wal_error + recovery_report) \<times> 's wal_manager \<times> 't) option" where
  "recover_from_windowed crc S T order m t scan_start window =
     (let base = max (max (unat scan_start) HEADER_LEN) (sk_reclaimed_floor S (wal_sink m));
          durable_len = sk_durable_len S (wal_sink m)
      in case find_first_record_offset crc (wal_rd S m) durable_len window base of
           None \<Rightarrow> None
         | Some (Inl e) \<Rightarrow> Some (Inl e, m, t)
         | Some (Inr first) \<Rightarrow>
       (case run_analysis crc (wal_rd S m) durable_len window first of
           None \<Rightarrow> None
         | Some (Inl e) \<Rightarrow> Some (Inl e, m, t)
         | Some (Inr (a, truncated)) \<Rightarrow>
       (case run_redo crc (wal_rd S m) T (redo_start_of a) durable_len window first t of
           None \<Rightarrow> None
         | Some (Inl e, t1) \<Rightarrow> Some (Inl e, m, t1)
         | Some (Inr n, t1) \<Rightarrow>
             (let ls = order (loser_set a);
                  undo_floor = (case first of Some start \<Rightarrow> start | None \<Rightarrow> base)
              in case run_undo crc S T undo_floor a ls m t1 of
                   None \<Rightarrow> None
                 | Some (Inl e, m2, t2) \<Rightarrow> Some (Inl e, m2, t2)
                 | Some (Inr clrs, m2, t2) \<Rightarrow>
                     Some (Inr \<lparr>records_scanned = an_scanned a, redo_start = redo_start_of a,
                       redo_applied = n, losers = length ls, clrs_written = clrs,
                       tail_truncated = truncated\<rparr>, m2, t2)))))"

definition recover_from ::
  "(bytes \<Rightarrow> u32) \<Rightarrow> 's sink_ops \<Rightarrow> 't apply_ops \<Rightarrow> (u64 fset \<Rightarrow> u64 list) \<Rightarrow> 's wal_manager \<Rightarrow> 't \<Rightarrow>
     lsn \<Rightarrow> ((wal_error + recovery_report) \<times> 's wal_manager \<times> 't) option" where
  "recover_from crc S T order m t scan_start =
     recover_from_windowed crc S T order m t scan_start RECOVERY_WINDOW_BYTES"

definition recover ::
  "(bytes \<Rightarrow> u32) \<Rightarrow> 's sink_ops \<Rightarrow> 't apply_ops \<Rightarrow> (u64 fset \<Rightarrow> u64 list) \<Rightarrow> 's wal_manager \<Rightarrow> 't \<Rightarrow>
     ((wal_error + recovery_report) \<times> 's wal_manager \<times> 't) option" where
  "recover crc S T order m t = recover_from crc S T order m t (of_nat HEADER_LEN)"

end
