(* ===== verification/Wal_Log.thy ===== *)
theory Wal_Log
  imports Recovery
begin

text \<open>
  Well-formed logs: a list of records whose LSNs are the byte offsets they are written at. The scans
  over an image that holds such a list are folds over the list, and a read at an LSN of the list
  returns that record.
\<close>

abbreviation record_bytes :: "(bytes \<Rightarrow> u32) \<Rightarrow> log_record \<Rightarrow> bytes" where
  "record_bytes crc r \<equiv> encode crc r (rec_lsn r)"

definition log_image :: "(bytes \<Rightarrow> u32) \<Rightarrow> log_record list \<Rightarrow> bytes" where
  "log_image crc rs = concat (map (record_bytes crc) rs)"

definition log_len :: "log_record list \<Rightarrow> nat" where
  "log_len rs = sum_list (map encoded_len rs)"

primrec log_ok :: "nat \<Rightarrow> log_record list \<Rightarrow> bool" where
  "log_ok off [] \<longleftrightarrow> True"
| "log_ok off (r # rs) \<longleftrightarrow> unat (rec_lsn r) = off \<and> encoded_len r < 2 ^ 32 \<and> log_ok (off + encoded_len r) rs"

text \<open>The callback run over the records, ending at its first error.\<close>

primrec run_records :: "'a on_record \<Rightarrow> log_record list \<Rightarrow> 'a \<Rightarrow> (wal_error + unit) \<times> 'a" where
  "run_records f [] a = (Inr (), a)"
| "run_records f (r # rs) a =
     (case f r (unat (rec_lsn r)) a of (Inl e, a') \<Rightarrow> (Inl e, a') | (Inr _, a') \<Rightarrow> run_records f rs a')"

lemma log_image_simps [simp]:
  "log_image crc [] = []" "log_image crc (r # rs) = record_bytes crc r @ log_image crc rs"
  "log_image crc (rs @ rs') = log_image crc rs @ log_image crc rs'"
  by (simp_all add: log_image_def)

lemma log_len_simps [simp]:
  "log_len [] = 0" "log_len (r # rs) = encoded_len r + log_len rs" "log_len (rs @ rs') = log_len rs + log_len rs'"
  by (simp_all add: log_len_def)

lemma length_log_image [simp]: "length (log_image crc rs) = log_len rs"
  by (induction rs) (simp_all add: length_encode)

lemma log_ok_append: "log_ok off (rs @ rs') \<longleftrightarrow> log_ok off rs \<and> log_ok (off + log_len rs) rs'"
  by (induction rs arbitrary: off) (auto simp: add.assoc)

lemma encoded_len_pos [simp]: "0 < encoded_len r"
  by (simp add: encoded_len_def offsets)

lemma log_ok_bounds: "log_ok off rs \<Longrightarrow> r \<in> set rs \<Longrightarrow> off \<le> unat (rec_lsn r) \<and> unat (rec_lsn r) < off + log_len rs"
proof (induction rs arbitrary: off)
  case (Cons r' rs)
  then show ?case using encoded_len_pos [of r'] by (auto dest: Cons.IH)
qed simp

lemma log_ok_sorted: "log_ok off rs \<Longrightarrow> sorted_wrt (<) (map rec_lsn rs)"
proof (induction rs arbitrary: off)
  case (Cons r rs)
  then have "rec_lsn r < rec_lsn q" if "q \<in> set rs" for q
    using log_ok_bounds [of "off + encoded_len r" rs q] that encoded_len_pos [of r]
    unfolding word_less_nat_alt by (auto intro: less_le_trans [of _ "off + encoded_len r"] simp del: encoded_len_pos)
  then show ?case using Cons by auto
qed simp

lemma log_ok_inj: "log_ok off rs \<Longrightarrow> inj_on rec_lsn (set rs)"
  using distinct_map strict_sorted_iff log_ok_sorted by blast

lemma log_ok_distinct: "log_ok off rs \<Longrightarrow> distinct rs"
  using distinct_map strict_sorted_iff log_ok_sorted by blast

subsection \<open>Images that hold a log\<close>

definition holds_log :: "(bytes \<Rightarrow> u32) \<Rightarrow> bytes \<Rightarrow> nat \<Rightarrow> log_record list \<Rightarrow> bytes \<Rightarrow> bool" where
  "holds_log crc im off rs rest \<longleftrightarrow> log_ok off rs \<and> off \<le> length im \<and> drop off im = log_image crc rs @ rest"

lemma holds_log_length: "holds_log crc im off rs rest \<Longrightarrow> length im = off + log_len rs + length rest"
  using length_drop [of off im] by (auto simp: holds_log_def)

lemma holds_log_Cons:
  assumes "holds_log crc im off (r # rs) rest"
  shows "decode crc (drop off im) = Inr (r, encoded_len r)" "holds_log crc im (off + encoded_len r) rs rest"
proof -
  have d: "drop off im = record_bytes crc r @ log_image crc rs @ rest" and r: "encoded_len r < 2 ^ 32"
    using assms by (auto simp: holds_log_def)
  show "decode crc (drop off im) = Inr (r, encoded_len r)" using decode_encode [OF r, of crc "rec_lsn r"] d by simp
  have "drop (off + encoded_len r) im = drop (encoded_len r) (drop off im)" by (simp add: add.commute)
  then have "drop (off + encoded_len r) im = log_image crc rs @ rest"
    unfolding d by (simp add: length_encode)
  moreover have "off + encoded_len r \<le> length im" using holds_log_length [OF assms] by simp
  ultimately show "holds_log crc im (off + encoded_len r) rs rest" using assms by (simp add: holds_log_def)
qed

lemma holds_log_decode:
  "holds_log crc im off rs rest \<Longrightarrow> r \<in> set rs \<Longrightarrow> decode crc (drop (unat (rec_lsn r)) im) = Inr (r, encoded_len r)"
proof (induction rs arbitrary: off)
  case (Cons r' rs)
  have "unat (rec_lsn r') = off" using Cons.prems(1) by (simp add: holds_log_def)
  then show ?case using Cons.IH [OF holds_log_Cons(2) [OF Cons.prems(1)]] holds_log_Cons(1) [OF Cons.prems(1)] Cons.prems(2)
    by auto
qed simp

lemma scan_all_log:
  "holds_log crc im off rs rest \<Longrightarrow> scan_all crc f im probe off a =
     (case run_records f rs a of
        (Inl e, a') \<Rightarrow> (Inl e, a')
      | (Inr _, a') \<Rightarrow> scan_all crc f im probe (off + log_len rs) a')"
proof (induction rs arbitrary: off a)
  case (Cons r rs)
  note h = holds_log_Cons [OF Cons.prems]
  have "\<not> length im \<le> off" "unat (rec_lsn r) = off"
    using holds_log_length [OF Cons.prems] Cons.prems encoded_len_pos [of r] by (simp_all add: holds_log_def)
  then show ?case using h(1) Cons.IH [OF h(2)]
    by (subst scan_all.simps) (simp add: add.assoc split: prod.splits sum.splits)
qed simp

text \<open>The end of the log: nothing, or an incomplete append with no record behind it.\<close>

definition torn_tail :: "(bytes \<Rightarrow> u32) \<Rightarrow> bytes \<Rightarrow> nat \<Rightarrow> bool" where
  "torn_tail crc im pos \<longleftrightarrow> pos < length im \<and> isl (decode crc (drop pos im)) \<and>
     (\<forall>q \<in> {pos + 1..<length im}. \<not> self_consistent crc im q)"

definition clean_end :: "(bytes \<Rightarrow> u32) \<Rightarrow> bytes \<Rightarrow> nat \<Rightarrow> bool" where
  "clean_end crc im pos \<longleftrightarrow> pos = length im \<or> torn_tail crc im pos"

lemma scan_all_end:
  assumes "clean_end crc im pos"
  shows "scan_all crc f im probe pos a = (Inr (if pos = length im then ScanComplete else ScanTornTail), a)"
proof (cases "pos = length im")
  case True
  then show ?thesis by (simp add: scan_all.simps)
next
  case False
  then have t: "pos < length im" "isl (decode crc (drop pos im))"
    "\<forall>q \<in> {pos + 1..<length im}. \<not> self_consistent crc im q"
    using assms by (auto simp: clean_end_def torn_tail_def)
  have "find (self_consistent crc im) [pos + 1..<length im] = None"
    using t(3) by (auto simp: find_None_iff)
  then have "tail_verdict crc im probe pos = ScanTornTail" by (simp add: tail_verdict_def)
  then show ?thesis using t False by (subst scan_all.simps) (auto split: sum.splits)
qed

lemma scan_forward_log:
  assumes rd: "reads_image rd im" and L: "length im < 2 ^ 63" and w: "0 < window"
    and h: "holds_log crc im off rs rest" and e: "clean_end crc im (off + log_len rs)"
  shows "scan_forward crc rd f probe (length im) window off window a =
    Some (case run_records f rs a of
        (Inl e, a') \<Rightarrow> (Inl e, a')
      | (Inr _, a') \<Rightarrow> (Inr (if rest = [] then ScanComplete else ScanTornTail), a'))"
proof -
  have "off + log_len rs = length im \<longleftrightarrow> rest = []" using holds_log_length [OF h] by auto
  then show ?thesis unfolding scan_forward_eq [OF rd L w w] scan_all_log [OF h] scan_all_end [OF e]
    by (simp split: prod.splits sum.splits)
qed

lemma find_first_record_offset_log:
  assumes rd: "reads_image rd im" and L: "length im < 2 ^ 63" and w: "4 \<le> window"
    and h: "holds_log crc im off rs rest" and e: "rs = [] \<Longrightarrow> rest = []"
  shows "find_first_record_offset crc rd (length im) window off =
    Some (Inr (if rs = [] then None else Some off))"
proof (cases rs)
  case Nil
  then have "length im \<le> off" using holds_log_length [OF h] e by simp
  then show ?thesis using Nil by (simp only: find_first_record_offset_end) simp
next
  case (Cons r rs')
  then show ?thesis using find_first_record_offset_at [OF rd L w] holds_log_Cons(1) h by auto
qed

lemma run_records_total:
  "(\<And>r pos a. f r pos a = (Inr (), g r a)) \<Longrightarrow> run_records f rs a = (Inr (), fold g rs a)"
  by (induction rs arbitrary: a) simp_all

end
