(* ===== verification/Recovery_Spec.thy ===== *)
theory Recovery_Spec
  imports Wal_Log "HOL-Library.Multiset"
begin

text \<open>
  What recovery does to a well-formed log, as folds over its records, and the proof that the windowed
  scans and the heap-driven undo loop of \<^verbatim>\<open>recover_from_windowed\<close> compute exactly that.
\<close>

subsection \<open>The undo work a log owes\<close>

text \<open>Where the undo pass goes after a record.\<close>

definition undo_link :: "log_record \<Rightarrow> lsn" where
  "undo_link r = (if rec_type r = RClr then undo_next_lsn r else prev_lsn r)"

text \<open>The actions on the back-chain from an LSN, newest first; compensated ones are jumped over.\<close>

function owed :: "log_record list \<Rightarrow> lsn \<Rightarrow> log_record list" where
  "owed rs l =
     (case find (\<lambda>r. rec_lsn r = l) rs of
        None \<Rightarrow> []
      | Some r \<Rightarrow>
          (if is_undoable_action (rec_type r) then [r] else []) @
          (if undo_link r < l then owed rs (undo_link r) else []))"
  by pat_completeness auto
termination by (relation "measure (\<lambda>(rs, l). unat l)") (auto simp: word_less_nat_alt)

declare owed.simps [simp del]

definition undo_order :: "log_record list \<Rightarrow> log_record list" where
  "undo_order us = rev (sort_key rec_lsn us)"

definition owed_by :: "log_record list \<Rightarrow> analysis \<Rightarrow> u64 list \<Rightarrow> log_record list" where
  "owed_by rs a ls =
     concat (map (\<lambda>t. case fmlookup (an_txn_last a) t of Some l \<Rightarrow> owed rs l | None \<Rightarrow> []) ls)"

primrec compensate_all ::
  "(bytes \<Rightarrow> u32) \<Rightarrow> 's sink_ops \<Rightarrow> 't apply_ops \<Rightarrow> log_record list \<Rightarrow> 's wal_manager \<Rightarrow> 't \<Rightarrow> nat \<Rightarrow>
     (wal_error + nat) \<times> 's wal_manager \<times> 't" where
  "compensate_all crc S T [] m t n = (Inr n, m, t)"
| "compensate_all crc S T (r # us) m t n =
     (let (cl, m1) = write_clr crc S m (rec_txn r) (rec_page r) (rec_lsn r) (undo r) (prev_lsn r)
      in case (if undo r \<noteq> [] then apply_image T t (rec_page r) cl (undo r) else (Inr (), t)) of
           (Inl e, t1) \<Rightarrow> (Inl e, m1, t1)
         | (Inr _, t1) \<Rightarrow> compensate_all crc S T us m1 t1 (n + 1))"

definition recover_log ::
  "(bytes \<Rightarrow> u32) \<Rightarrow> 's sink_ops \<Rightarrow> 't apply_ops \<Rightarrow> (u64 fset \<Rightarrow> u64 list) \<Rightarrow> log_record list \<Rightarrow> bool \<Rightarrow>
     's wal_manager \<Rightarrow> 't \<Rightarrow> (wal_error + recovery_report) \<times> 's wal_manager \<times> 't" where
  "recover_log crc S T order rs torn m t =
     (let a = fold analyse rs analysis_new; ls = order (loser_set a)
      in case run_records (on_redo T (redo_start_of a)) rs (t, 0) of
           (Inl e, t1, _) \<Rightarrow> (Inl e, m, t1)
         | (Inr _, t1, n) \<Rightarrow>
       (case compensate_all crc S T (undo_order (owed_by rs a ls)) m t1 0 of
           (Inl e, m1, t2) \<Rightarrow> (Inl e, m1, t2)
         | (Inr clrs, m1, t2) \<Rightarrow>
       (case wal_flush S (write_ends crc S ls m1) of
           (Inl e, m2) \<Rightarrow> (Inl e, m2, t2)
         | (Inr _, m2) \<Rightarrow>
             (Inr \<lparr>records_scanned = length rs, redo_start = redo_start_of a, redo_applied = n,
               losers = length ls, clrs_written = clrs, tail_truncated = torn\<rparr>, m2, t2))))"

text \<open>Back links: none, below the first record of the log, or an older record of the same transaction.\<close>

definition links_ok :: "nat \<Rightarrow> log_record list \<Rightarrow> bool" where
  [invs]: "links_ok off rs \<longleftrightarrow> (\<forall>r \<in> set rs. undo_link r = 0 \<or> unat (undo_link r) < off \<or>
     (\<exists>q \<in> set rs. rec_lsn q = undo_link r \<and> rec_lsn q < rec_lsn r \<and> rec_txn q = rec_txn r))"

subsection \<open>Lemmas on the owed actions\<close>

lemma find_lsn:
  assumes "log_ok off rs" "r \<in> set rs"
  shows "find (\<lambda>q. rec_lsn q = rec_lsn r) rs = Some r"
proof -
  obtain q where q: "find (\<lambda>q. rec_lsn q = rec_lsn r) rs = Some q"
    using assms(2) by (metis (mono_tags, lifting) find_None_iff not_None_eq)
  then have "q \<in> set rs" "rec_lsn q = rec_lsn r" by (auto simp: find_Some_iff)
  then have "q = r" using log_ok_inj [OF assms(1)] assms(2) by (simp add: inj_on_def)
  then show ?thesis using q by simp
qed

lemma find_lsn_below:
  assumes "log_ok off rs" "unat l < off"
  shows "find (\<lambda>q. rec_lsn q = l) rs = None"
  using assms log_ok_bounds [OF assms(1)] by (force simp: find_None_iff)

lemma owed_below: "log_ok off rs \<Longrightarrow> unat l < off \<Longrightarrow> owed rs l = []"
  by (simp add: owed.simps [of rs l] find_lsn_below)

lemma owed_set: "r \<in> set (owed rs l) \<Longrightarrow> r \<in> set rs \<and> rec_lsn r \<le> l \<and> is_undoable_action (rec_type r)"
proof (induction rs l rule: owed.induct)
  case (1 rs l)
  show ?case
  proof (cases "find (\<lambda>r. rec_lsn r = l) rs")
    case None
    then show ?thesis using 1(2) by (simp add: owed.simps [of rs l])
  next
    case (Some q)
    then have q: "q \<in> set rs" "rec_lsn q = l" by (auto simp: find_Some_iff)
    show ?thesis using 1(1) [OF Some] 1(2) q
      by (auto simp: owed.simps [of rs l] Some split: if_splits)
  qed
qed

lemma owed_record:
  assumes "log_ok off rs" "r \<in> set rs" "links_ok off rs" "8 \<le> off"
  shows "owed rs (rec_lsn r) = (if is_undoable_action (rec_type r) then [r] else []) @ owed rs (undo_link r)"
proof (cases "undo_link r < rec_lsn r")
  case True
  then show ?thesis by (subst owed.simps) (simp add: find_lsn [OF assms(1,2)])
next
  case False
  then have "unat (undo_link r) < off" using assms(2-4) by (auto simp: links_ok_def)
  then show ?thesis using False
    by (subst owed.simps) (simp add: find_lsn [OF assms(1,2)] owed_below [OF assms(1)])
qed

lemma undo_order_Cons:
  assumes "mset xs = add_mset r (mset ys)" "inj_on rec_lsn (set xs)" "\<And>y. y \<in> set ys \<Longrightarrow> rec_lsn y \<le> rec_lsn r"
  shows "undo_order xs = r # undo_order ys"
proof -
  have "sort_key rec_lsn xs = sort_key rec_lsn ys @ [r]"
    using assms by (intro sort_key_inj_key_eq) (auto simp: sorted_append)
  then show ?thesis by (simp add: undo_order_def)
qed

lemma undo_order_cong:
  assumes "mset xs = mset ys" "inj_on rec_lsn (set xs)"
  shows "undo_order xs = undo_order ys"
  using sort_key_inj_key_eq [OF _ assms(2), of "sort_key rec_lsn ys"] assms(1)
  by (simp add: undo_order_def)

subsection \<open>The heap\<close>

definition descending :: "lsn list \<Rightarrow> bool" where
  "descending h \<longleftrightarrow> sorted_wrt (\<ge>) h"

lemma mset_heap_push [simp]: "mset (heap_push x h) = add_mset x (mset h)"
  by (induction h) auto

lemma set_heap_push [simp]: "set (heap_push x h) = insert x (set h)"
  by (metis mset_heap_push set_mset_add_mset_insert set_mset_mset)

lemma sum_list_heap_push: "sum_list (map f (heap_push x h)) = f x + sum_list (map f h)" for f :: "lsn \<Rightarrow> nat"
  by (induction h) auto

lemma descending_push: "descending h \<Longrightarrow> descending (heap_push x h)"
  by (induction h) (auto simp: descending_def)

lemma descending_push_link: "descending h \<Longrightarrow> descending (heap_push_link l h)"
  by (simp add: heap_push_link_def descending_push)

lemma mset_concat_map_cong:
  "mset xs = mset ys \<Longrightarrow> mset (concat (map f xs)) = mset (concat (map f ys))"
  by (simp add: mset_concat) (metis mset_map sum_mset_sum_list)

lemma heap_owed_push:
  "log_ok off rs \<Longrightarrow> 8 \<le> off \<Longrightarrow>
    mset (concat (map (owed rs) (heap_push_link l h))) = mset (owed rs l) + mset (concat (map (owed rs) h))"
  using mset_concat_map_cong [of "heap_push l h" "l # h" "owed rs"] owed_below [of off rs 0]
  by (auto simp: heap_push_link_def)

lemma initial_heap_props:
  fixes a ls
  defines "g \<equiv> \<lambda>t h. case fmlookup (an_txn_last a) t of Some l \<Rightarrow> heap_push_link l h | None \<Rightarrow> h"
  assumes "log_ok off rs" "8 \<le> off" "descending h"
  shows "descending (fold g ls h)"
    and "mset (concat (map (owed rs) (fold g ls h))) = mset (concat (map (owed rs) h)) + mset (owed_by rs a ls)"
    and "set (fold g ls h) \<subseteq> set h \<union> {l. l \<noteq> 0 \<and> l |\<in>| fmran (an_txn_last a)}"
proof -
  show "descending (fold g ls h)" using assms(4)
    by (induction ls arbitrary: h) (auto simp: g_def descending_push_link split: option.splits)
  show "mset (concat (map (owed rs) (fold g ls h))) = mset (concat (map (owed rs) h)) + mset (owed_by rs a ls)"
  proof (induction ls arbitrary: h)
    case (Cons t ls)
    then show ?case
      using heap_owed_push [OF assms(2,3)] by (auto simp: g_def owed_by_def split: option.splits)
  qed (simp add: owed_by_def)
  show "set (fold g ls h) \<subseteq> set h \<union> {l. l \<noteq> 0 \<and> l |\<in>| fmran (an_txn_last a)}"
  proof (induction ls arbitrary: h)
    case (Cons t ls)
    have "set (g t h) \<subseteq> set h \<union> {l. l \<noteq> 0 \<and> l |\<in>| fmran (an_txn_last a)}"
      by (auto simp: g_def heap_push_link_def fmranI split: option.splits)
    then show ?case using Cons.IH [of "g t h"] by auto
  qed simp
qed

subsection \<open>Analysis\<close>

lemma analyse_txn_last:
  "an_txn_last (analyse r a) = (if rec_txn r \<noteq> 0 then fmupd (rec_txn r) (rec_lsn r) (an_txn_last a) else an_txn_last a)"
  by (auto simp: analyse_def Let_def split: record_type.splits option.splits)

lemma analyse_scanned: "an_scanned (analyse r a) = an_scanned a + 1"
  by (auto simp: analyse_def Let_def split: record_type.splits option.splits)

lemma fold_analyse_scanned: "an_scanned (fold analyse rs a) = an_scanned a + length rs"
  by (induction rs arbitrary: a) (simp_all add: analyse_scanned)

lemma fold_analyse_txn_last:
  "fmlookup (an_txn_last (fold analyse rs a)) t =
     (case filter (\<lambda>r. rec_txn r = t \<and> t \<noteq> 0) rs of [] \<Rightarrow> fmlookup (an_txn_last a) t
      | q \<Rightarrow> Some (rec_lsn (last q)))"
  by (induction rs rule: rev_induct) (auto simp: analyse_txn_last split: list.splits)

lemma analysis_last_record:
  assumes "fmlookup (an_txn_last (fold analyse rs analysis_new)) t = Some l"
  shows "\<exists>r \<in> set rs. rec_lsn r = l \<and> rec_txn r = t \<and> t \<noteq> 0"
proof -
  let ?q = "filter (\<lambda>r. rec_txn r = t \<and> t \<noteq> 0) rs"
  have "?q \<noteq> [] \<and> rec_lsn (last ?q) = l"
    using assms by (auto simp: fold_analyse_txn_last analysis_new_def split: list.splits)
  moreover from this have "last ?q \<in> set ?q" by (meson last_in_set)
  ultimately show ?thesis by auto
qed

subsection \<open>Recovery refines the folds\<close>

context log_sink
begin

lemma wal_append_sink:
  assumes "wal_append crc S m r = (l, m1)" "ok (wal_sink m)"
  shows "ok (wal_sink m1)" "image (wal_sink m1) = image (wal_sink m)"
    "unsynced (wal_sink m1) = unsynced (wal_sink m) @ encode crc r l"
    "l = of_nat (length (image (wal_sink m) @ unsynced (wal_sink m)))" "wal_active m1 = wal_active m"
  using assms append_law buffered_len_law [OF assms(2)] by (auto simp: wal_append_def next_lsn_def Let_def)

lemma wal_rd_image: "ok (wal_sink m) \<Longrightarrow> reads_image (wal_rd S m) (image (wal_sink m))"
  by (simp add: reads_image_def read_law)

lemma read_record_at_log:
  assumes "ok (wal_sink m)" "holds_log crc (image (wal_sink m)) off rs rest" "length (image (wal_sink m)) < 2 ^ 63"
    "r \<in> set rs"
  shows "read_record_at crc S m (rec_lsn r) = Inr r"
proof -
  define im where "im = image (wal_sink m)"
  define p where "p = unat (rec_lsn r)"
  have d: "decode crc (drop p im) = Inr (r, encoded_len r)"
    using holds_log_decode [OF assms(2,4)] by (simp add: im_def p_def)
  then have n: "MIN_RECORD_LEN \<le> encoded_len r" "encoded_len r \<le> length (drop p im)"
    "encoded_len r = unat (read_u32 (drop p im) OFF_TOTAL_LEN)" by (auto simp: decode_Inr_iff)
  have le: "p + encoded_len r \<le> length im" "p + 4 \<le> length im" using n(1,2) by (auto simp: offsets)
  have rd: "wal_rd S m p (saturating_add_u64 p k) = take k (drop p im)" if "p + k \<le> length im" for k
    using that assms(3) read_law [OF assms(1)] by (simp add: saturating_add_u64_def bslice_def im_def)
  have "from_le (bslice 0 4 (take 4 (drop p im))) = read_u32 (drop p im) OFF_TOTAL_LEN"
    by (simp add: read_u32_def bslice_def offsets)
  then show ?thesis
    using rd [OF le(1)] rd [OF le(2)] n(3) le(2) decode_take [OF d, of "encoded_len r"]
    by (simp add: read_record_at_def Let_def p_def [symmetric])
qed

lemma undo_loop_eq:
  assumes log: "holds_log crc im off rs rest" and L: "length im < 2 ^ 63" and off: "8 \<le> off" and lk: "links_ok off rs"
    and "ok (wal_sink m)" "image (wal_sink m) = im" "descending h"
    and "\<forall>l \<in> set h. unat l < off \<or> l \<in> rec_lsn ` set rs"
  shows "undo_loop crc S T off h m t n =
    Some (compensate_all crc S T (undo_order (concat (map (owed rs) h))) m t n)"
  using assms(5-8)
proof (induction "sum_list (map (\<lambda>l. unat l + 1) h)" arbitrary: h m t n rule: less_induct)
  case less
  note ok = log [unfolded holds_log_def, THEN conjunct1]
  show ?case
  proof (cases h)
    case Nil
    then show ?thesis by (simp add: undo_loop.simps undo_order_def)
  next
    case (Cons l h1)
    have h1: "descending h1" "\<forall>l \<in> set h1. unat l < off \<or> l \<in> rec_lsn ` set rs" "\<forall>l' \<in> set h1. l' \<le> l"
      using less.prems Cons by (auto simp: descending_def)
    note unf = undo_loop.simps [of crc S T off "l # h1" m t n]
    show ?thesis
    proof (cases "unat l < off")
      case True
      then show ?thesis using less.hyps [of h1 m t n] less.prems h1 Cons owed_below [OF ok True]
        by (simp add: unf)
    next
      case False
      then obtain r where r: "r \<in> set rs" "l = rec_lsn r" using less.prems(4) Cons by auto
      note rd = read_record_at_log [OF less.prems(1) _ _ r(1), of crc off rest]
      define h2 where "h2 = heap_push_link (undo_link r) h1"
      have nx: "undo_link r = 0 \<or> (unat (undo_link r) < off \<or> undo_link r \<in> rec_lsn ` set rs) \<and> undo_link r < l"
      proof -
        have "undo_link r = 0 \<or> unat (undo_link r) < off \<or> undo_link r \<in> rec_lsn ` set rs \<and> undo_link r < l"
          using bspec [OF lk [unfolded links_ok_def] r(1)] r(2) by (metis image_eqI)
        then show ?thesis using False by (auto simp: word_less_nat_alt)
      qed
      have h2: "descending h2" "\<forall>l \<in> set h2. unat l < off \<or> l \<in> rec_lsn ` set rs"
        using h1 nx descending_push_link by (auto simp: h2_def heap_push_link_def)
      have dec: "sum_list (map (\<lambda>l. unat l + 1) h2) < sum_list (map (\<lambda>l. unat l + 1) h)"
        using nx Cons by (auto simp: h2_def heap_push_link_def word_less_nat_alt sum_list_heap_push)
      have ow: "mset (concat (map (owed rs) h)) =
          mset (if is_undoable_action (rec_type r) then [r] else []) + mset (concat (map (owed rs) h2))"
        using Cons r owed_record [OF ok r(1) lk off] heap_owed_push [OF ok off] by (simp add: h2_def)
      have inj: "inj_on rec_lsn (set (concat (map (owed rs) h)))"
        by (rule inj_on_subset [OF log_ok_inj [OF ok]]) (auto dest: owed_set)
      show ?thesis
      proof (cases "is_undoable_action (rec_type r)")
        case ua: True
        have "rec_lsn y \<le> rec_lsn r" if "y \<in> set (concat (map (owed rs) h2))" for y
          using that h1(3) nx r by (fastforce simp: h2_def heap_push_link_def dest: owed_set split: if_splits)
        moreover have "mset (concat (map (owed rs) h)) = add_mset r (mset (concat (map (owed rs) h2)))"
          using ow ua by simp
        ultimately have us: "undo_order (concat (map (owed rs) h)) = r # undo_order (concat (map (owed rs) h2))"
          by (intro undo_order_Cons inj)
        obtain cl m1 where w: "write_clr crc S m (rec_txn r) (rec_page r) (rec_lsn r) (undo r) (prev_lsn r) = (cl, m1)"
          by force
        have m1: "ok (wal_sink m1)" "image (wal_sink m1) = im"
          using wal_append_sink [OF w [unfolded write_clr_def] less.prems(1)] less.prems(2) by simp_all
        have ne: "rec_type r \<noteq> RClr" using ua by (auto simp: is_undoable_action_def)
        then have "undo_link r = prev_lsn r" by (simp add: undo_link_def)
        then have "heap_push_link (prev_lsn r) h1 = h2" by (simp add: h2_def)
        then show ?thesis using less.hyps [OF dec m1 h2] rd False ua ne w log L less.prems(2) r(2)
          unfolding us unfolding Cons by (subst undo_loop.simps) (simp split: prod.splits sum.splits)
      next
        case ua: False
        have us: "undo_order (concat (map (owed rs) h)) = undo_order (concat (map (owed rs) h2))"
          using undo_order_cong [OF _ inj] ow ua by simp
        have "undo_loop crc S T off h m t n = undo_loop crc S T off h2 m t n"
          using rd False ua log L less.prems(2) r(2) unfolding Cons h2_def
          by (subst undo_loop.simps) (auto simp: undo_link_def)
        then show ?thesis using less.hyps [OF dec less.prems(1,2) h2] us by simp
      qed
    qed
  qed
qed

lemma recover_from_windowed_eq:
  fixes m :: "'s wal_manager" and scan_start :: lsn
  defines "im \<equiv> image (wal_sink m)" and "base \<equiv> max (max (unat scan_start) HEADER_LEN) (sk_reclaimed_floor S (wal_sink m))"
  assumes ok: "ok (wal_sink m)" and L: "length im < 2 ^ 63" and w: "4 \<le> window"
    and log: "holds_log crc im base rs rest" and e: "clean_end crc im (base + log_len rs)" "rs = [] \<Longrightarrow> rest = []"
    and lk: "links_ok base rs"
  shows "recover_from_windowed crc S T order m t scan_start window =
    Some (recover_log crc S T order rs (rest \<noteq> []) m t)"
proof -
  note lok = log [unfolded holds_log_def, THEN conjunct1] and rd = wal_rd_image [OF ok, folded im_def]
  have w0: "0 < window" using w by simp
  have base: "8 \<le> base" by (simp add: base_def HEADER_LEN_def)
  define a where "a = fold analyse rs analysis_new"
  define ls where "ls = order (loser_set a)"
  define first where "first = (if rs = [] then None else Some base)"
  have first: "find_first_record_offset crc (wal_rd S m) (length im) window base = Some (Inr first)"
    unfolding first_def by (rule find_first_record_offset_log [OF rd L w log e(2)])
  note sc = scan_forward_log [OF rd L w0 log e(1)]
  have an: "run_analysis crc (wal_rd S m) (length im) window first = Some (Inr (a, rest \<noteq> []))"
  proof (cases rs)
    case Nil
    then show ?thesis using e(2) by (simp add: run_analysis_def first_def a_def)
  next
    case (Cons r rs')
    have "run_records on_analysis rs analysis_new = (Inr (), a)"
      unfolding a_def by (rule run_records_total) (simp add: on_analysis_def)
    then show ?thesis using sc [of on_analysis True analysis_new] Cons by (simp add: run_analysis_def first_def)
  qed
  have re: "run_redo crc (wal_rd S m) T (redo_start_of a) (length im) window first t =
      Some (case run_records (on_redo T (redo_start_of a)) rs (t, 0) of
        (Inl e, t1, _) \<Rightarrow> (Inl e, t1) | (Inr _, t1, n) \<Rightarrow> (Inr n, t1))"
  proof (cases rs)
    case (Cons r rs')
    then show ?thesis using sc [of "on_redo T (redo_start_of a)" False "(t, 0)"]
      by (simp add: run_redo_def first_def split: prod.splits sum.splits)
  qed (simp add: run_redo_def first_def)
  have un: "run_undo crc S T base a ls m t1 =
      (case compensate_all crc S T (undo_order (owed_by rs a ls)) m t1 0 of
         (Inl e, m1, t2) \<Rightarrow> Some (Inl e, m1, t2)
       | (Inr clrs, m1, t2) \<Rightarrow>
          (case wal_flush S (write_ends crc S ls m1) of
             (Inl e, m2) \<Rightarrow> Some (Inl e, m2, t2)
           | (Inr _, m2) \<Rightarrow> Some (Inr clrs, m2, t2)))" for t1
  proof -
    have d0: "descending []" by (simp add: descending_def)
    note ih = initial_heap_props [OF lok base d0, of a ls, folded initial_heap_def]
    have pt: "\<forall>l \<in> set (initial_heap a ls). unat l < base \<or> l \<in> rec_lsn ` set rs"
      using ih(3) analysis_last_record [of rs] by (fastforce simp: a_def elim!: fmranE)
    have "undo_order (concat (map (owed rs) (initial_heap a ls))) = undo_order (owed_by rs a ls)"
      using ih(2) by (intro undo_order_cong inj_on_subset [OF log_ok_inj [OF lok]]) (auto dest: owed_set)
    moreover have "image (wal_sink m) = im" by (simp add: im_def)
    ultimately show ?thesis
      unfolding run_undo_def undo_loop_eq [OF log L base lk ok \<open>image (wal_sink m) = im\<close> ih(1) pt]
      by (simp split: prod.splits sum.splits)
  qed
  have "(case first of Some start \<Rightarrow> start | None \<Rightarrow> base) = base" by (simp add: first_def)
  moreover have "an_scanned a = length rs" by (simp add: a_def fold_analyse_scanned analysis_new_def)
  ultimately show ?thesis
    unfolding recover_from_windowed_def recover_log_def Let_def base_def [symmetric]
      durable_len_law [OF ok, folded im_def] first a_def [symmetric] ls_def [symmetric]
    by (simp add: an re un ls_def [symmetric] split: prod.splits sum.splits)
qed

end

end
