(* ===== verification/Log_Discipline.thy ===== *)
theory Log_Discipline
  imports Recovery_Spec
begin

text \<open>
  Atomicity and durability of recovery over any page store. A log is disciplined when every
  transaction's back-chain names exactly its uncompensated actions. If moreover undo images were
  taken from the pages they restore, and images of different transactions that may have to be
  undone commute, then redo of the whole log followed by the undo pass leaves every page with the
  effect of the committed transactions (and of the actions logged without an undo image) and of
  nothing else.

  The page store is a record of operations with the contract \<open>page_store\<close>: applying an image acts on
  the content of one page and stamps its LSN.
\<close>

definition iterates :: "(u64 fset \<Rightarrow> u64 list) \<Rightarrow> bool" where
  "iterates order \<longleftrightarrow> (\<forall>s. distinct (order s) \<and> set (order s) = fset s)"

subsection \<open>Uncompensated actions\<close>

abbreviation with_undo :: "log_record list \<Rightarrow> log_record list" where
  "with_undo us \<equiv> filter (\<lambda>r. undo r \<noteq> []) us"

definition last_of :: "log_record list \<Rightarrow> txn_id \<Rightarrow> lsn" where
  "last_of rs t = (case filter (\<lambda>r. rec_txn r = t) (rev rs) of [] \<Rightarrow> 0 | r # _ \<Rightarrow> rec_lsn r)"

definition pending :: "log_record list \<Rightarrow> txn_id \<Rightarrow> log_record list" where
  "pending rs t = with_undo (owed rs (last_of rs t))"

definition finished :: "log_record list \<Rightarrow> txn_id \<Rightarrow> bool" where
  "finished rs t \<longleftrightarrow> (\<exists>q \<in> set rs. rec_txn q = t \<and> rec_type q \<in> {RCommit, RAbort})"

text \<open>
  A record may extend the log: its transaction has not ended, its link leads to what the transaction
  still owes, and an abort owes nothing.
\<close>

definition step_ok :: "log_record list \<Rightarrow> log_record \<Rightarrow> bool" where
  "step_ok rs r \<longleftrightarrow>
     (let pend = pending rs (rec_txn r); linked = with_undo (owed rs (undo_link r))
      in \<not> finished rs (rec_txn r) \<and> (rec_type r = RAbort \<longrightarrow> linked = []) \<and>
         (rec_txn r = 0 \<longrightarrow> \<not> is_page_change (rec_type r)) \<and> rec_type r \<noteq> RFullPageImage \<and>
         (if rec_type r = RClr \<and> redo r \<noteq> []
          then pend \<noteq> [] \<and> linked = tl pend \<and> redo r = undo (hd pend) \<and> rec_page r = rec_page (hd pend)
          else linked = pend))"

definition disciplined :: "log_record list \<Rightarrow> bool" where
  [invs]: "disciplined rs \<longleftrightarrow> (\<forall>i < length rs. step_ok (take i rs) (rs ! i))"

lemma disciplined_snoc: "disciplined (rs @ [r]) \<longleftrightarrow> disciplined rs \<and> step_ok rs r"
proof -
  have "(\<forall>i < length rs. step_ok (take i (rs @ [r])) ((rs @ [r]) ! i)) \<longleftrightarrow> disciplined rs"
    unfolding disciplined_def by (rule all_cong) (simp add: nth_append)
  then show ?thesis by (auto simp: disciplined_def less_Suc_eq)
qed

lemma disciplined_Nil [simp]: "disciplined []"
  by (simp add: disciplined_def)

lemma last_of_Nil [simp]: "last_of [] t = 0"
  by (simp add: last_of_def)

lemma last_of_snoc: "last_of (rs @ [r]) t = (if rec_txn r = t then rec_lsn r else last_of rs t)"
  by (simp add: last_of_def)

lemma last_of_analysis:
  "t \<noteq> 0 \<Longrightarrow> last_of rs t = (case fmlookup (an_txn_last (fold analyse rs analysis_new)) t of Some l \<Rightarrow> l | None \<Rightarrow> 0)"
  by (induction rs rule: rev_induct) (auto simp: last_of_snoc analyse_txn_last analysis_new_def)

text \<open>Appending a record does not change the chains of the log.\<close>

lemma owed_snoc:
  assumes "log_ok off (rs @ [r])" "l < rec_lsn r"
  shows "owed (rs @ [r]) l = owed rs l"
  using assms(2)
proof (induction l rule: measure_induct_rule [of unat])
  case (less l)
  have "find (\<lambda>q. rec_lsn q = l) (rs @ [r]) = find (\<lambda>q. rec_lsn q = l) rs"
    using less.prems by (induction rs) auto
  moreover have "owed (rs @ [r]) k = owed rs k" if "k < l" for k
    using less.IH [of k] that less.prems by (simp add: word_less_nat_alt)
  ultimately show ?case by (simp add: owed.simps [of _ l] split: option.splits)
qed

lemma last_of_less:
  assumes "log_ok off (rs @ [r])" "8 \<le> off"
  shows "last_of rs t < rec_lsn r"
proof (cases "filter (\<lambda>r. rec_txn r = t) (rev rs)")
  case Nil
  have "8 \<le> unat (rec_lsn r)" using log_ok_bounds [OF assms(1), of r] assms(2) by simp
  then show ?thesis using Nil by (simp add: last_of_def word_less_nat_alt)
next
  case (Cons q qs)
  then have "q \<in> set rs" by (metis Cons_eq_filterD append_is_Nil_conv in_set_conv_decomp set_rev)
  then show ?thesis using Cons log_ok_sorted [OF assms(1)] by (auto simp: last_of_def sorted_wrt_append)
qed

lemma pending_snoc_other:
  "log_ok off (rs @ [r]) \<Longrightarrow> 8 \<le> off \<Longrightarrow> rec_txn r \<noteq> t \<Longrightarrow> pending (rs @ [r]) t = pending rs t"
  by (simp add: pending_def last_of_snoc owed_snoc last_of_less)

lemma pending_snoc_own:
  assumes "log_ok off (rs @ [r])" "8 \<le> off" "links_ok off (rs @ [r])"
  shows "pending (rs @ [r]) (rec_txn r) =
    (if is_undoable_action (rec_type r) \<and> undo r \<noteq> [] then [r] else []) @ with_undo (owed rs (undo_link r))"
proof -
  have r: "r \<in> set (rs @ [r])" by simp
  have "owed (rs @ [r]) (undo_link r) = owed rs (undo_link r)"
  proof (cases "undo_link r < rec_lsn r")
    case True
    then show ?thesis by (rule owed_snoc [OF assms(1)])
  next
    case False
    then have "unat (undo_link r) < off" using assms(2,3) by (auto simp: links_ok_def)
    then show ?thesis using owed_below assms(1) by (auto simp: log_ok_append)
  qed
  then show ?thesis
    using owed_record [OF assms(1) r assms(3,2)] by (simp add: pending_def last_of_snoc)
qed

lemma links_ok_prefix:
  assumes "log_ok off (rs @ [r])" "links_ok off (rs @ [r])"
  shows "links_ok off rs"
  unfolding links_ok_def
proof
  fix x assume x: "x \<in> set rs"
  have "rec_lsn x < rec_lsn r" using log_ok_sorted [OF assms(1)] x by (auto simp: sorted_wrt_append)
  moreover have "undo_link x = 0 \<or> unat (undo_link x) < off \<or>
      (\<exists>q \<in> set (rs @ [r]). rec_lsn q = undo_link x \<and> rec_lsn q < rec_lsn x \<and> rec_txn q = rec_txn x)"
    using assms(2) x by (auto simp: links_ok_def)
  ultimately show "undo_link x = 0 \<or> unat (undo_link x) < off \<or>
      (\<exists>q \<in> set rs. rec_lsn q = undo_link x \<and> rec_lsn q < rec_lsn x \<and> rec_txn q = rec_txn x)"
    by auto
qed

lemma owed_txn:
  assumes "log_ok off rs" "links_ok off rs" "8 \<le> off" "q \<in> set rs" "x \<in> set (owed rs (rec_lsn q))"
  shows "rec_txn x = rec_txn q"
  using assms(4,5)
proof (induction q rule: measure_induct_rule [of "unat \<circ> rec_lsn"])
  case (less q)
  consider "x = q" | "x \<in> set (owed rs (undo_link q))"
    using less.prems(2) owed_record [OF assms(1) less.prems(1) assms(2,3)] by (auto split: if_splits)
  then show ?case
  proof cases
    case 2
    then have "\<not> unat (undo_link q) < off" using owed_below [OF assms(1)] by auto
    then obtain q' where "q' \<in> set rs" "rec_lsn q' = undo_link q" "rec_lsn q' < rec_lsn q" "rec_txn q' = rec_txn q"
      using bspec [OF assms(2) [unfolded links_ok_def] less.prems(1)] assms(3) by auto
    then show ?thesis using less.IH [of q'] 2 by (simp add: word_less_nat_alt)
  qed simp
qed

lemma owed_descending: "sorted_wrt (\<lambda>x y. rec_lsn y < rec_lsn x) (owed rs l)"
proof (induction rs l rule: owed.induct)
  case (1 rs l)
  show ?case
  proof (cases "find (\<lambda>r. rec_lsn r = l) rs")
    case None
    then show ?thesis by (simp add: owed.simps [of rs l])
  next
    case (Some q)
    then have q: "rec_lsn q = l" by (auto simp: find_Some_iff)
    have "rec_lsn x < l" if "x \<in> set (owed rs (undo_link q))" "undo_link q < l" for x
      using owed_set [OF that(1)] that(2) by auto
    then show ?thesis using 1 [OF Some] q by (auto simp: owed.simps [of rs l] Some)
  qed
qed

lemma descending_distinct: "sorted_wrt (\<lambda>x y. rec_lsn y < rec_lsn x) us \<Longrightarrow> distinct us"
  by (induction us) auto

lemmas owed_distinct = descending_distinct [OF owed_descending]

lemma pending_descending: "sorted_wrt (\<lambda>x y. rec_lsn y < rec_lsn x) (pending rs t)"
  unfolding pending_def by (rule sorted_wrt_filter [OF owed_descending])

lemma last_of_record:
  "last_of rs t = 0 \<or> (\<exists>q \<in> set rs. rec_lsn q = last_of rs t \<and> rec_txn q = t)"
  by (induction rs rule: rev_induct) (auto simp: last_of_snoc)

lemma pending_props:
  assumes "log_ok off rs" "links_ok off rs" "8 \<le> off" "x \<in> set (pending rs t)"
  shows "x \<in> set rs" "rec_txn x = t" "is_undoable_action (rec_type x)" "undo x \<noteq> []"
proof -
  have x: "x \<in> set (owed rs (last_of rs t))" "undo x \<noteq> []" using assms(4) by (auto simp: pending_def)
  then show "x \<in> set rs" "is_undoable_action (rec_type x)" "undo x \<noteq> []" by (auto dest: owed_set)
  have "last_of rs t \<noteq> 0" using x(1) owed_below [OF assms(1), of 0] assms(3) by auto
  then show "rec_txn x = t" using last_of_record [of rs t] owed_txn [OF assms(1-3)] x(1) by metis
qed

subsection \<open>Histories of a page\<close>

definition redo_on :: "(bytes \<Rightarrow> 'c \<Rightarrow> 'c) \<Rightarrow> page_id \<Rightarrow> log_record \<Rightarrow> 'c \<Rightarrow> 'c" where
  "redo_on act p r c = (if is_page_change (rec_type r) \<and> rec_page r = p \<and> redo r \<noteq> [] then act (redo r) c else c)"

definition undo_on :: "(bytes \<Rightarrow> 'c \<Rightarrow> 'c) \<Rightarrow> page_id \<Rightarrow> log_record \<Rightarrow> 'c \<Rightarrow> 'c" where
  "undo_on act p r c = (if rec_page r = p \<and> undo r \<noteq> [] then act (undo r) c else c)"

definition page_history :: "(bytes \<Rightarrow> 'c \<Rightarrow> 'c) \<Rightarrow> page_id \<Rightarrow> log_record list \<Rightarrow> 'c \<Rightarrow> 'c" where
  "page_history act p rs c = fold (redo_on act p) rs c"

text \<open>The undo image of every undoable action restores the page as the log had left it.\<close>

definition undo_images_ok :: "(bytes \<Rightarrow> 'c \<Rightarrow> 'c) \<Rightarrow> (page_id \<Rightarrow> 'c) \<Rightarrow> log_record list \<Rightarrow> bool" where
  "undo_images_ok act c0 rs \<longleftrightarrow> (\<forall>i < length rs. is_undoable_action (rec_type (rs ! i)) \<longrightarrow> undo (rs ! i) \<noteq> [] \<longrightarrow>
     (let p = rec_page (rs ! i); c = page_history act p (take i rs) (c0 p)
      in undo_on act p (rs ! i) (redo_on act p (rs ! i) c) = c))"

text \<open>The undo of \<open>u\<close> may be moved across the record \<open>r\<close> and across the undo of \<open>r\<close>.\<close>

definition independent :: "(bytes \<Rightarrow> 'c \<Rightarrow> 'c) \<Rightarrow> log_record \<Rightarrow> log_record \<Rightarrow> bool" where
  "independent act u r \<longleftrightarrow> (\<forall>p c. undo_on act p u (redo_on act p r c) = redo_on act p r (undo_on act p u c) \<and>
     undo_on act p u (undo_on act p r c) = undo_on act p r (undo_on act p u c))"

definition isolated :: "(bytes \<Rightarrow> 'c \<Rightarrow> 'c) \<Rightarrow> (txn_id \<Rightarrow> bool) \<Rightarrow> log_record list \<Rightarrow> bool" where
  "isolated act L rs \<longleftrightarrow> (\<forall>u \<in> set rs. \<forall>r \<in> set rs. rec_lsn u < rec_lsn r \<longrightarrow> L (rec_txn u) \<longrightarrow>
     is_undoable_action (rec_type u) \<longrightarrow> undo u \<noteq> [] \<longrightarrow>
     rec_txn r \<noteq> rec_txn u \<or> is_undoable_action (rec_type r) \<and> undo r = [] \<longrightarrow> independent act u r)"

text \<open>What has to be undone of the transactions in \<open>L\<close>, newest first, and what stays.\<close>

definition undo_list :: "(txn_id \<Rightarrow> bool) \<Rightarrow> log_record list \<Rightarrow> log_record list" where
  "undo_list L rs = rev (filter (\<lambda>r. L (rec_txn r) \<and> r \<in> set (pending rs (rec_txn r))) rs)"

definition survives :: "(txn_id \<Rightarrow> bool) \<Rightarrow> log_record \<Rightarrow> bool" where
  "survives L r \<longleftrightarrow> \<not> L (rec_txn r) \<or> is_undoable_action (rec_type r) \<and> undo r = []"

lemma page_history_snoc: "page_history act p (rs @ [r]) c = redo_on act p r (page_history act p rs c)"
  by (simp add: page_history_def)

lemma undo_images_ok_snoc:
  "undo_images_ok act c0 (rs @ [r]) \<Longrightarrow> undo_images_ok act c0 rs \<and>
    (is_undoable_action (rec_type r) \<longrightarrow> undo r \<noteq> [] \<longrightarrow>
     undo_on act p r (redo_on act p r (page_history act p rs (c0 p))) = page_history act p rs (c0 p))"
proof
  assume a: "undo_images_ok act c0 (rs @ [r])"
  show "undo_images_ok act c0 rs" unfolding undo_images_ok_def
  proof (intro allI impI)
    fix i assume "i < length rs" "is_undoable_action (rec_type (rs ! i))" "undo (rs ! i) \<noteq> []"
    then show "let p = rec_page (rs ! i); c = page_history act p (take i rs) (c0 p)
      in undo_on act p (rs ! i) (redo_on act p (rs ! i) c) = c"
      using a [unfolded undo_images_ok_def, rule_format, of i] by (simp add: nth_append)
  qed
  show "is_undoable_action (rec_type r) \<longrightarrow> undo r \<noteq> [] \<longrightarrow>
     undo_on act p r (redo_on act p r (page_history act p rs (c0 p))) = page_history act p rs (c0 p)"
  proof (cases "rec_page r = p")
    case True
    then show ?thesis using a [unfolded undo_images_ok_def, rule_format, of "length rs"] by (simp add: Let_def)
  qed (simp add: undo_on_def redo_on_def)
qed

subsection \<open>Undo restores the surviving history\<close>

lemma fold_commute_past:
  "(\<And>u c. u \<in> set us \<Longrightarrow> f u (g c) = g (f u c)) \<Longrightarrow> fold f us (g c) = g (fold f us c)"
  by (induction us arbitrary: c) simp_all

lemma fold_move_front:
  assumes "u \<in> set us" "distinct us" "\<And>x c. x \<in> set (takeWhile (\<lambda>x. x \<noteq> u) us) \<Longrightarrow> f x (f u c) = f u (f x c)"
  shows "fold f (filter (\<lambda>x. x \<noteq> u) us) (f u c) = fold f us c"
proof -
  obtain a b where us: "us = a @ u # b" using split_list [OF assms(1)] by blast
  then have "u \<notin> set a" "u \<notin> set b" using assms(2) by auto
  then have "filter (\<lambda>x. x \<noteq> u) us = a @ b" "takeWhile (\<lambda>x. x \<noteq> u) us = a"
    using us by (induction a arbitrary: us) (auto simp: filter_id_conv)
  moreover have "fold f a (f u c) = f u (fold f a c)"
    using assms(3) \<open>takeWhile (\<lambda>x. x \<noteq> u) us = a\<close> by (intro fold_commute_past) auto
  ultimately show ?thesis by (simp add: us)
qed

lemma sorted_wrt_takeWhile:
  "sorted_wrt R us \<Longrightarrow> u \<in> set us \<Longrightarrow> x \<in> set (takeWhile (\<lambda>x. x \<noteq> u) us) \<Longrightarrow> R x u"
  by (induction us) (auto split: if_splits)

lemma undo_list_set:
  assumes "log_ok off rs" "links_ok off rs" "8 \<le> off"
  shows "x \<in> set (undo_list L rs) \<longleftrightarrow> L (rec_txn x) \<and> x \<in> set (pending rs (rec_txn x))"
  using pending_props [OF assms] by (auto simp: undo_list_def)

lemma undo_list_descending: "log_ok off rs \<Longrightarrow> sorted_wrt (\<lambda>x y. rec_lsn y < rec_lsn x) (undo_list L rs)"
  using log_ok_sorted [of off rs] by (simp add: undo_list_def sorted_wrt_rev sorted_wrt_filter sorted_wrt_map)

lemma undo_list_eqI:
  assumes "log_ok off rs" "links_ok off rs" "8 \<le> off" "sorted_wrt (\<lambda>x y. rec_lsn y < rec_lsn x) us"
    and "\<And>x. x \<in> set us \<longleftrightarrow> L (rec_txn x) \<and> x \<in> set (pending rs (rec_txn x))"
  shows "undo_list L rs = us"
proof -
  have "set us = set (undo_list L rs)" using assms(5) undo_list_set [OF assms(1-3)] by auto
  moreover have "sorted_wrt (<) (map rec_lsn (rev us))" "sorted_wrt (<) (map rec_lsn (rev (undo_list L rs)))"
    using assms(4) undo_list_descending [OF assms(1), of L] by (simp_all add: sorted_wrt_rev sorted_wrt_map)
  moreover have "inj_on rec_lsn (set us \<union> set (undo_list L rs))"
    using calculation(1) log_ok_inj [OF assms(1)] by (auto simp: undo_list_def intro: inj_on_subset)
  ultimately have "map rec_lsn (rev us) = map rec_lsn (rev (undo_list L rs))"
    by (intro strict_sorted_equal) auto
  then have "map rec_lsn us = map rec_lsn (undo_list L rs)" by (simp add: rev_map [symmetric])
  then show ?thesis using \<open>inj_on rec_lsn (set us \<union> set (undo_list L rs))\<close> map_inj_on by metis
qed

lemma undo_list_snoc:
  assumes "log_ok off (rs @ [r])" "8 \<le> off" "links_ok off (rs @ [r])" "step_ok rs r"
  shows "undo_list L (rs @ [r]) =
    (if L (rec_txn r) \<and> is_undoable_action (rec_type r) \<and> undo r \<noteq> [] then [r] else []) @
    (if L (rec_txn r) \<and> rec_type r = RClr \<and> redo r \<noteq> []
     then filter (\<lambda>x. x \<noteq> hd (pending rs (rec_txn r))) (undo_list L rs) else undo_list L rs)"
    (is "_ = ?new @ ?old")
proof (rule undo_list_eqI [OF assms(1,3,2)])
  have ok: "log_ok off rs" using assms(1) by (simp add: log_ok_append)
  have lk: "links_ok off rs" by (rule links_ok_prefix [OF assms(1,3)])
  have older: "rec_lsn x < rec_lsn r" if "x \<in> set rs" for x
    using log_ok_sorted [OF assms(1)] that by (auto simp: sorted_wrt_append)
  have sub: "set ?old \<subseteq> set rs" by (auto simp: undo_list_def)
  show "sorted_wrt (\<lambda>x y. rec_lsn y < rec_lsn x) (?new @ ?old)"
    using undo_list_descending [OF ok, of L] older sub by (auto simp: sorted_wrt_append sorted_wrt_filter)
  fix x
  let ?P = "pending rs (rec_txn r)"
  note us = undo_list_set [OF ok lk assms(2), of x L]
  show "x \<in> set (?new @ ?old) \<longleftrightarrow> L (rec_txn x) \<and> x \<in> set (pending (rs @ [r]) (rec_txn x))"
  proof (cases "rec_txn x = rec_txn r")
    case False
    then have "x \<noteq> r" "x \<noteq> hd ?P \<or> ?P = []"
      using pending_props(2) [OF ok lk assms(2), of x "rec_txn r"] hd_in_set by (blast, metis)
    then show ?thesis using us False pending_snoc_other [OF assms(1,2)] assms(4)
      by (auto simp: step_ok_def Let_def)
  next
    case True
    note own = pending_snoc_own [OF assms(1-3)]
    show ?thesis
    proof (cases "rec_type r = RClr \<and> redo r \<noteq> []")
      case clr: True
      then have "?P \<noteq> []" "pending (rs @ [r]) (rec_txn r) = tl ?P"
        using own assms(4) by (auto simp: step_ok_def Let_def is_undoable_action_def)
      moreover from this have "x \<in> set (tl ?P) \<longleftrightarrow> x \<in> set ?P \<and> x \<noteq> hd ?P"
        using pending_descending [of rs "rec_txn r"] by (cases ?P) auto
      ultimately show ?thesis using us True clr by (auto simp: is_undoable_action_def)
    next
      case False
      then have "pending (rs @ [r]) (rec_txn r) =
          (if is_undoable_action (rec_type r) \<and> undo r \<noteq> [] then [r] else []) @ ?P"
        unfolding own using assms(4) by (simp only: step_ok_def Let_def if_False)
      then show ?thesis using us True False by auto
    qed
  qed
qed

lemma undo_restores_survivors:
  assumes "log_ok off rs" "8 \<le> off" "links_ok off rs" "disciplined rs"
    and "undo_images_ok act c0 rs" "isolated act L rs"
  shows "fold (undo_on act p) (undo_list L rs) (page_history act p rs (c0 p)) =
    page_history act p (filter (survives L) rs) (c0 p)"
  using assms(1,3-6)
proof (induction rs rule: rev_induct)
  case Nil
  then show ?case by (simp add: undo_list_def page_history_def)
next
  case (snoc r rs)
  let ?f = "undo_on act p" and ?h = "page_history act p rs (c0 p)" and ?t = "rec_txn r" and ?us = "undo_list L rs"
  have ok: "log_ok off rs" using snoc.prems(1) by (simp add: log_ok_append)
  have lk: "links_ok off rs" by (rule links_ok_prefix [OF snoc.prems(1,2)])
  have dis: "disciplined rs" "step_ok rs r" using snoc.prems(3) by (auto simp: disciplined_snoc)
  have iso: "isolated act L rs" using snoc.prems(5) by (auto simp: isolated_def)
  note img = undo_images_ok_snoc [OF snoc.prems(4), of p]
  have IH: "fold ?f ?us ?h = page_history act p (filter (survives L) rs) (c0 p)"
    using snoc.IH [OF ok lk dis(1) _ iso] img by simp
  note pp = pending_props [OF ok lk assms(2)] and us = undo_list_set [OF ok lk assms(2)]
  have older: "rec_lsn x < rec_lsn r" if "x \<in> set rs" for x
    using log_ok_sorted [OF snoc.prems(1)] that by (auto simp: sorted_wrt_append)
  have indep: "independent act u q"
    if "u \<in> set ?us" "q \<in> set (rs @ [r])" "rec_lsn u < rec_lsn q"
      "rec_txn q \<noteq> rec_txn u \<or> is_undoable_action (rec_type q) \<and> undo q = []" for u q
    using that snoc.prems(5) us [of u L] pp [of u "rec_txn u"] by (auto simp: isolated_def)
  note snoc_us = undo_list_snoc [OF snoc.prems(1) assms(2) snoc.prems(2) dis(2), of L]
  note hs = page_history_snoc [of act p]
  consider (new) "L ?t" "is_undoable_action (rec_type r)" "undo r \<noteq> []"
    | (clr) "L ?t" "rec_type r = RClr" "redo r \<noteq> []"
    | (kept) "survives L r" | (idle) "\<not> survives L r" "\<And>c. redo_on act p r c = c" "undo_list L (rs @ [r]) = ?us"
    using snoc_us dis(2)
    by (fastforce simp: survives_def redo_on_def step_ok_def Let_def is_page_change_def is_undoable_action_def)
  then show ?case
  proof cases
    case new
    then have "undo_list L (rs @ [r]) = r # ?us" "\<not> survives L r"
      using snoc_us by (auto simp: survives_def is_undoable_action_def)
    then show ?thesis using IH img new by (simp add: hs)
  next
    case clr
    define u where "u = hd (pending rs ?t)"
    have st: "pending rs ?t \<noteq> []" "redo r = undo u" "rec_page r = rec_page u"
      using dis(2) clr by (auto simp: step_ok_def Let_def u_def)
    then have u: "u \<in> set (pending rs ?t)" by (simp add: u_def)
    then have u': "u \<in> set ?us" "rec_txn u = ?t" "undo u \<noteq> []" using us [of u L] clr pp [OF u] by auto
    have comm: "?f x (?f u c) = ?f u (?f x c)" if x: "x \<in> set (takeWhile (\<lambda>x. x \<noteq> u) ?us)" for x c
    proof -
      have "rec_lsn u < rec_lsn x" by (rule sorted_wrt_takeWhile [OF undo_list_descending [OF ok, of L] u'(1) x])
      moreover have "x \<in> set ?us" using x by (rule set_takeWhileD [THEN conjunct1])
      moreover have "rec_txn x \<noteq> ?t"
      proof
        assume "rec_txn x = ?t"
        then have "x \<in> set (pending rs ?t)" using us [of x L] \<open>x \<in> set ?us\<close> by simp
        then show False using pending_descending [of rs ?t] \<open>rec_lsn u < rec_lsn x\<close> st(1)
          by (cases "pending rs ?t") (auto simp: u_def)
      qed
      ultimately show ?thesis using indep [of u x] u' us [of x L] pp [of x "rec_txn x"] by (auto simp: independent_def)
    qed
    have "redo_on act p r ?h = ?f u ?h" using st clr u'(3) by (simp add: redo_on_def undo_on_def is_page_change_def)
    moreover have "\<not> survives L r" using clr by (simp add: survives_def is_undoable_action_def)
    moreover have "distinct ?us" using log_ok_distinct [OF ok] by (simp add: undo_list_def)
    ultimately show ?thesis using fold_move_front [of u ?us ?f, OF u'(1) _ comm] snoc_us clr IH
      by (auto simp: hs is_undoable_action_def u_def [symmetric])
  next
    case kept
    have "undo_list L (rs @ [r]) = ?us" using snoc_us kept by (auto simp: survives_def is_undoable_action_def)
    moreover have "fold ?f ?us (redo_on act p r ?h) = redo_on act p r (fold ?f ?us ?h)"
    proof (rule fold_commute_past)
      fix u c assume u: "u \<in> set ?us"
      then have "L (rec_txn u)" "rec_lsn u < rec_lsn r" using us [of u L] pp [of u "rec_txn u"] older by auto
      then have "independent act u r" using indep [OF u, of r] kept by (auto simp: survives_def)
      then show "?f u (redo_on act p r c) = redo_on act p r (?f u c)" by (simp add: independent_def)
    qed
    ultimately show ?thesis using IH kept by (simp add: hs)
  next
    case idle
    then show ?thesis using IH by (simp add: hs)
  qed
qed

lemma ended_owes_nothing:
  assumes "log_ok off rs" "8 \<le> off" "links_ok off rs" "disciplined rs" "q \<in> set rs" "rec_type q = RAbort"
  shows "pending rs (rec_txn q) = []"
  using assms(1,3-6)
proof (induction rs rule: rev_induct)
  case (snoc r rs)
  have st: "disciplined rs" "step_ok rs r" using snoc.prems(3) by (auto simp: disciplined_snoc)
  show ?case
  proof (cases "rec_txn r = rec_txn q")
    case True
    then have "q = r" using st(2) snoc.prems(4,5) by (auto simp: step_ok_def Let_def finished_def)
    then show ?thesis using st(2) snoc.prems(5) pending_snoc_own [OF snoc.prems(1) assms(2) snoc.prems(2)]
      by (simp add: step_ok_def Let_def is_undoable_action_def)
  next
    case False
    then show ?thesis
      using snoc.IH [OF _ links_ok_prefix [OF snoc.prems(1,2)] st(1)] snoc.prems
        pending_snoc_other [OF snoc.prems(1) assms(2)] by (auto simp: log_ok_append)
  qed
qed simp

subsection \<open>The loser set\<close>

definition uncommitted :: "log_record list \<Rightarrow> txn_id \<Rightarrow> bool" where
  "uncommitted rs t \<longleftrightarrow> (\<forall>r \<in> set rs. rec_type r = RCommit \<longrightarrow> rec_txn r \<noteq> t)"

lemma analyse_committed:
  "an_committed (analyse r a) = (if rec_type r = RCommit then finsert (rec_txn r) (an_committed a) else an_committed a)"
  "an_ended (analyse r a) = (if rec_type r = RAbort then finsert (rec_txn r) (an_ended a) else an_ended a)"
  by (auto simp: analyse_def Let_def split: record_type.splits option.splits)

lemma fold_analyse_committed:
  "t |\<in>| an_committed (fold analyse rs analysis_new) \<longleftrightarrow> \<not> uncommitted rs t"
  "t |\<in>| an_ended (fold analyse rs analysis_new) \<longleftrightarrow> (\<exists>r \<in> set rs. rec_type r = RAbort \<and> rec_txn r = t)"
  by (induction rs rule: rev_induct) (auto simp: analyse_committed uncommitted_def analysis_new_def)

lemma disciplined_txn: "disciplined rs \<Longrightarrow> r \<in> set rs \<Longrightarrow> is_page_change (rec_type r) \<Longrightarrow> rec_txn r \<noteq> 0"
  by (auto simp: disciplined_def in_set_conv_nth step_ok_def Let_def)

lemma distinct_concat_map:
  assumes "distinct ts" "\<And>t. distinct (f t)" "\<And>t t' x. x \<in> set (f t) \<Longrightarrow> x \<in> set (f t') \<Longrightarrow> t = t'"
  shows "distinct (concat (map f ts))"
  using assms(1) by (induction ts) (auto simp: assms(2) dest: assms(3))

lemma undo_order_descending:
  assumes "distinct us" "inj_on rec_lsn (set us)"
  shows "sorted_wrt (\<lambda>x y. rec_lsn y < rec_lsn x) (undo_order us)"
proof -
  have "sorted_wrt (<) (map rec_lsn (sort_key rec_lsn us))"
    using assms by (simp add: strict_sorted_iff distinct_map)
  then show ?thesis by (simp add: undo_order_def sorted_wrt_rev sorted_wrt_map)
qed

lemma set_undo_order [simp]: "set (undo_order us) = set us"
  by (simp add: undo_order_def)

lemma owed_by_last_of:
  assumes "log_ok off rs" "8 \<le> off" "0 \<notin> set ts"
  shows "owed_by rs (fold analyse rs analysis_new) ts = concat (map (\<lambda>t. owed rs (last_of rs t)) ts)"
proof -
  have "(case fmlookup (an_txn_last (fold analyse rs analysis_new)) t of Some l \<Rightarrow> owed rs l | None \<Rightarrow> []) =
      owed rs (last_of rs t)" if "t \<noteq> 0" for t
    using last_of_analysis [OF that, of rs] owed_below [OF assms(1), of 0] assms(2) by (auto split: option.splits)
  then show ?thesis using assms(3) unfolding owed_by_def
    by (intro arg_cong [where f = concat] map_cong) (auto, metis)
qed

lemma owed_last_txn:
  assumes "log_ok off rs" "8 \<le> off" "links_ok off rs" "x \<in> set (owed rs (last_of rs t))"
  shows "rec_txn x = t"
proof -
  have "last_of rs t \<noteq> 0" using assms(4) owed_below [OF assms(1), of 0] assms(2) by auto
  then show ?thesis using last_of_record [of rs t] owed_txn [OF assms(1,3,2)] assms(4) by metis
qed

lemma loser_set_iff:
  "t |\<in>| loser_set (fold analyse rs analysis_new) \<longleftrightarrow> (\<exists>r \<in> set rs. rec_txn r = t) \<and> t \<noteq> 0 \<and>
     uncommitted rs t \<and> \<not> (\<exists>r \<in> set rs. rec_type r = RAbort \<and> rec_txn r = t)"
proof -
  have "t |\<in>| fmdom (an_txn_last (fold analyse rs analysis_new)) \<longleftrightarrow> (\<exists>r \<in> set rs. rec_txn r = t) \<and> t \<noteq> 0"
    by (induction rs rule: rev_induct) (auto simp: analyse_txn_last analysis_new_def)
  then show ?thesis by (auto simp: loser_set_def fold_analyse_committed)
qed

lemma owed_by_undo_list:
  assumes "log_ok off rs" "8 \<le> off" "links_ok off rs" "disciplined rs" "iterates order"
  shows "with_undo (undo_order (owed_by rs (fold analyse rs analysis_new)
    (order (loser_set (fold analyse rs analysis_new))))) = undo_list (uncommitted rs) rs"
proof (rule undo_list_eqI [OF assms(1,3,2), symmetric])
  let ?a = "fold analyse rs analysis_new"
  let ?ls = "order (loser_set ?a)"
  have ls: "t \<in> set ?ls \<longleftrightarrow> t |\<in>| loser_set ?a" "distinct ?ls" for t using assms(5) by (auto simp: iterates_def)
  then have "0 \<notin> set ?ls" by (simp add: loser_set_iff)
  note eq = owed_by_last_of [OF assms(1,2) this]
  have "distinct (owed_by rs ?a ?ls)" unfolding eq
    using owed_last_txn [OF assms(1-3)] ls(2) by (intro distinct_concat_map owed_distinct) auto
  moreover have "inj_on rec_lsn (set (owed_by rs ?a ?ls))"
    by (rule inj_on_subset [OF log_ok_inj [OF assms(1)]]) (auto simp: eq dest: owed_set)
  ultimately show "sorted_wrt (\<lambda>x y. rec_lsn y < rec_lsn x) (with_undo (undo_order (owed_by rs ?a ?ls)))"
    by (intro sorted_wrt_filter undo_order_descending)
  fix x
  note pp = pending_props [OF assms(1,3,2)]
  have "x \<in> set (with_undo (undo_order (owed_by rs ?a ?ls))) \<longleftrightarrow> (\<exists>t \<in> set ?ls. x \<in> set (pending rs t))"
    by (auto simp: eq pending_def)
  also have "\<dots> \<longleftrightarrow> rec_txn x \<in> set ?ls \<and> x \<in> set (pending rs (rec_txn x))" using pp(2) by blast
  also have "\<dots> \<longleftrightarrow> uncommitted rs (rec_txn x) \<and> x \<in> set (pending rs (rec_txn x))"
  proof -
    have "rec_txn x \<noteq> 0" "\<not> (\<exists>r \<in> set rs. rec_type r = RAbort \<and> rec_txn r = rec_txn x)" "x \<in> set rs"
      if "x \<in> set (pending rs (rec_txn x))"
      using that pp [OF that] disciplined_txn [OF assms(4), of x]
      by (auto simp: is_undoable_action_def is_page_change_def dest: ended_owes_nothing [OF assms(1-4)])
    then show ?thesis by (auto simp: ls(1) loser_set_iff)
  qed
  finally show "x \<in> set (with_undo (undo_order (owed_by rs ?a ?ls))) \<longleftrightarrow>
      uncommitted rs (rec_txn x) \<and> x \<in> set (pending rs (rec_txn x))" .
qed

end
