(* ===== verification/Wal_Run.thy ===== *)
theory Wal_Run
  imports Log_Discipline "HOL-Library.Sublist"
begin

text \<open>
  Runs of the log manager. Every sequence of calls that follows the manager's protocol leaves a
  well-formed, disciplined log whose durable part ends at a record boundary, so that the results on
  recovery apply to whatever a crash leaves.

  The protocol, which the manager's callers keep: a transaction id is begun once and is not 0; a
  transaction writes and commits only while it is open and not rolling back; it is closed only when
  its undo chain is drained (the debug assertion of \<^verbatim>\<open>finish_rollback\<close>). A call fits when its records
  keep the log below \<open>2 ^ 63\<close> bytes and a record below \<open>2 ^ 32\<close>, the range of its length field.
\<close>

locale recoverable_log = log_sink +
  assumes retains_law: "sk_retains_undo S s"
    and floor_append_law: "sk_reclaimed_floor S (sk_append S s bs) = sk_reclaimed_floor S s"
    and floor_sync_law: "sk_sync S s = (x, s') \<Longrightarrow> sk_reclaimed_floor S s' = sk_reclaimed_floor S s"

interpretation mem_log: recoverable_log mem_sink_ops mem_sink_ok durable_bytes mem_unsynced
  by unfold_locales
    (auto simp: mem_sink_ops_def mem_reclaimed_floor_def mem_append_def mem_sync_def split: if_splits)

datatype wal_op =
    OpBegin txn_id
  | OpUpdate txn_id page_id bytes bytes
  | OpRedoOnly txn_id page_id bytes
  | OpCommit txn_id
  | OpCommitAt txn_id timestamp
  | OpCommitNoSync txn_id timestamp
  | OpCompensate txn_id
  | OpFinishRollback txn_id
  | OpCheckpoint "(page_id \<times> lsn) list"
  | OpEnsureDurable lsn
  | OpFlush

fun do_op :: "(bytes \<Rightarrow> u32) \<Rightarrow> 's sink_ops \<Rightarrow> 's wal_manager \<Rightarrow> wal_op \<Rightarrow> 's wal_manager" where
  "do_op crc S m (OpBegin t) = snd (wal_begin crc S m t)"
| "do_op crc S m (OpUpdate t p rd ud) = snd (log_update crc S m t p rd ud)"
| "do_op crc S m (OpRedoOnly t p rd) = snd (log_update_redo_only crc S m t p rd)"
| "do_op crc S m (OpCommit t) = snd (wal_commit crc S m t)"
| "do_op crc S m (OpCommitAt t ts) = snd (commit_at crc S m t ts)"
| "do_op crc S m (OpCommitNoSync t ts) = snd (commit_at_no_sync crc S m t ts)"
| "do_op crc S m (OpCompensate t) = snd (compensate_next crc S m t)"
| "do_op crc S m (OpFinishRollback t) = snd (finish_rollback crc S m t)"
| "do_op crc S m (OpCheckpoint dpt) = snd (wal_checkpoint crc S m dpt)"
| "do_op crc S m (OpEnsureDurable l) = snd (ensure_durable S m l)"
| "do_op crc S m OpFlush = snd (wal_flush S m)"

text \<open>The ids used so far and the transactions that have begun to roll back.\<close>

record wal_ghost =
  used :: "txn_id list"
  rolling :: "txn_id list"

fun track :: "wal_ghost \<Rightarrow> wal_op \<Rightarrow> wal_ghost" where
  "track g (OpBegin t) = g\<lparr>used := t # used g\<rparr>"
| "track g (OpCompensate t) = g\<lparr>rolling := t # rolling g\<rparr>"
| "track g _ = g"

fun op_allowed :: "wal_ghost \<Rightarrow> 's wal_manager \<Rightarrow> wal_op \<Rightarrow> bool" where
  "op_allowed g m (OpBegin t) \<longleftrightarrow> t \<noteq> 0 \<and> t \<notin> set (used g)"
| "op_allowed g m (OpUpdate t p rd ud) \<longleftrightarrow> wal_is_active m t \<and> t \<notin> set (rolling g)"
| "op_allowed g m (OpRedoOnly t p rd) \<longleftrightarrow> wal_is_active m t \<and> t \<notin> set (rolling g)"
| "op_allowed g m (OpCommit t) \<longleftrightarrow> t \<notin> set (rolling g)"
| "op_allowed g m (OpCommitAt t ts) \<longleftrightarrow> t \<notin> set (rolling g)"
| "op_allowed g m (OpCommitNoSync t ts) \<longleftrightarrow> t \<notin> set (rolling g)"
| "op_allowed g m (OpFinishRollback t) \<longleftrightarrow> undo_chain_len m t = 0"
| "op_allowed g m _ \<longleftrightarrow> True"

definition op_fits :: "(bytes \<Rightarrow> u32) \<Rightarrow> 's sink_ops \<Rightarrow> 's wal_manager \<Rightarrow> wal_op \<Rightarrow> bool" where
  "op_fits crc S m op \<longleftrightarrow>
     (let n = sk_buffered_len S (wal_sink m); n' = sk_buffered_len S (wal_sink (do_op crc S m op))
      in n' < 2 ^ 63 \<and> n' < n + 2 ^ 32)"

fun run_ok :: "(bytes \<Rightarrow> u32) \<Rightarrow> 's sink_ops \<Rightarrow> wal_ghost \<Rightarrow> 's wal_manager \<Rightarrow> wal_op list \<Rightarrow> bool" where
  "run_ok crc S g m [] \<longleftrightarrow> True"
| "run_ok crc S g m (op # ops) \<longleftrightarrow> op_allowed g m op \<and> op_fits crc S m op \<and>
     run_ok crc S (track g op) (do_op crc S m op) ops"

definition run_ops :: "(bytes \<Rightarrow> u32) \<Rightarrow> 's sink_ops \<Rightarrow> 's wal_manager \<Rightarrow> wal_op list \<Rightarrow> 's wal_manager" where
  "run_ops crc S m ops = foldl (do_op crc S) m ops"

definition ghost_new :: wal_ghost where
  "ghost_new = \<lparr>used = [], rolling = []\<rparr>"

subsection \<open>The invariant\<close>

definition entry_ok :: "log_record list \<Rightarrow> txn_id \<Rightarrow> undo_entry \<Rightarrow> bool" where
  "entry_ok rs t e \<longleftrightarrow> (\<exists>q \<in> set rs. rec_lsn q = ue_lsn e \<and> rec_type q = RUpdate \<and> rec_txn q = t \<and>
     rec_page q = ue_page e \<and> undo q = ue_undo e \<and> prev_lsn q = ue_prev e)"

text \<open>The in-memory undo chain, newest first, is what the log owes from \<open>l\<close> on.\<close>

primrec undo_chain_ok :: "log_record list \<Rightarrow> txn_id \<Rightarrow> lsn \<Rightarrow> undo_entry list \<Rightarrow> bool" where
  "undo_chain_ok rs t l [] \<longleftrightarrow> with_undo (owed rs l) = []"
| "undo_chain_ok rs t l (e # es) \<longleftrightarrow> entry_ok rs t e \<and> with_undo (owed rs l) = with_undo (owed rs (ue_lsn e)) \<and>
     undo_chain_ok rs t (ue_prev e) es"

text \<open>A transaction has no record before its first LSN.\<close>

definition starts_at :: "log_record list \<Rightarrow> txn_id \<Rightarrow> lsn \<Rightarrow> bool" where
  "starts_at rs t l \<longleftrightarrow> (\<forall>q \<in> set rs. rec_txn q = t \<longrightarrow> l \<le> rec_lsn q)"

definition txn_ok :: "wal_ghost \<Rightarrow> log_record list \<Rightarrow> txn_id \<Rightarrow> txn_state \<Rightarrow> bool" where
  "txn_ok g rs t st \<longleftrightarrow> t \<noteq> 0 \<and> t \<in> set (used g) \<and> \<not> finished rs t \<and> starts_at rs t (first_lsn st) \<and>
     undo_chain_ok rs t (last_of rs t) (rev (undo_chain st)) \<and>
     (t \<notin> set (rolling g) \<longrightarrow> last_lsn st = last_of rs t \<and> last_of rs t \<noteq> 0)"

definition active_ok :: "wal_ghost \<Rightarrow> log_record list \<Rightarrow> (txn_id, txn_state) fmap \<Rightarrow> bool" where
  "active_ok g rs act \<longleftrightarrow> (\<forall>t st. fmlookup act t = Some st \<longrightarrow> txn_ok g rs t st)"

definition log_inv :: "wal_ghost \<Rightarrow> log_record list \<Rightarrow> (txn_id, txn_state) fmap \<Rightarrow> bool" where
  [invs]: "log_inv g rs act \<longleftrightarrow> log_ok HEADER_LEN rs \<and> HEADER_LEN + log_len rs < 2 ^ 63 \<and> links_ok HEADER_LEN rs \<and>
     disciplined rs \<and> active_ok g rs act \<and> (\<forall>r \<in> set rs. if rec_txn r = 0 then
       rec_type r \<in> {RCheckpointBegin, RCheckpointEnd} else rec_txn r \<in> set (used g))"

subsection \<open>Appending a record\<close>

lemma owed_with_undo_snoc:
  "log_ok off (rs @ [r]) \<Longrightarrow> l < rec_lsn r \<Longrightarrow> with_undo (owed (rs @ [r]) l) = with_undo (owed rs l)"
  by (simp add: owed_snoc)

lemma entry_ok_snoc: "entry_ok rs t e \<Longrightarrow> entry_ok (rs @ [r]) t e"
  by (auto simp: entry_ok_def)

lemma entry_lsn_less:
  assumes "log_ok off (rs @ [r])" "entry_ok rs t e"
  shows "ue_lsn e < rec_lsn r"
  using assms log_ok_sorted [OF assms(1)] by (auto simp: entry_ok_def sorted_wrt_append)

lemma entry_prev_less:
  assumes "log_ok off (rs @ [r])" "8 \<le> off" "links_ok off rs" "entry_ok rs t e"
  shows "ue_prev e < rec_lsn r"
proof -
  from assms(4) obtain q where q: "q \<in> set rs" "rec_type q = RUpdate" "prev_lsn q = ue_prev e"
    by (auto simp: entry_ok_def)
  have "off \<le> unat (rec_lsn r)" using log_ok_bounds [OF assms(1), of r] by simp
  moreover have "undo_link q = 0 \<or> unat (undo_link q) < off \<or> undo_link q < rec_lsn q"
    using bspec [OF assms(3) [unfolded links_ok_def] q(1)] by auto
  moreover have "rec_lsn q < rec_lsn r" using log_ok_sorted [OF assms(1)] q(1) by (auto simp: sorted_wrt_append)
  ultimately show ?thesis using q assms(2) by (auto simp: undo_link_def word_less_nat_alt)
qed

lemma undo_chain_ok_snoc:
  assumes "log_ok off (rs @ [r])" "8 \<le> off" "links_ok off rs"
  shows "l < rec_lsn r \<Longrightarrow> undo_chain_ok rs t l es \<Longrightarrow> undo_chain_ok (rs @ [r]) t l es"
proof (induction es arbitrary: l)
  case (Cons e es)
  then have e: "entry_ok rs t e" by simp
  note less = entry_lsn_less [OF assms(1) e] entry_prev_less [OF assms e]
  show ?case using Cons less owed_with_undo_snoc [OF assms(1)] by (simp add: entry_ok_snoc)
qed (simp add: owed_snoc [OF assms(1)])

lemma undo_chain_ok_link:
  "undo_chain_ok rs t l es \<Longrightarrow> with_undo (owed rs l') = with_undo (owed rs l) \<Longrightarrow> undo_chain_ok rs t l' es"
  by (cases es) auto

lemma txn_ok_snoc_other:
  assumes "log_ok off (rs @ [r])" "8 \<le> off" "links_ok off rs" "rec_txn r \<noteq> t" "txn_ok g rs t st"
  shows "txn_ok g (rs @ [r]) t st"
  using assms undo_chain_ok_snoc [OF assms(1-3) last_of_less [OF assms(1,2)]]
  by (auto simp: txn_ok_def last_of_snoc finished_def starts_at_def)

text \<open>The record at the end of the log, as it is written there.\<close>

definition placed :: "log_record list \<Rightarrow> log_record \<Rightarrow> log_record" where
  "placed rs r = r\<lparr>rec_lsn := of_nat (HEADER_LEN + log_len rs)\<rparr>"

lemma placed_simps [simp]:
  "rec_txn (placed rs r) = rec_txn r" "rec_type (placed rs r) = rec_type r" "rec_page (placed rs r) = rec_page r"
  "prev_lsn (placed rs r) = prev_lsn r" "undo_next_lsn (placed rs r) = undo_next_lsn r"
  "redo (placed rs r) = redo r" "undo (placed rs r) = undo r" "encoded_len (placed rs r) = encoded_len r"
  "undo_link (placed rs r) = undo_link r" "rec_lsn (placed rs r) = of_nat (HEADER_LEN + log_len rs)"
  by (simp_all add: placed_def undo_link_def encoded_len_def)

lemma step_ok_placed [simp]: "step_ok rs (placed rs' r) \<longleftrightarrow> step_ok rs r"
  by (simp add: step_ok_def)

definition fits :: "log_record list \<Rightarrow> log_record \<Rightarrow> bool" where
  "fits rs r \<longleftrightarrow> encoded_len r < 2 ^ 32 \<and> HEADER_LEN + log_len rs + encoded_len r < 2 ^ 63"

lemma log_ok_placed:
  assumes "log_ok HEADER_LEN rs" "fits rs r"
  shows "log_ok HEADER_LEN (rs @ [placed rs r])"
  using assms by (simp add: log_ok_append fits_def unat_of_nat take_bit_nat_eq_self del: of_nat_add)

lemma header_len_8 [simp]: "8 \<le> HEADER_LEN" "0 < HEADER_LEN"
  by (simp_all add: HEADER_LEN_def)

lemma log_inv_append:
  assumes inv: "log_inv g rs act" and f: "fits rs r" and st: "step_ok rs r"
    and lk: "unat (undo_link r) < HEADER_LEN \<or> (\<exists>q \<in> set rs. rec_lsn q = undo_link r \<and> rec_txn q = rec_txn r)"
    and us: "if rec_txn r = 0 then rec_type r \<in> {RCheckpointBegin, RCheckpointEnd} else rec_txn r \<in> set (used g')"
      "set (used g) \<subseteq> set (used g')"
    and rb: "\<And>t. t \<noteq> rec_txn r \<Longrightarrow> t \<in> set (rolling g') \<longleftrightarrow> t \<in> set (rolling g)"
    and same: "\<And>t. t \<noteq> rec_txn r \<Longrightarrow> fmlookup act' t = fmlookup act t \<or> fmlookup act' t = None"
    and own: "\<And>s. fmlookup act' (rec_txn r) = Some s \<Longrightarrow> txn_ok g' (rs @ [placed rs r]) (rec_txn r) s"
  shows "log_inv g' (rs @ [placed rs r]) act'"
proof -
  let ?rs = "rs @ [placed rs r]"
  note i = inv [unfolded log_inv_def]
  have ok: "log_ok HEADER_LEN ?rs" using i f by (intro log_ok_placed) auto
  have "rec_lsn q < rec_lsn (placed rs r)" if "q \<in> set rs" for q
    using log_ok_sorted [OF ok] that by (auto simp: sorted_wrt_append)
  then have "links_ok HEADER_LEN ?rs" using i lk unfolding links_ok_def by (auto simp del: placed_simps(10))
  moreover have "txn_ok g' ?rs t s" if t: "fmlookup act' t = Some s" for t s
  proof (cases "t = rec_txn r")
    case False
    then have "txn_ok g rs t s" using same [OF False] t i by (auto simp: active_ok_def)
    then have "txn_ok g ?rs t s" using txn_ok_snoc_other [OF ok header_len_8(1)] False i by auto
    then show ?thesis using us(2) rb [OF False] by (auto simp: txn_ok_def)
  qed (use own t in auto)
  moreover have "disciplined ?rs" using i st by (simp add: disciplined_snoc)
  moreover have "\<forall>q \<in> set ?rs. if rec_txn q = 0 then rec_type q \<in> {RCheckpointBegin, RCheckpointEnd} else rec_txn q \<in> set (used g')"
    using i us by (fastforce split: if_splits)
  moreover have "HEADER_LEN + log_len ?rs < 2 ^ 63" using f by (simp add: fits_def)
  ultimately show ?thesis unfolding log_inv_def active_ok_def using ok by blast
qed

subsection \<open>What each call appends\<close>

definition sink_inv ::
  "('s \<Rightarrow> bool) \<Rightarrow> ('s \<Rightarrow> bytes) \<Rightarrow> ('s \<Rightarrow> bytes) \<Rightarrow> (bytes \<Rightarrow> u32) \<Rightarrow> 's \<Rightarrow> log_record list \<Rightarrow> bool" where
  [invs]: "sink_inv okf im un crc s rs \<longleftrightarrow> okf s \<and> im s @ un s = wal_header @ log_image crc rs \<and>
     (\<exists>k \<le> length rs. im s = wal_header @ log_image crc (take k rs))"

definition run_inv ::
  "('s \<Rightarrow> bool) \<Rightarrow> ('s \<Rightarrow> bytes) \<Rightarrow> ('s \<Rightarrow> bytes) \<Rightarrow> (bytes \<Rightarrow> u32) \<Rightarrow> wal_ghost \<Rightarrow> 's wal_manager \<Rightarrow>
     log_record list \<Rightarrow> bool" where
  [invs]: "run_inv okf im un crc g m rs \<longleftrightarrow>
     sink_inv okf im un crc (wal_sink m) rs \<and> log_inv g rs (wal_active m)"

lemma length_wal_header [simp]: "length wal_header = HEADER_LEN"
  by (simp add: wal_header_def HEADER_LEN_def)

lemma record_bytes_placed: "record_bytes crc (placed rs r) = encode crc r (of_nat (HEADER_LEN + log_len rs))"
  by (simp add: placed_def encode_eq record_body_def Let_def)

lemma encode_header_images:
  "redo r = [] \<Longrightarrow> undo r = [] \<Longrightarrow>
     fst (snd (encode_header_to crc r l rd ud [])) = encode crc (r\<lparr>redo := rd, undo := ud\<rparr>) l"
  by (simp add: encode_eq encode_header_to_def record_body_def Let_def)

subsection \<open>The records of an open transaction\<close>

lemma last_of_unused: "(\<forall>r \<in> set rs. rec_txn r \<noteq> t) \<Longrightarrow> last_of rs t = 0"
  by (induction rs rule: rev_induct) (auto simp: last_of_snoc)

lemma owed_null: "log_ok HEADER_LEN rs \<Longrightarrow> owed rs 0 = []"
  by (simp add: owed_below HEADER_LEN_def)

lemma owed_own:
  assumes "log_inv g rs act" "fits rs r" "links_ok HEADER_LEN (rs @ [placed rs r])"
  shows "with_undo (owed (rs @ [placed rs r]) (rec_lsn (placed rs r))) =
    (if is_undoable_action (rec_type r) \<and> undo r \<noteq> [] then [placed rs r] else []) @ with_undo (owed rs (undo_link r))"
  using pending_snoc_own [OF log_ok_placed header_len_8(1) assms(3)] assms(1,2)
  by (simp add: pending_def last_of_snoc log_inv_def)

lemma links_ok_append:
  assumes "log_inv g rs act" "fits rs r"
    and "unat (undo_link r) < HEADER_LEN \<or> (\<exists>q \<in> set rs. rec_lsn q = undo_link r \<and> rec_txn q = rec_txn r)"
  shows "links_ok HEADER_LEN (rs @ [placed rs r])"
proof -
  have "rec_lsn q < rec_lsn (placed rs r)" if "q \<in> set rs" for q
    using log_ok_sorted [OF log_ok_placed] assms(1,2) that by (auto simp: sorted_wrt_append log_inv_def)
  then show ?thesis using assms(1,3) unfolding links_ok_def log_inv_def by (auto simp del: placed_simps(10))
qed

text \<open>
  A record of an open transaction \<open>t\<close> that keeps it open: the state after it is right if the chain
  is the one the new record starts.
\<close>

lemma log_inv_open:
  assumes inv: "log_inv g rs act" and f: "fits rs r" and st: "step_ok rs r" and t: "rec_txn r \<noteq> 0" "rec_type r \<notin> {RCommit, RAbort}"
    and lk: "unat (undo_link r) < HEADER_LEN \<or> (\<exists>q \<in> set rs. rec_lsn q = undo_link r \<and> rec_txn q = rec_txn r)"
    and g': "rec_txn r \<in> set (used g')" "set (used g) \<subseteq> set (used g')"
      "\<And>t. t \<noteq> rec_txn r \<Longrightarrow> t \<in> set (rolling g') \<longleftrightarrow> t \<in> set (rolling g)"
    and l: "rec_txn r \<notin> set (rolling g') \<Longrightarrow> last_lsn s = of_nat (HEADER_LEN + log_len rs)"
    and c: "undo_chain_ok (rs @ [placed rs r]) (rec_txn r) (of_nat (HEADER_LEN + log_len rs)) (rev (undo_chain s))"
    and fl: "starts_at rs (rec_txn r) (first_lsn s)" "first_lsn s \<le> of_nat (HEADER_LEN + log_len rs)"
  shows "log_inv g' (rs @ [placed rs r]) (fmupd (rec_txn r) s act)"
proof (rule log_inv_append [OF inv f st lk])
  have "log_ok HEADER_LEN (rs @ [placed rs r])" using inv f by (intro log_ok_placed) (auto simp: log_inv_def)
  then have "HEADER_LEN \<le> unat (rec_lsn (placed rs r))" using log_ok_bounds by fastforce
  then have "rec_lsn (placed rs r) \<noteq> 0" by (auto simp: HEADER_LEN_def simp del: placed_simps)
  then have "txn_ok g' (rs @ [placed rs r]) (rec_txn r) s"
    using g' t l c st fl by (auto simp: txn_ok_def last_of_snoc finished_def step_ok_def Let_def starts_at_def simp del: of_nat_add)
  then show "\<And>sa. fmlookup (fmupd (rec_txn r) s act) (rec_txn r) = Some sa \<Longrightarrow> txn_ok g' (rs @ [placed rs r]) (rec_txn r) sa"
    by simp
qed (use g' t in auto)

lemma log_inv_begin:
  assumes inv: "log_inv g rs act" and f: "fits rs r" and t: "t \<noteq> 0" "t \<notin> set (used g)" and r: "r = log_record_new RBegin t 0"
  shows "log_inv (g\<lparr>used := t # used g\<rparr>) (rs @ [placed rs r])
    (fmupd t \<lparr>first_lsn = of_nat (HEADER_LEN + log_len rs), last_lsn = of_nat (HEADER_LEN + log_len rs), undo_chain = []\<rparr> act)"
proof -
  have no: "\<forall>q \<in> set rs. rec_txn q \<noteq> t" using inv t by (auto simp: log_inv_def)
  have [simp]: "undo_link r = 0" "rec_txn r = t" "rec_type r = RBegin" by (simp_all add: r undo_link_def log_record_new_def)
  have ok: "log_ok HEADER_LEN rs" using inv by (simp add: log_inv_def)
  then have st: "step_ok rs r"
    using no t owed_null [OF ok] by (auto simp: step_ok_def Let_def finished_def pending_def last_of_unused)
  have "with_undo (owed (rs @ [placed rs r]) (rec_lsn (placed rs r))) = []"
    using owed_own [OF inv f links_ok_append [OF inv f]] owed_null [OF ok] by (simp add: is_undoable_action_def)
  then show ?thesis
    using log_inv_open [OF inv f st, of "g\<lparr>used := t # used g\<rparr>" "\<lparr>first_lsn = of_nat (HEADER_LEN + log_len rs),
        last_lsn = of_nat (HEADER_LEN + log_len rs), undo_chain = []\<rparr>"] t no
    by (simp add: subset_insertI starts_at_def del: of_nat_add)
qed

lemma open_last_record:
  assumes "log_inv g rs act" "fmlookup act t = Some st" "t \<notin> set (rolling g)"
  shows "\<exists>q \<in> set rs. rec_lsn q = last_lsn st \<and> rec_txn q = t" "last_lsn st = last_of rs t" "t \<noteq> 0"
    "t \<in> set (used g)" "\<not> finished rs t"
  using assms last_of_record [of rs t] by (auto simp: log_inv_def active_ok_def txn_ok_def)

lemma open_first:
  assumes "log_inv g rs act" "fits rs r" "fmlookup act t = Some st" "q \<in> set rs" "rec_txn q = t"
  shows "starts_at rs t (first_lsn st)" "first_lsn st \<le> of_nat (HEADER_LEN + log_len rs)"
proof -
  show s: "starts_at rs t (first_lsn st)" using assms(1,3) by (auto simp: log_inv_def active_ok_def txn_ok_def)
  have "log_ok HEADER_LEN (rs @ [placed rs r])" using assms(1,2) log_ok_placed by (auto simp: log_inv_def)
  from log_ok_sorted [OF this] assms(4) have "rec_lsn q < of_nat (HEADER_LEN + log_len rs)"
    by (auto simp: sorted_wrt_append simp del: of_nat_add)
  then show "first_lsn st \<le> of_nat (HEADER_LEN + log_len rs)"
    using s assms(4,5) by (auto simp: starts_at_def simp del: of_nat_add)
qed

lemma step_ok_open:
  assumes "log_inv g rs act" "fmlookup act t = Some st" "t \<notin> set (rolling g)"
    and "rec_txn r = t" "rec_type r \<notin> {RAbort, RClr, RFullPageImage}" "prev_lsn r = last_lsn st"
  shows "step_ok rs r"
  using open_last_record [OF assms(1-3)] assms(4-6) by (auto simp: step_ok_def Let_def undo_link_def pending_def)

lemma log_inv_update:
  assumes inv: "log_inv g rs act" and f: "fits rs r" and t: "fmlookup act t = Some st" "t \<notin> set (rolling g)"
    and r: "rec_txn r = t" "rec_type r = RUpdate" "prev_lsn r = last_lsn st" "rec_page r = p" "undo r = ud"
    and l: "l = of_nat (HEADER_LEN + log_len rs)"
  shows "log_inv g (rs @ [placed rs r]) (fmupd t (st\<lparr>last_lsn := l,
      undo_chain := undo_chain st @ [\<lparr>ue_lsn = l, ue_page = p, ue_undo = ud, ue_prev = last_lsn st\<rparr>]\<rparr>) act)"
    and "ud = [] \<Longrightarrow> log_inv g (rs @ [placed rs r]) (fmupd t (st\<lparr>last_lsn := l\<rparr>) act)"
proof -
  note o = open_last_record [OF inv t]
  from o(1) obtain q0 where "q0 \<in> set rs" "rec_txn q0 = t" by blast
  note fl = open_first [OF inv f t(1) this]
  have lk: "unat (undo_link r) < HEADER_LEN \<or> (\<exists>q \<in> set rs. rec_lsn q = undo_link r \<and> rec_txn q = rec_txn r)"
    using o(1) r by (auto simp: undo_link_def)
  have st: "step_ok rs r" using step_ok_open [OF inv t r(1)] r by simp
  have ok: "log_ok HEADER_LEN (rs @ [placed rs r])" using inv f by (intro log_ok_placed) (auto simp: log_inv_def)
  have ch: "undo_chain_ok (rs @ [placed rs r]) t (last_lsn st) (rev (undo_chain st))"
    using undo_chain_ok_snoc [OF ok header_len_8(1) _ last_of_less [OF ok header_len_8(1)]] inv t o(2)
    by (auto simp: log_inv_def active_ok_def txn_ok_def)
  have own: "with_undo (owed (rs @ [placed rs r]) (of_nat (HEADER_LEN + log_len rs))) =
      (if ud \<noteq> [] then [placed rs r] else []) @ with_undo (owed (rs @ [placed rs r]) (last_lsn st))"
    using owed_own [OF inv f links_ok_append [OF inv f lk]] owed_snoc [OF ok, of "last_lsn st"]
      last_of_less [OF ok header_len_8(1), of t] o(2) r by (simp add: is_undoable_action_def undo_link_def)
  have "entry_ok (rs @ [placed rs r]) t \<lparr>ue_lsn = l, ue_page = p, ue_undo = ud, ue_prev = last_lsn st\<rparr>"
    using r l by (auto simp: entry_ok_def)
  then show "log_inv g (rs @ [placed rs r]) (fmupd t (st\<lparr>last_lsn := l,
      undo_chain := undo_chain st @ [\<lparr>ue_lsn = l, ue_page = p, ue_undo = ud, ue_prev = last_lsn st\<rparr>]\<rparr>) act)"
    using log_inv_open [OF inv f st _ _ lk, where g' = g] o r l ch fl by (simp del: of_nat_add)
  show "log_inv g (rs @ [placed rs r]) (fmupd t (st\<lparr>last_lsn := l\<rparr>) act)" if "ud = []"
    using log_inv_open [OF inv f st _ _ lk, where g' = g and s = "st\<lparr>last_lsn := l\<rparr>"] o r l undo_chain_ok_link [OF ch] own that fl
    by (simp del: of_nat_add)
qed

lemma log_inv_compensate:
  assumes inv: "log_inv g rs act" and f: "fits rs r" and t: "fmlookup act t = Some st" "undo_chain st \<noteq> []"
    and e: "e = last (undo_chain st)"
    and r: "rec_txn r = t" "rec_type r = RClr" "undo_next_lsn r = ue_prev e" "rec_page r = ue_page e" "redo r = ue_undo e" "undo r = []"
  shows "log_inv (g\<lparr>rolling := t # rolling g\<rparr>) (rs @ [placed rs r]) (fmupd t (st\<lparr>undo_chain := butlast (undo_chain st)\<rparr>) act)"
proof -
  have tx: "txn_ok g rs t st" using inv t by (auto simp: log_inv_def active_ok_def)
  have ok: "log_ok HEADER_LEN rs" "log_ok HEADER_LEN (rs @ [placed rs r])" and lo: "links_ok HEADER_LEN rs"
    using inv f log_ok_placed by (auto simp: log_inv_def)
  have newest: "rev (undo_chain st) = e # rev (butlast (undo_chain st))"
    using t(2) e by (cases "undo_chain st" rule: rev_cases) simp_all
  have "undo_chain_ok rs t (last_of rs t) (rev (undo_chain st))" using tx unfolding txn_ok_def by (elim conjE)
  then have "undo_chain_ok rs t (last_of rs t) (e # rev (butlast (undo_chain st)))" unfolding newest .
  then have c: "entry_ok rs t e" "pending rs t = with_undo (owed rs (ue_lsn e))"
    "undo_chain_ok rs t (ue_prev e) (rev (butlast (undo_chain st)))"
    by (simp_all add: pending_def)
  from c(1) obtain q where q: "q \<in> set rs" "rec_lsn q = ue_lsn e" "rec_type q = RUpdate" "rec_txn q = t"
    "rec_page q = ue_page e" "undo q = ue_undo e" "prev_lsn q = ue_prev e"
    by (auto simp: entry_ok_def)
  have link: "undo_link r = ue_prev e" using r by (simp add: undo_link_def)
  have "owed rs (ue_lsn e) = q # owed rs (ue_prev e)"
    using owed_record [OF ok(1) q(1) lo header_len_8(1)] q by (simp add: is_undoable_action_def undo_link_def)
  then have p: "pending rs t = (if ue_undo e \<noteq> [] then [q] else []) @ with_undo (owed rs (ue_prev e))"
    using c(2) q by simp
  then have st: "step_ok rs r"
    using r q tx link by (auto simp: step_ok_def Let_def txn_ok_def)
  have lk: "unat (undo_link r) < HEADER_LEN \<or> (\<exists>q \<in> set rs. rec_lsn q = undo_link r \<and> rec_txn q = rec_txn r)"
    using bspec [OF lo [unfolded links_ok_def] q(1)] q link r by (auto simp: undo_link_def HEADER_LEN_def)
  have own: "with_undo (owed (rs @ [placed rs r]) (of_nat (HEADER_LEN + log_len rs))) = with_undo (owed rs (ue_prev e))"
    using owed_own [OF inv f links_ok_append [OF inv f lk]] r link by (simp add: is_undoable_action_def)
  have less: "ue_prev e < rec_lsn (placed rs r)" by (rule entry_prev_less [OF ok(2) header_len_8(1) lo c(1)])
  have "with_undo (owed (rs @ [placed rs r]) (of_nat (HEADER_LEN + log_len rs))) =
      with_undo (owed (rs @ [placed rs r]) (ue_prev e))"
    unfolding own owed_snoc [OF ok(2) less] by (rule refl)
  then have "undo_chain_ok (rs @ [placed rs r]) t (of_nat (HEADER_LEN + log_len rs)) (rev (butlast (undo_chain st)))"
    by (rule undo_chain_ok_link [OF undo_chain_ok_snoc [OF ok(2) header_len_8(1) lo less c(3)]])
  then show ?thesis
    using log_inv_open [OF inv f st _ _ lk, of "g\<lparr>rolling := t # rolling g\<rparr>"] r tx open_first [OF inv f t(1) q(1,4)]
    by (simp add: txn_ok_def del: of_nat_add)
qed

text \<open>A record that closes its transaction.\<close>

lemma log_inv_close:
  assumes inv: "log_inv g rs act" and f: "fits rs r" and t: "fmlookup act t = Some st" and r: "rec_txn r = t"
    and c: "rec_type r = RCommit \<and> prev_lsn r = last_lsn st \<and> t \<notin> set (rolling g) \<or>
      rec_type r = RAbort \<and> prev_lsn r = 0 \<and> undo_chain st = []"
  shows "log_inv g (rs @ [placed rs r]) (fmdrop t act)"
proof -
  have tx: "txn_ok g rs t st" using inv t by (auto simp: log_inv_def active_ok_def)
  have ok: "log_ok HEADER_LEN rs" using inv by (simp add: log_inv_def)
  have "step_ok rs r \<and> (unat (undo_link r) < HEADER_LEN \<or> (\<exists>q \<in> set rs. rec_lsn q = undo_link r \<and> rec_txn q = rec_txn r))"
    using c
  proof
    assume co: "rec_type r = RCommit \<and> prev_lsn r = last_lsn st \<and> t \<notin> set (rolling g)"
    then show ?thesis using step_ok_open [OF inv t _ r] open_last_record [OF inv t] r by (auto simp: undo_link_def)
  next
    assume "rec_type r = RAbort \<and> prev_lsn r = 0 \<and> undo_chain st = []"
    then show ?thesis using tx r owed_null [OF ok]
      by (auto simp: step_ok_def Let_def undo_link_def txn_ok_def pending_def is_page_change_def)
  qed
  then show ?thesis using tx r by (intro log_inv_append [OF inv f]) (auto simp: txn_ok_def)
qed

text \<open>A checkpoint record belongs to no transaction.\<close>

lemma log_inv_checkpoint:
  assumes inv: "log_inv g rs act" and f: "fits rs r" and r: "rec_txn r = 0" "prev_lsn r = 0" "rec_type r \<in> {RCheckpointBegin, RCheckpointEnd}"
  shows "log_inv g (rs @ [placed rs r]) act"
proof (rule log_inv_append [OF inv f])
  have ok: "log_ok HEADER_LEN rs" and lo: "links_ok HEADER_LEN rs" and di: "disciplined rs"
    using inv by (auto simp: log_inv_def)
  have "x \<notin> set (pending rs 0)" for x
    using pending_props [OF ok lo header_len_8(1), of x 0] disciplined_txn [OF di, of x]
    by (auto simp: is_undoable_action_def is_page_change_def)
  then have "pending rs 0 = []" by (metis list.set_intros(1) neq_Nil_conv)
  moreover have "\<not> finished rs 0" using inv by (auto simp: finished_def log_inv_def)
  ultimately show "step_ok rs r" using r owed_null [OF ok]
    by (auto simp: step_ok_def Let_def undo_link_def is_page_change_def)
  show "unat (undo_link r) < HEADER_LEN \<or> (\<exists>q \<in> set rs. rec_lsn q = undo_link r \<and> rec_txn q = rec_txn r)" using r by (auto simp: undo_link_def HEADER_LEN_def)
qed (use r inv in \<open>auto simp: log_inv_def active_ok_def txn_ok_def\<close>)

context recoverable_log
begin

abbreviation "sinv \<equiv> sink_inv ok image unsynced"
abbreviation "rinv \<equiv> run_inv ok image unsynced"

lemma append_sinv:
  assumes "sinv crc (wal_sink m) rs" "wal_append crc S m r = (l, m1)"
  shows "l = of_nat (HEADER_LEN + log_len rs)" "sinv crc (wal_sink m1) (rs @ [placed rs r])"
    "wal_active m1 = wal_active m" "sk_buffered_len S (wal_sink m1) = sk_buffered_len S (wal_sink m) + encoded_len r"
    "sk_buffered_len S (wal_sink m) = HEADER_LEN + log_len rs"
proof -
  have ok: "ok (wal_sink m)" and all: "image (wal_sink m) @ unsynced (wal_sink m) = wal_header @ log_image crc rs"
    using assms(1) by (auto simp: sink_inv_def)
  note w = wal_append_sink [OF assms(2) ok]
  have len: "length (image (wal_sink m) @ unsynced (wal_sink m)) = HEADER_LEN + log_len rs"
    using all by simp
  then show l: "l = of_nat (HEADER_LEN + log_len rs)" using w(4) by simp
  obtain k where k: "k \<le> length rs" "image (wal_sink m) = wal_header @ log_image crc (take k rs)"
    using assms(1) by (auto simp: sink_inv_def)
  then have "k \<le> length (rs @ [placed rs r]) \<and> image (wal_sink m1) = wal_header @ log_image crc (take k (rs @ [placed rs r]))"
    using w(2) by simp
  moreover have "image (wal_sink m1) @ unsynced (wal_sink m1) = wal_header @ log_image crc (rs @ [placed rs r])"
    using w(2,3) all by (simp only: l log_image_simps record_bytes_placed append_Nil2 append_assoc [symmetric])
  ultimately show "sinv crc (wal_sink m1) (rs @ [placed rs r])" using w(1) by (auto simp: sink_inv_def)
  show "wal_active m1 = wal_active m" by (rule w(5))
  show "sk_buffered_len S (wal_sink m) = HEADER_LEN + log_len rs" using buffered_len_law [OF ok] len by simp
  show "sk_buffered_len S (wal_sink m1) = sk_buffered_len S (wal_sink m) + encoded_len r"
    using buffered_len_law [OF ok] buffered_len_law [OF w(1)] w(2,3) by (simp add: length_encode)
qed

lemma harden_sinv:
  assumes "sinv crc (wal_sink m) rs" "harden S m = (x, m1)"
  shows "sinv crc (wal_sink m1) rs" "wal_active m1 = wal_active m"
    "sk_buffered_len S (wal_sink m1) = sk_buffered_len S (wal_sink m)"
    "x = Inr () \<Longrightarrow> image (wal_sink m1) = wal_header @ log_image crc rs"
proof -
  have ok: "ok (wal_sink m)" and all: "image (wal_sink m) @ unsynced (wal_sink m) = wal_header @ log_image crc rs"
    using assms(1) by (auto simp: sink_inv_def)
  obtain y s' where y: "sk_sync S (wal_sink m) = (y, s')" by force
  have m1: "m1 = m\<lparr>wal_sink := s'\<rparr>" "isl x = isl y" using assms(2) y by (auto simp: harden_def split: sum.splits)
  show "wal_active m1 = wal_active m" by (simp add: m1)
  have s': "sinv crc s' rs \<and> length (image s' @ unsynced s') = length (image (wal_sink m) @ unsynced (wal_sink m)) \<and>
      (\<not> isl y \<longrightarrow> image s' = wal_header @ log_image crc rs)"
  proof (cases y)
    case (Inl e)
    then show ?thesis using sync_error_law [OF ok] y assms(1) by (auto simp: sink_inv_def)
  next
    case (Inr u)
    then show ?thesis using sync_law [OF ok, of u s'] y all by (auto simp: sink_inv_def intro: exI [of _ "length rs"])
  qed
  then show "sinv crc (wal_sink m1) rs" by (simp add: m1)
  show "sk_buffered_len S (wal_sink m1) = sk_buffered_len S (wal_sink m)"
    using buffered_len_law [OF ok] buffered_len_law [of s'] s' by (simp add: m1 sink_inv_def)
  show "x = Inr () \<Longrightarrow> image (wal_sink m1) = wal_header @ log_image crc rs" using s' m1 by auto
qed

text \<open>The log may grow from \<open>m\<close> to \<open>m'\<close>.\<close>

abbreviation "grows m m' \<equiv> sk_buffered_len S (wal_sink m') < 2 ^ 63 \<and>
  sk_buffered_len S (wal_sink m') < sk_buffered_len S (wal_sink m) + 2 ^ 32"

lemma append_fits:
  assumes "sinv crc (wal_sink m) rs" "wal_append crc S m r = (l, m1)" "grows m m1"
  shows "fits rs r"
  using append_sinv [OF assms(1,2)] assms(3) by (simp add: fits_def)

lemma rinv_appendI:
  assumes "sinv crc (wal_sink m) rs" "wal_append crc S m r = (l, m1)" "log_inv g' (rs @ [placed rs r]) act'"
  shows "rinv crc g' (m1\<lparr>wal_active := act'\<rparr>) (rs @ [placed rs r])"
  using append_sinv [OF assms(1,2)] assms(3) by (simp add: run_inv_def)

lemma begin_rinv:
  assumes "rinv crc g m rs" "t \<noteq> 0" "t \<notin> set (used g)" "grows m (snd (wal_begin crc S m t))"
  shows "\<exists>r. rinv crc (g\<lparr>used := t # used g\<rparr>) (snd (wal_begin crc S m t)) (rs @ [r])"
proof -
  obtain l m1 where w: "wal_append crc S m (log_record_new RBegin t 0) = (l, m1)" by force
  have i: "sinv crc (wal_sink m) rs" "log_inv g rs (wal_active m)" using assms(1) by (auto simp: run_inv_def)
  note a = append_sinv [OF i(1) w]
  have f: "fits rs (log_record_new RBegin t 0)"
    using append_fits [OF i(1) w] assms(4) w by (simp add: wal_begin_def)
  show ?thesis
    using rinv_appendI [OF i(1) w log_inv_begin [OF i(2) f assms(2,3) refl]] w a(1,3)
    by (auto simp: wal_begin_def simp del: of_nat_add)
qed

lemma log_update_append:
  assumes "fmlookup (wal_active m) t = Some st"
    and "wal_append crc S m ((log_record_new RUpdate t p)\<lparr>prev_lsn := last_lsn st, redo := rd, undo := ud\<rparr>) = (l, m1)"
  shows "log_update crc S m t p rd ud = (l, m1\<lparr>wal_active := fmupd t (st\<lparr>last_lsn := l,
      undo_chain := undo_chain st @ [\<lparr>ue_lsn = l, ue_page = p, ue_undo = ud, ue_prev = last_lsn st\<rparr>]\<rparr>) (wal_active m)\<rparr>)"
    and "ud = [] \<Longrightarrow> log_update_redo_only crc S m t p rd = (l, m1\<lparr>wal_active := fmupd t (st\<lparr>last_lsn := l\<rparr>) (wal_active m)\<rparr>)"
  using assms
  by (auto simp: log_update_def log_update_borrowed_def log_update_redo_only_def wal_append_def Let_def
      encode_header_images log_record_new_def txn_last_lsn_def fm_entry_def retains_law next_lsn_def)

lemma update_rinv:
  assumes "rinv crc g m rs" "wal_is_active m t" "t \<notin> set (rolling g)"
  shows "grows m (snd (log_update crc S m t p rd ud)) \<Longrightarrow> \<exists>r. rinv crc g (snd (log_update crc S m t p rd ud)) (rs @ [r])"
    and "grows m (snd (log_update_redo_only crc S m t p rd)) \<Longrightarrow>
      \<exists>r. rinv crc g (snd (log_update_redo_only crc S m t p rd)) (rs @ [r])"
proof -
  obtain st where st: "fmlookup (wal_active m) t = Some st" using assms(2) by (auto simp: wal_is_active_def fmlookup_dom_iff)
  have i: "sinv crc (wal_sink m) rs" "log_inv g rs (wal_active m)" using assms(1) by (auto simp: run_inv_def)
  let ?r = "\<lambda>ud. (log_record_new RUpdate t p)\<lparr>prev_lsn := last_lsn st, redo := rd, undo := ud\<rparr>"
  obtain l m1 where w: "wal_append crc S m (?r ud) = (l, m1)" by force
  note a = append_sinv [OF i(1) w] and lu = log_update_append [OF st w]
  have r: "rec_txn (?r ud) = t" "rec_type (?r ud) = RUpdate" "prev_lsn (?r ud) = last_lsn st" "rec_page (?r ud) = p"
    "undo (?r ud) = ud" for ud by (simp_all add: log_record_new_def)
  show "\<exists>r. rinv crc g (snd (log_update crc S m t p rd ud)) (rs @ [r])" if "grows m (snd (log_update crc S m t p rd ud))"
  proof -
    have f: "fits rs (?r ud)" using append_fits [OF i(1) w] that lu(1) by simp
    show ?thesis
      using rinv_appendI [OF i(1) w log_inv_update(1) [OF i(2) f st assms(3) r a(1)]] lu(1) by auto
  qed
  obtain l' m1' where w': "wal_append crc S m (?r []) = (l', m1')" by force
  note a' = append_sinv [OF i(1) w'] and lu' = log_update_append(2) [OF st w' refl]
  show "\<exists>r. rinv crc g (snd (log_update_redo_only crc S m t p rd)) (rs @ [r])"
    if "grows m (snd (log_update_redo_only crc S m t p rd))"
  proof -
    have f: "fits rs (?r [])" using append_fits [OF i(1) w'] that lu' by simp
    show ?thesis
      using rinv_appendI [OF i(1) w' log_inv_update(2) [OF i(2) f st assms(3) r a'(1) refl]] lu' by auto
  qed
qed

lemma compensate_rinv:
  assumes "rinv crc g m rs" "grows m (snd (compensate_next crc S m t))"
  shows "\<exists>rs2. rinv crc (g\<lparr>rolling := t # rolling g\<rparr>) (snd (compensate_next crc S m t)) (rs @ rs2)"
proof -
  have i: "sinv crc (wal_sink m) rs" "log_inv g rs (wal_active m)" using assms(1) by (auto simp: run_inv_def)
  have still: "rinv crc (g\<lparr>rolling := t # rolling g\<rparr>) m (rs @ [])"
    using assms(1) by (auto simp: run_inv_def log_inv_def active_ok_def txn_ok_def)
  show ?thesis
  proof (cases "\<exists>st. fmlookup (wal_active m) t = Some st \<and> undo_chain st \<noteq> []")
    case True
    then obtain st where st: "fmlookup (wal_active m) t = Some st" "undo_chain st \<noteq> []" by blast
    define e where "e = last (undo_chain st)"
    define r where "r = (log_record_new RClr t (ue_page e))\<lparr>prev_lsn := ue_lsn e, undo_next_lsn := ue_prev e, redo := ue_undo e\<rparr>"
    define act' where "act' = fmupd t (st\<lparr>undo_chain := butlast (undo_chain st)\<rparr>) (wal_active m)"
    obtain l m1 where w: "wal_append crc S m r = (l, m1)" by force
    then have w': "snd (compensate_next crc S m t) = m1\<lparr>wal_active := act'\<rparr>"
      using st by (auto simp: compensate_next_def write_clr_def wal_append_def next_lsn_def Let_def r_def e_def act'_def)
    have f: "fits rs r" using append_fits [OF i(1) w] assms(2) w' by simp
    have "log_inv (g\<lparr>rolling := t # rolling g\<rparr>) (rs @ [placed rs r]) act'"
      unfolding act'_def by (rule log_inv_compensate [OF i(2) f st e_def]) (simp_all add: r_def log_record_new_def)
    then show ?thesis using rinv_appendI [OF i(1) w] w' by auto
  next
    case False
    then have "snd (compensate_next crc S m t) = m" by (auto simp: compensate_next_def split: option.splits)
    then show ?thesis using still by metis
  qed
qed

lemma close_rinv:
  assumes "rinv crc g m rs" "fmlookup (wal_active m) t = Some st" "rec_txn r = t" "wal_append crc S m r = (l, m1)" "grows m m1"
    and "rec_type r = RCommit \<and> prev_lsn r = last_lsn st \<and> t \<notin> set (rolling g) \<or>
      rec_type r = RAbort \<and> prev_lsn r = 0 \<and> undo_chain st = []"
  shows "rinv crc g (m1\<lparr>wal_active := fmdrop t (wal_active m)\<rparr>) (rs @ [placed rs r])"
proof -
  have i: "sinv crc (wal_sink m) rs" "log_inv g rs (wal_active m)" using assms(1) by (auto simp: run_inv_def)
  show ?thesis
    using rinv_appendI [OF i(1) assms(4) log_inv_close [OF i(2) append_fits [OF i(1) assms(4,5)] assms(2,3,6)]] .
qed

lemma harden_rinv:
  assumes "rinv crc g m rs" "harden S m = (x, m1)"
  shows "rinv crc g m1 rs" "sk_buffered_len S (wal_sink m1) = sk_buffered_len S (wal_sink m)"
    "x = Inr () \<Longrightarrow> image (wal_sink m1) = wal_header @ log_image crc rs"
  using assms harden_sinv [of crc m rs x m1] by (auto simp: run_inv_def)

lemma finish_commit_rinv:
  assumes "rinv crc g m rs" "fmlookup (wal_active m) t = Some st" "t \<notin> set (rolling g)"
    and "rec_txn r = t" "rec_type r = RCommit" "prev_lsn r = last_lsn st" "grows m (snd (finish_commit crc S m t r))"
  shows "rinv crc g (snd (finish_commit crc S m t r)) (rs @ [placed rs r])"
    and "fst (finish_commit crc S m t r) = Inr l \<Longrightarrow> l = rec_lsn (placed rs r) \<and>
      image (wal_sink (snd (finish_commit crc S m t r))) = wal_header @ log_image crc (rs @ [placed rs r])"
proof -
  obtain l' m1 where w: "wal_append crc S m r = (l', m1)" by force
  let ?m2 = "m1\<lparr>wal_active := fmdrop t (wal_active m)\<rparr>"
  obtain x m3 where h: "harden S ?m2 = (x, m3)" by force
  have i: "sinv crc (wal_sink m) rs" using assms(1) by (simp add: run_inv_def)
  note a = append_sinv [OF i w]
  have fc: "finish_commit crc S m t r = (case x of Inl e \<Rightarrow> (Inl e, m3) | Inr _ \<Rightarrow> (Inr l', m3))"
    using w h a(3) by (simp add: finish_commit_def append_commit_record_def split: sum.splits)
  then have m3: "snd (finish_commit crc S m t r) = m3" by (simp split: sum.splits)
  have "sk_buffered_len S (wal_sink m3) = sk_buffered_len S (wal_sink m1)"
    using harden_sinv(3) [OF _ h, of crc "rs @ [placed rs r]"] a(2) by simp
  then have "grows m m1" using assms(7) m3 by simp
  from harden_rinv [OF close_rinv [OF assms(1,2,4) w this] h] assms(3,5,6)
  have r: "rinv crc g m3 (rs @ [placed rs r])" "x = Inr () \<Longrightarrow> image (wal_sink m3) = wal_header @ log_image crc (rs @ [placed rs r])"
    by auto
  show "rinv crc g (snd (finish_commit crc S m t r)) (rs @ [placed rs r])" using r(1) m3 by simp
  show "l = rec_lsn (placed rs r) \<and>
      image (wal_sink (snd (finish_commit crc S m t r))) = wal_header @ log_image crc (rs @ [placed rs r])"
    if "fst (finish_commit crc S m t r) = Inr l"
    using that r(2) m3 fc a(1) by (auto split: sum.splits)
qed

lemma commit_cases:
  "commit_prev_lsn m t = (case fmlookup (wal_active m) t of None \<Rightarrow> Inl (InactiveCommit t) | Some st \<Rightarrow> Inr (last_lsn st))"
  by (simp add: commit_prev_lsn_def)

lemma still_rinv: "rinv crc g m rs \<Longrightarrow> \<exists>rs2. rinv crc g m (rs @ rs2)"
  by (metis append_Nil2)

lemma commit_rinv:
  assumes "rinv crc g m rs" "t \<notin> set (rolling g)"
  shows "grows m (snd (wal_commit crc S m t)) \<Longrightarrow> \<exists>rs2. rinv crc g (snd (wal_commit crc S m t)) (rs @ rs2)"
    and "grows m (snd (commit_at crc S m t ts)) \<Longrightarrow> \<exists>rs2. rinv crc g (snd (commit_at crc S m t ts)) (rs @ rs2)"
    and "grows m (snd (commit_at_no_sync crc S m t ts)) \<Longrightarrow> \<exists>rs2. rinv crc g (snd (commit_at_no_sync crc S m t ts)) (rs @ rs2)"
proof -
  note st = still_rinv [OF assms(1)] and fc = finish_commit_rinv [OF assms(1) _ assms(2)]
  show "\<exists>rs2. rinv crc g (snd (wal_commit crc S m t)) (rs @ rs2)" if "grows m (snd (wal_commit crc S m t))"
    using that st fc(1) [of _ "(log_record_new RCommit t 0)\<lparr>prev_lsn := _\<rparr>"]
    by (fastforce simp: wal_commit_def commit_cases log_record_new_def split: option.splits)
  show "\<exists>rs2. rinv crc g (snd (commit_at crc S m t ts)) (rs @ rs2)" if "grows m (snd (commit_at crc S m t ts))"
    using that st fc(1) [of _ "log_record_commit t _ ts"]
    by (fastforce simp: commit_at_def commit_cases log_record_commit_def log_record_new_def split: option.splits)
  show "\<exists>rs2. rinv crc g (snd (commit_at_no_sync crc S m t ts)) (rs @ rs2)" if g: "grows m (snd (commit_at_no_sync crc S m t ts))"
  proof (cases "fmlookup (wal_active m) t")
    case None
    then show ?thesis using st by (simp add: commit_at_no_sync_def commit_cases)
  next
    case (Some s)
    let ?r = "log_record_commit t (last_lsn s) ts"
    obtain l m1 where w: "wal_append crc S m ?r = (l, m1)" by force
    have i: "sinv crc (wal_sink m) rs" using assms(1) by (simp add: run_inv_def)
    have m2: "snd (commit_at_no_sync crc S m t ts) = m1\<lparr>wal_active := fmdrop t (wal_active m)\<rparr>"
      using Some w append_sinv(3) [OF i w] by (simp add: commit_at_no_sync_def commit_cases append_commit_record_def)
    then have "grows m m1" using g by simp
    from close_rinv [OF assms(1) Some _ w this] assms(2) show ?thesis
      by (auto simp: m2 log_record_commit_def log_record_new_def)
  qed
qed

lemma finish_rollback_rinv:
  assumes "rinv crc g m rs" "undo_chain_len m t = 0" "grows m (snd (finish_rollback crc S m t))"
  shows "\<exists>rs2. rinv crc g (snd (finish_rollback crc S m t)) (rs @ rs2)"
proof (cases "fmlookup (wal_active m) t")
  case None
  then show ?thesis using still_rinv [OF assms(1)] by (simp add: finish_rollback_def)
next
  case (Some st)
  let ?r = "log_record_new RAbort t 0"
  obtain l m1 where w: "wal_append crc S m ?r = (l, m1)" by force
  let ?m2 = "m1\<lparr>wal_active := fmdrop t (wal_active m)\<rparr>"
  obtain x m3 where h: "harden S ?m2 = (x, m3)" by force
  have i: "sinv crc (wal_sink m) rs" using assms(1) by (simp add: run_inv_def)
  have "wal_append crc S (m\<lparr>wal_active := fmdrop t (wal_active m)\<rparr>) ?r = (l, ?m2)"
    using w by (auto simp: wal_append_def next_lsn_def Let_def)
  then have m3: "snd (finish_rollback crc S m t) = m3" using Some h by (simp add: finish_rollback_def)
  have "sk_buffered_len S (wal_sink m3) = sk_buffered_len S (wal_sink m1)"
    using harden_sinv(3) [OF _ h, of crc "rs @ [placed rs ?r]"] append_sinv(2) [OF i w] by simp
  then have "grows m m1" using assms(3) m3 by simp
  from close_rinv [OF assms(1) Some _ w this] Some assms(2)
  have "rinv crc g ?m2 (rs @ [placed rs ?r])" by (simp add: log_record_new_def undo_chain_len_def)
  then show ?thesis using harden_rinv(1) [OF _ h] m3 by auto
qed

lemma checkpoint_rinv:
  assumes "rinv crc g m rs" "grows m (snd (wal_checkpoint crc S m dpt))"
  shows "\<exists>rs2. rinv crc g (snd (wal_checkpoint crc S m dpt)) (rs @ rs2)"
proof -
  let ?r1 = "log_record_new RCheckpointBegin 0 0"
  obtain l1 m1 where w1: "wal_append crc S m ?r1 = (l1, m1)" by force
  define snap where "snap = \<lparr>dirty_pages = dpt,
    active_txns = map (\<lambda>t. (t, txn_last_lsn m1 t)) (sorted_list_of_fset (fmdom (wal_active m1)))\<rparr>"
  let ?r2 = "(log_record_new RCheckpointEnd 0 0)\<lparr>redo := checkpoint_encode snap\<rparr>"
  obtain l2 m2 where w2: "wal_append crc S m1 ?r2 = (l2, m2)" by force
  obtain x m3 where h: "harden S m2 = (x, m3)" by force
  have m3: "snd (wal_checkpoint crc S m dpt) = m3"
    using w1 w2 h by (simp add: wal_checkpoint_def Let_def snap_def split: sum.splits)
  have i: "sinv crc (wal_sink m) rs" "log_inv g rs (wal_active m)" using assms(1) by (auto simp: run_inv_def)
  note a1 = append_sinv [OF i(1) w1]
  note a2 = append_sinv [OF a1(2) w2]
  have "sk_buffered_len S (wal_sink m3) = sk_buffered_len S (wal_sink m2)" by (rule harden_sinv(3) [OF a2(2) h])
  then have gr: "grows m m1" "grows m1 m2" using assms(2) a1(4) a2(4) m3 by auto
  have "log_inv g (rs @ [placed rs ?r1]) (wal_active m)"
    by (rule log_inv_checkpoint [OF i(2) append_fits [OF i(1) w1 gr(1)]]) (simp_all add: log_record_new_def)
  from log_inv_checkpoint [OF this append_fits [OF a1(2) w2 gr(2)]]
  have "rinv crc g m2 ((rs @ [placed rs ?r1]) @ [placed (rs @ [placed rs ?r1]) ?r2])"
    using a1(3) a2(2,3) by (simp add: run_inv_def log_record_new_def)
  then show ?thesis using harden_rinv(1) [OF _ h] m3 by auto
qed

lemma do_op_rinv:
  assumes "rinv crc g m rs" "op_allowed g m op" "op_fits crc S m op"
  shows "\<exists>rs2. rinv crc (track g op) (do_op crc S m op) (rs @ rs2)"
proof -
  have gr: "grows m (do_op crc S m op)" using assms(3) by (simp add: op_fits_def Let_def)
  have hd: "\<exists>rs2. rinv crc g (snd (harden S m)) (rs @ rs2)"
    using harden_rinv(1) [OF assms(1) surjective_pairing] still_rinv by blast
  show ?thesis
  proof (cases op)
    case (OpBegin t)
    then show ?thesis using begin_rinv [OF assms(1), of t] gr assms(2) by auto
  next
    case (OpEnsureDurable l)
    then show ?thesis using hd still_rinv [OF assms(1)] by (auto simp: ensure_durable_def)
  qed (use assms(1,2) gr hd in \<open>auto simp: wal_flush_def dest: update_rinv compensate_rinv commit_rinv
      finish_rollback_rinv checkpoint_rinv\<close>)
qed

lemma run_ops_rinv:
  "rinv crc g m rs \<Longrightarrow> run_ok crc S g m ops \<Longrightarrow> \<exists>rs2. rinv crc (foldl track g ops) (run_ops crc S m ops) (rs @ rs2)"
proof (induction ops arbitrary: g m rs)
  case Nil
  then show ?case using still_rinv by (auto simp: run_ops_def)
next
  case (Cons op ops)
  from do_op_rinv [OF Cons.prems(1)] Cons.prems(2) obtain rs1 where "rinv crc (track g op) (do_op crc S m op) (rs @ rs1)" by auto
  from Cons.IH [OF this] Cons.prems(2) obtain rs2
    where "rinv crc (foldl track (track g op) ops) (run_ops crc S (do_op crc S m op) ops) ((rs @ rs1) @ rs2)" by auto
  then show ?case by (auto simp: run_ops_def)
qed

lemma create_rinv:
  assumes "ok s" "image s = []" "unsynced s = []" "wal_create S s = Inr m"
  shows "rinv crc ghost_new m []"
proof -
  have s: "ok (sk_append S s wal_header)" "image (sk_append S s wal_header) = []" "unsynced (sk_append S s wal_header) = wal_header"
    using append_law [OF assms(1), of wal_header] assms(2,3) by auto
  obtain y s' where y: "sk_sync S (sk_append S s wal_header) = (y, s')" by force
  have m: "m = \<lparr>wal_sink = s', wal_active = fmempty\<rparr>" "y = Inr ()"
    using assms(4) y by (auto simp: wal_create_def harden_def split: if_splits sum.splits)
  then have "ok s'" "image s' = wal_header" "unsynced s' = []" using sync_law [OF s(1)] s y by auto
  then show ?thesis
    by (auto simp: m run_inv_def sink_inv_def log_inv_def links_ok_def active_ok_def HEADER_LEN_def)
qed

text \<open>The durable part of the log only grows.\<close>

definition keeps :: "'a \<Rightarrow> 'a \<Rightarrow> bool" where
  "keeps s s' \<longleftrightarrow> (ok s \<longrightarrow> ok s' \<and> prefix (image s) (image s') \<and> sk_reclaimed_floor S s' = sk_reclaimed_floor S s)"

lemma keeps_refl: "keeps s s"
  by (simp add: keeps_def)

lemma keeps_trans: "keeps s s1 \<Longrightarrow> keeps s1 s2 \<Longrightarrow> keeps s s2"
  using prefix_order.trans by (auto simp: keeps_def)

lemma keeps_append: "keeps s s1 \<Longrightarrow> keeps s (sk_append S s1 bs)"
  using append_law [of s1 bs] by (auto simp: keeps_def floor_append_law)

lemma keeps_sync: "keeps s s1 \<Longrightarrow> keeps s (snd (sk_sync S s1))"
proof (rule keeps_trans)
  obtain y s' where y: "sk_sync S s1 = (y, s')" by force
  then show "keeps s1 (snd (sk_sync S s1))"
    using sync_error_law [of s1 _ s'] sync_law [of s1 _ s'] floor_sync_law [OF y]
    by (cases y) (auto simp: keeps_def)
qed

lemma sink_of_harden: "wal_sink (snd (harden S m)) = snd (sk_sync S (wal_sink m))"
  by (simp add: harden_def split: prod.splits sum.splits)

lemma sink_of_finish_commit:
  "wal_sink (snd (finish_commit crc S m t r)) = snd (sk_sync S (sk_append S (wal_sink m) (encode crc r (next_lsn S m))))"
  using sink_of_harden [of "snd (append_commit_record crc S m t r)"]
  by (auto simp: finish_commit_def append_commit_record_def wal_append_def Let_def split: prod.splits sum.splits)

lemma sink_of_checkpoint:
  "\<exists>b1 b2. wal_sink (snd (wal_checkpoint crc S m dpt)) = snd (sk_sync S (sk_append S (sk_append S (wal_sink m) b1) b2))"
proof -
  obtain l1 m1 where w1: "wal_append crc S m (log_record_new RCheckpointBegin 0 0) = (l1, m1)" by force
  define snap where "snap = \<lparr>dirty_pages = dpt,
    active_txns = map (\<lambda>t. (t, txn_last_lsn m1 t)) (sorted_list_of_fset (fmdom (wal_active m1)))\<rparr>"
  obtain l2 m2 where w2: "wal_append crc S m1 ((log_record_new RCheckpointEnd 0 0)\<lparr>redo := checkpoint_encode snap\<rparr>) = (l2, m2)" by force
  have "snd (wal_checkpoint crc S m dpt) = snd (harden S m2)"
    using w1 w2 by (simp add: wal_checkpoint_def Let_def snap_def split: prod.splits sum.splits)
  moreover obtain b1 where "wal_sink m1 = sk_append S (wal_sink m) b1" using w1 by (auto simp: wal_append_def Let_def)
  moreover obtain b2 where "wal_sink m2 = sk_append S (wal_sink m1) b2" using w2 by (auto simp: wal_append_def Let_def)
  ultimately show ?thesis by (metis sink_of_harden)
qed

lemma do_op_keeps: "keeps (wal_sink m) (wal_sink (do_op crc S m op))"
proof (cases op)
  case (OpCheckpoint dpt)
  then show ?thesis using sink_of_checkpoint [of crc m dpt] keeps_sync [OF keeps_append [OF keeps_append [OF keeps_refl]]] by auto
qed (auto simp: wal_begin_def log_update_def log_update_borrowed_def log_update_redo_only_def wal_append_def Let_def
    wal_commit_def commit_at_def commit_at_no_sync_def append_commit_record_def compensate_next_def write_clr_def
    finish_rollback_def ensure_durable_def wal_flush_def sink_of_harden sink_of_finish_commit
    split: sum.splits option.splits intro!: keeps_sync keeps_append keeps_refl)

lemma run_ops_keeps: "keeps (wal_sink m) (wal_sink (run_ops crc S m ops))"
  by (induction ops arbitrary: m)
    (auto simp: run_ops_def intro: keeps_refl keeps_trans [OF do_op_keeps])

end

end
