(* ===== verification/Block_Device.thy ===== *)
theory Block_Device
  imports Checkpoint
begin

text \<open>
  The page device, \<^verbatim>\<open>crates/graphus-io/src/block.rs\<close> and \<^verbatim>\<open>crates/graphus-io/src/mem.rs\<close>: the trait
  \<^verbatim>\<open>BlockDevice\<close> as a record of operations with its contract, and the in-memory device with its
  write-back cache, its crash and its injected faults. A page is a byte list of length \<open>PAGE_SIZE\<close>.
  The rejection loop that draws the torn sectors is a partial function; its not returning is the
  error \<open>TearHangs\<close>.
\<close>

definition PAGE_SIZE :: nat where "PAGE_SIZE = 8192"

type_synonym page = bytes

datatype io_error =
    ReadOutOfRange page_id
  | LatentSectorError page_id
  | WriteOutOfRange page_id
  | InjectedIoError
  | MisdirectedOutOfRange u64
  | PageIdOverflow
  | PageCountOverflow
  | Enospc nat u64
  | TearHangs

record 'd device_ops =
  dv_read_page :: "'d \<Rightarrow> page_id \<Rightarrow> io_error + page"
  dv_write_page :: "'d \<Rightarrow> page_id \<Rightarrow> page \<Rightarrow> (io_error + unit) \<times> 'd"
  dv_sync_data :: "'d \<Rightarrow> (io_error + unit) \<times> 'd"
  dv_sync_all :: "'d \<Rightarrow> (io_error + unit) \<times> 'd"
  dv_page_count :: "'d \<Rightarrow> nat"
  dv_extend :: "'d \<Rightarrow> nat \<Rightarrow> (io_error + unit) \<times> 'd"

text \<open>The default method \<^verbatim>\<open>write_pages\<close>: a run of consecutive pages, ending at the first error.\<close>

fun write_pages :: "'d device_ops \<Rightarrow> 'd \<Rightarrow> page_id \<Rightarrow> u64 \<Rightarrow> page list \<Rightarrow> (io_error + unit) \<times> 'd" where
  "write_pages D d base i [] = (Inr (), d)"
| "write_pages D d base i (pg # pgs) =
     (case checked_add base i of
        None \<Rightarrow> (Inl PageIdOverflow, d)
      | Some p \<Rightarrow>
          (case dv_write_page D d p pg of
             (Inl e, d') \<Rightarrow> (Inl e, d')
           | (Inr _, d') \<Rightarrow> write_pages D d' base (i + 1) pgs))"

subsection \<open>The deterministic generator\<close>

definition splitmix_next :: "u64 \<Rightarrow> u64 \<times> u64" where
  "splitmix_next s =
     (let s' = s + 0x9E3779B97F4A7C15;
          z1 = (s' XOR drop_bit 30 s') * 0xBF58476D1CE4E5B9;
          z2 = (z1 XOR drop_bit 27 z1) * 0x94D049BB133111EB
      in (z2 XOR drop_bit 31 z2, s'))"

definition splitmix_below :: "u64 \<Rightarrow> u64 \<Rightarrow> u64 \<times> u64" where
  "splitmix_below s n = (if n = 0 then (0, s) else let (v, s') = splitmix_next s in (v mod n, s'))"

definition TORN_SECTOR_SIZE :: nat where "TORN_SECTOR_SIZE = 4096"

definition torn_sectors :: nat where
  "torn_sectors = (PAGE_SIZE + TORN_SECTOR_SIZE - 1) div TORN_SECTOR_SIZE"

primrec draw_sectors :: "nat \<Rightarrow> u64 \<Rightarrow> bool list \<times> u64" where
  "draw_sectors 0 s = ([], s)"
| "draw_sectors (Suc k) s =
     (let (v, s1) = splitmix_below s 2; (ts, s2) = draw_sectors k s1 in ((v = 1) # ts, s2))"

partial_function (option) draw_mixed :: "u64 \<Rightarrow> bool list option" where
  "draw_mixed s =
     (let (ts, s') = draw_sectors torn_sectors s
      in if list_ex (\<lambda>t. t) ts \<and> list_ex (\<lambda>t. \<not> t) ts then Some ts else draw_mixed s')"

definition sector_torn_image :: "page \<Rightarrow> page \<Rightarrow> u64 \<Rightarrow> page option" where
  "sector_torn_image old new seed =
     (if torn_sectors \<le> 1 then Some (take (PAGE_SIZE div 2) old @ drop (PAGE_SIZE div 2) new)
      else map_option
        (\<lambda>ts. concat (map (\<lambda>(k, take_new). bslice (k * TORN_SECTOR_SIZE) TORN_SECTOR_SIZE (if take_new then new else old))
           (enumerate 0 ts)))
        (draw_mixed (seed XOR 0x7A6B5C4D3E2F1A0B)))"

subsection \<open>The fault plan\<close>

record fault_plan =
  fp_seed :: u64
  bit_rot :: "(u64, nat) fmap"
  misdirected_read :: "(u64, u64) fmap"
  misdirected_write :: "(u64, u64) fmap"
  latent_sector_error :: "u64 list"
  capacity_pages :: "u64 option"
  reorder_sync_persist_percent :: "u64 option"

definition fault_plan_new :: "u64 \<Rightarrow> fault_plan" where
  "fault_plan_new seed = \<lparr>fp_seed = seed, bit_rot = fmempty, misdirected_read = fmempty,
     misdirected_write = fmempty, latent_sector_error = [], capacity_pages = None,
     reorder_sync_persist_percent = None\<rparr>"

definition with_bit_rot :: "fault_plan \<Rightarrow> page_id \<Rightarrow> nat \<Rightarrow> fault_plan" where
  "with_bit_rot fp p flips = fp\<lparr>bit_rot := fmupd p (min flips PAGE_SIZE) (bit_rot fp)\<rparr>"

definition with_misdirected_read :: "fault_plan \<Rightarrow> page_id \<Rightarrow> page_id \<Rightarrow> fault_plan" where
  "with_misdirected_read fp fr t = fp\<lparr>misdirected_read := fmupd fr t (misdirected_read fp)\<rparr>"

definition with_misdirected_write :: "fault_plan \<Rightarrow> page_id \<Rightarrow> page_id \<Rightarrow> fault_plan" where
  "with_misdirected_write fp fr t = fp\<lparr>misdirected_write := fmupd fr t (misdirected_write fp)\<rparr>"

definition with_latent_sector_error :: "fault_plan \<Rightarrow> page_id \<Rightarrow> fault_plan" where
  "with_latent_sector_error fp p = fp\<lparr>latent_sector_error := latent_sector_error fp @ [p]\<rparr>"

definition with_capacity :: "fault_plan \<Rightarrow> u64 \<Rightarrow> fault_plan" where
  "with_capacity fp n = fp\<lparr>capacity_pages := Some n\<rparr>"

definition with_write_reordering :: "fault_plan \<Rightarrow> u64 \<Rightarrow> fault_plan" where
  "with_write_reordering fp n = fp\<lparr>reorder_sync_persist_percent := Some (min n 100)\<rparr>"

subsection \<open>The in-memory device\<close>

record mem_device =
  md_persisted :: "page list"
  md_cache :: "(u64, page) fmap"
  armed_io_error :: bool
  armed_torn :: "(u64 \<times> nat) option"
  armed_torn_sectors :: "(u64 \<times> u64) option"
  fault_plan_of :: "fault_plan option"

definition mem_device_new :: "nat \<Rightarrow> mem_device" where
  "mem_device_new n = \<lparr>md_persisted = replicate n (replicate PAGE_SIZE 0), md_cache = fmempty,
     armed_io_error = False, armed_torn = None, armed_torn_sectors = None, fault_plan_of = None\<rparr>"

definition arm_io_error :: "mem_device \<Rightarrow> mem_device" where
  "arm_io_error d = d\<lparr>armed_io_error := True\<rparr>"

definition arm_torn_write :: "mem_device \<Rightarrow> page_id \<Rightarrow> nat \<Rightarrow> mem_device" where
  "arm_torn_write d p k = d\<lparr>armed_torn := Some (p, min k PAGE_SIZE)\<rparr>"

definition arm_torn_write_sectors :: "mem_device \<Rightarrow> page_id \<Rightarrow> u64 \<Rightarrow> mem_device" where
  "arm_torn_write_sectors d p seed = d\<lparr>armed_torn_sectors := Some (p, seed)\<rparr>"

definition arm_fault_plan :: "mem_device \<Rightarrow> fault_plan \<Rightarrow> mem_device" where
  "arm_fault_plan d fp = d\<lparr>fault_plan_of := Some fp\<rparr>"

definition device_crash :: "mem_device \<Rightarrow> mem_device" where
  "device_crash d = d\<lparr>md_cache := fmempty\<rparr>"

definition current_page :: "mem_device \<Rightarrow> u64 \<Rightarrow> page" where
  "current_page d i = (case fmlookup (md_cache d) i of Some pg \<Rightarrow> pg | None \<Rightarrow> md_persisted d ! unat i)"

primrec rot_bits :: "nat \<Rightarrow> u64 \<Rightarrow> page \<Rightarrow> page" where
  "rot_bits 0 s buf = buf"
| "rot_bits (Suc k) s buf =
     (let (pos, s1) = splitmix_below s (of_nat PAGE_SIZE);
          (b, s2) = splitmix_below s1 255;
          mask = (ucast b :: u8) + 1
      in rot_bits k s2 (buf[unat pos := buf ! unat pos XOR mask]))"

definition apply_bit_rot :: "mem_device \<Rightarrow> u64 \<Rightarrow> page \<Rightarrow> page" where
  "apply_bit_rot d i buf =
     (case fault_plan_of d of
        None \<Rightarrow> buf
      | Some fp \<Rightarrow>
          (case fmlookup (bit_rot fp) i of
             None \<Rightarrow> buf
           | Some flips \<Rightarrow> rot_bits flips (fp_seed fp XOR (i * 0x100000001B3)) buf))"

definition write_target :: "mem_device \<Rightarrow> u64 \<Rightarrow> u64" where
  "write_target d i =
     (case Option.bind (fault_plan_of d) (\<lambda>fp. fmlookup (misdirected_write fp) i) of Some t \<Rightarrow> t | None \<Rightarrow> i)"

definition mem_read_page :: "mem_device \<Rightarrow> page_id \<Rightarrow> io_error + page" where
  "mem_read_page d p =
     (if length (md_persisted d) \<le> unat p then Inl (ReadOutOfRange p)
      else if (case fault_plan_of d of Some fp \<Rightarrow> p \<in> set (latent_sector_error fp) | None \<Rightarrow> False)
      then Inl (LatentSectorError p)
      else
        let source = (case Option.bind (fault_plan_of d) (\<lambda>fp. fmlookup (misdirected_read fp) p) of
                        Some t \<Rightarrow> if unat t < length (md_persisted d) then t else p
                      | None \<Rightarrow> p)
        in Inr (apply_bit_rot d p (current_page d source)))"

text \<open>A torn write keeps the tail of the old page; the fault is disarmed by the write it hits.\<close>

definition tear_prefix :: "mem_device \<Rightarrow> u64 \<Rightarrow> u64 \<Rightarrow> page \<Rightarrow> page \<times> mem_device" where
  "tear_prefix d i target buf =
     (case armed_torn d of
        Some (tp, k) \<Rightarrow>
          if tp = i then (take k buf @ drop k (current_page d target), d\<lparr>armed_torn := None\<rparr>) else (buf, d)
      | None \<Rightarrow> (buf, d))"

definition tear_sectors :: "mem_device \<Rightarrow> u64 \<Rightarrow> u64 \<Rightarrow> page \<Rightarrow> page option \<times> mem_device" where
  "tear_sectors d i target buf =
     (case armed_torn_sectors d of
        Some (tp, seed) \<Rightarrow>
          if tp = i
          then (sector_torn_image (current_page d target) buf seed, d\<lparr>armed_torn_sectors := None\<rparr>)
          else (Some buf, d)
      | None \<Rightarrow> (Some buf, d))"

definition mem_write_page :: "mem_device \<Rightarrow> page_id \<Rightarrow> page \<Rightarrow> (io_error + unit) \<times> mem_device" where
  "mem_write_page d p buf =
     (if length (md_persisted d) \<le> unat p then (Inl (WriteOutOfRange p), d)
      else if armed_io_error d then (Inl InjectedIoError, d\<lparr>armed_io_error := False\<rparr>)
      else
        let target = write_target d p
        in if length (md_persisted d) \<le> unat target then (Inl (MisdirectedOutOfRange target), d)
        else
          let (b1, d1) = tear_prefix d p target buf
          in case tear_sectors d1 p target b1 of
               (None, d2) \<Rightarrow> (Inl TearHangs, d2)
             | (Some b2, d2) \<Rightarrow> (Inr (), d2\<lparr>md_cache := fmupd target b2 (md_cache d2)\<rparr>))"

primrec persist_some :: "u64 \<Rightarrow> u64 list \<Rightarrow> u64 \<Rightarrow> mem_device \<Rightarrow> mem_device" where
  "persist_some percent [] s d = d"
| "persist_some percent (i # is) s d =
     (let (v, s') = splitmix_below s 100
      in persist_some percent is s'
           (if v < percent
            then (case fmlookup (md_cache d) i of
                    Some pg \<Rightarrow> d\<lparr>md_cache := fmdrop i (md_cache d), md_persisted := (md_persisted d)[unat i := pg]\<rparr>
                  | None \<Rightarrow> d)
            else d))"

definition mem_sync_data :: "mem_device \<Rightarrow> (io_error + unit) \<times> mem_device" where
  "mem_sync_data d =
     (case Option.bind (fault_plan_of d) reorder_sync_persist_percent of
        Some percent \<Rightarrow>
          let seed = (case fault_plan_of d of Some fp \<Rightarrow> fp_seed fp | None \<Rightarrow> 0)
          in (Inr (), persist_some percent (sorted_list_of_fset (fmdom (md_cache d))) (seed XOR 0x5DEECE66D5A13CA1) d)
      | None \<Rightarrow>
          (Inr (), d\<lparr>md_cache := fmempty,
             md_persisted := fold (\<lambda>i ps. ps[unat i := the (fmlookup (md_cache d) i)])
               (sorted_list_of_fset (fmdom (md_cache d))) (md_persisted d)\<rparr>))"

definition mem_sync_all :: "mem_device \<Rightarrow> (io_error + unit) \<times> mem_device" where
  "mem_sync_all d = mem_sync_data d"

definition mem_page_count :: "mem_device \<Rightarrow> nat" where
  "mem_page_count d = length (md_persisted d)"

definition mem_extend :: "mem_device \<Rightarrow> nat \<Rightarrow> (io_error + unit) \<times> mem_device" where
  "mem_extend d additional =
     (let new_len = length (md_persisted d) + additional
      in if 2 ^ 64 \<le> new_len then (Inl PageCountOverflow, d)
      else case Option.bind (fault_plan_of d) capacity_pages of
        Some cap \<Rightarrow>
          if unat cap < new_len then (Inl (Enospc new_len cap), d)
          else (Inr (), d\<lparr>md_persisted := md_persisted d @ replicate additional (replicate PAGE_SIZE 0)\<rparr>)
      | None \<Rightarrow> (Inr (), d\<lparr>md_persisted := md_persisted d @ replicate additional (replicate PAGE_SIZE 0)\<rparr>))"

definition dirty_pages_count :: "mem_device \<Rightarrow> nat" where
  "dirty_pages_count d = fcard (fmdom (md_cache d))"

definition mem_device_ops :: "mem_device device_ops" where
  "mem_device_ops = \<lparr>dv_read_page = mem_read_page, dv_write_page = mem_write_page,
     dv_sync_data = mem_sync_data, dv_sync_all = mem_sync_all, dv_page_count = mem_page_count,
     dv_extend = mem_extend\<rparr>"

subsection \<open>The contract of a device without faults\<close>

locale block_device =
  fixes D :: "'d device_ops"
    and ok :: "'d \<Rightarrow> bool"
    and cur :: "'d \<Rightarrow> page_id \<Rightarrow> page"
    and durable :: "'d \<Rightarrow> page_id \<Rightarrow> page"
  assumes read_law: "ok d \<Longrightarrow> unat p < dv_page_count D d \<Longrightarrow>
      dv_read_page D d p = Inr (cur d p) \<and> length (cur d p) = PAGE_SIZE"
    and write_law: "ok d \<Longrightarrow> unat p < dv_page_count D d \<Longrightarrow> length b = PAGE_SIZE \<Longrightarrow>
      \<exists>d'. dv_write_page D d p b = (Inr (), d') \<and> ok d' \<and> dv_page_count D d' = dv_page_count D d \<and>
        cur d' p = b \<and> (\<forall>q. q \<noteq> p \<longrightarrow> cur d' q = cur d q)"
    and extend_law: "ok d \<Longrightarrow> dv_page_count D d + n < 2 ^ 64 \<Longrightarrow>
      \<exists>d'. dv_extend D d n = (Inr (), d') \<and> ok d' \<and> dv_page_count D d' = dv_page_count D d + n \<and>
        (\<forall>q. unat q < dv_page_count D d \<longrightarrow> cur d' q = cur d q) \<and>
        (\<forall>q. dv_page_count D d \<le> unat q \<and> unat q < dv_page_count D d' \<longrightarrow> cur d' q = replicate PAGE_SIZE 0)"
    and sync_law: "ok d \<Longrightarrow> \<exists>d'. dv_sync_all D d = (Inr (), d') \<and> ok d' \<and>
        dv_page_count D d' = dv_page_count D d \<and>
        (\<forall>p. unat p < dv_page_count D d \<longrightarrow> cur d' p = cur d p \<and> durable d' p = cur d p)"

definition mem_device_ok :: "mem_device \<Rightarrow> bool" where
  [invs]: "mem_device_ok d \<longleftrightarrow> fault_plan_of d = None \<and> \<not> armed_io_error d \<and> armed_torn d = None \<and>
     armed_torn_sectors d = None \<and> (\<forall>pg \<in> set (md_persisted d). length pg = PAGE_SIZE) \<and>
     (\<forall>i pg. fmlookup (md_cache d) i = Some pg \<longrightarrow> length pg = PAGE_SIZE \<and> unat i < length (md_persisted d))"

text \<open>What a crash leaves.\<close>

definition mem_durable :: "mem_device \<Rightarrow> page_id \<Rightarrow> page" where
  "mem_durable d p = current_page (device_crash d) p"

lemma nth_fold_update:
  fixes f :: "u64 \<Rightarrow> 'a"
  assumes "distinct is" "\<forall>i \<in> set is. unat i < length ps"
  shows "fold (\<lambda>i ps. ps[unat i := f i]) is ps ! unat p = (if p \<in> set is then f p else ps ! unat p)"
    "length (fold (\<lambda>i ps. ps[unat i := f i]) is ps) = length ps"
  using assms by (induction "is" arbitrary: ps) (auto simp: nth_list_update dest: word_unat_eq_iff [THEN iffD2])

lemma set_fold_update:
  "pg \<in> set (fold (\<lambda>i ps. ps[unat i := f i]) is ps) \<Longrightarrow> pg \<in> set ps \<or> (\<exists>i \<in> set is. pg = f i)" for f :: "u64 \<Rightarrow> 'a"
  by (induction "is" arbitrary: ps) (auto dest!: set_update_subset_insert [THEN subsetD])

interpretation mem_dev: block_device mem_device_ops mem_device_ok current_page mem_durable
proof
  fix d and p :: page_id assume d: "mem_device_ok d" and p: "unat p < dv_page_count mem_device_ops d"
  then show "dv_read_page mem_device_ops d p = Inr (current_page d p) \<and> length (current_page d p) = PAGE_SIZE"
    by (auto simp: mem_device_ops_def mem_page_count_def mem_read_page_def apply_bit_rot_def mem_device_ok_def
        current_page_def split: option.splits)
next
  fix d and b :: page and p :: page_id assume d: "mem_device_ok d" and p: "unat p < dv_page_count mem_device_ops d" "length b = PAGE_SIZE"
  then show "\<exists>d'. dv_write_page mem_device_ops d p b = (Inr (), d') \<and> mem_device_ok d' \<and>
      dv_page_count mem_device_ops d' = dv_page_count mem_device_ops d \<and>
      current_page d' p = b \<and> (\<forall>q. q \<noteq> p \<longrightarrow> current_page d' q = current_page d q)"
    by (auto simp: mem_device_ops_def mem_page_count_def mem_write_page_def write_target_def tear_prefix_def
        tear_sectors_def mem_device_ok_def current_page_def split: option.splits)
next
  fix d n assume d: "mem_device_ok d" "dv_page_count mem_device_ops d + n < 2 ^ 64"
  then show "\<exists>d'. dv_extend mem_device_ops d n = (Inr (), d') \<and> mem_device_ok d' \<and>
      dv_page_count mem_device_ops d' = dv_page_count mem_device_ops d + n \<and>
      (\<forall>q. unat q < dv_page_count mem_device_ops d \<longrightarrow> current_page d' q = current_page d q) \<and>
      (\<forall>q. dv_page_count mem_device_ops d \<le> unat q \<and> unat q < dv_page_count mem_device_ops d' \<longrightarrow>
        current_page d' q = replicate PAGE_SIZE 0)"
    by (auto simp: mem_device_ops_def mem_page_count_def mem_extend_def mem_device_ok_def current_page_def
        nth_append split: option.splits) (fastforce dest: leD)+
next
  fix d assume d: "mem_device_ok d"
  let ?c = "md_cache d"
  let ?f = "\<lambda>i. the (fmlookup ?c i)"
  let ?is = "sorted_list_of_fset (fmdom ?c)"
  have r: "\<forall>i \<in> set ?is. unat i < length (md_persisted d) \<and> length (?f i) = PAGE_SIZE"
    using d by (auto simp: mem_device_ok_def fmlookup_dom_iff)
  let ?d' = "snd (mem_sync_data d)"
  have d': "?d' = d\<lparr>md_cache := fmempty, md_persisted := fold (\<lambda>i ps. ps[unat i := ?f i]) ?is (md_persisted d)\<rparr>"
    "fst (mem_sync_data d) = Inr ()"
    using d by (simp_all add: mem_sync_data_def mem_device_ok_def)
  note nf = nth_fold_update [of ?is "md_persisted d" ?f]
  have "mem_device_ok ?d'" using d r by (auto simp: d' mem_device_ok_def dest!: set_fold_update)
  moreover have "current_page ?d' p = current_page d p \<and> mem_durable ?d' p = current_page d p" for p
    using nf(1) [of p] r
    by (auto simp: d' current_page_def mem_durable_def device_crash_def fmlookup_dom_iff split: option.splits)
  ultimately show "\<exists>d'. dv_sync_all mem_device_ops d = (Inr (), d') \<and> mem_device_ok d' \<and>
      dv_page_count mem_device_ops d' = dv_page_count mem_device_ops d \<and>
      (\<forall>p. unat p < dv_page_count mem_device_ops d \<longrightarrow> current_page d' p = current_page d p \<and> mem_durable d' p = current_page d p)"
    using nf(2) r d'(2) by (intro exI [of _ ?d']) (auto simp: mem_device_ops_def mem_sync_all_def mem_page_count_def d'(1) prod_eq_iff)
qed

end
