(* ===== verification/Page.thy ===== *)
theory Page
  imports Block_Device
begin

text \<open>
  The page format: the 24-byte header with its checksum and page LSN
  (\<^verbatim>\<open>crates/graphus-bufpool/src/page.rs\<close>), the record addressing and the byte patches that redo and
  undo images are (\<^verbatim>\<open>crates/graphus-storage/src/paging.rs\<close>). The checksum function is the parameter
  \<open>crc\<close>; a failed \<^verbatim>\<open>assert!\<close> is \<open>None\<close>.
\<close>

subsection \<open>The header\<close>

definition HEADER_SIZE :: nat where "HEADER_SIZE = 24"
definition OFF_CHECKSUM :: nat where "OFF_CHECKSUM = 0"
definition OFF_PAGE_TYPE :: nat where "OFF_PAGE_TYPE = 4"
definition OFF_PAGE_LSN :: nat where "OFF_PAGE_LSN = 8"
definition OFF_HDR_PAGE_ID :: nat where "OFF_HDR_PAGE_ID = 16"

lemmas page_offsets = PAGE_SIZE_def HEADER_SIZE_def OFF_CHECKSUM_def OFF_PAGE_TYPE_def OFF_PAGE_LSN_def
  OFF_HDR_PAGE_ID_def

definition compute_checksum :: "(bytes \<Rightarrow> u32) \<Rightarrow> page \<Rightarrow> u32" where
  "compute_checksum crc pg = crc (bslice OFF_PAGE_TYPE (PAGE_SIZE - OFF_PAGE_TYPE) pg)"

definition write_checksum :: "(bytes \<Rightarrow> u32) \<Rightarrow> page \<Rightarrow> page" where
  "write_checksum crc pg = copy_at OFF_CHECKSUM (le32 (compute_checksum crc pg)) pg"

definition stored_checksum :: "page \<Rightarrow> u32" where
  "stored_checksum pg = read_u32 pg OFF_CHECKSUM"

definition verify_checksum :: "(bytes \<Rightarrow> u32) \<Rightarrow> page \<Rightarrow> bool" where
  "verify_checksum crc pg \<longleftrightarrow> stored_checksum pg = compute_checksum crc pg"

definition header_lsn :: "page \<Rightarrow> lsn" where
  "header_lsn pg = read_u64 pg OFF_PAGE_LSN"

definition set_page_lsn :: "page \<Rightarrow> lsn \<Rightarrow> page" where
  "set_page_lsn pg l =
     (let cur = read_u64 pg OFF_PAGE_LSN in copy_at OFF_PAGE_LSN (le64 (max cur l)) pg)"

definition reset_page_lsn :: "page \<Rightarrow> lsn \<Rightarrow> page" where
  "reset_page_lsn pg l = copy_at OFF_PAGE_LSN (le64 l) pg"

definition header_page_id :: "page \<Rightarrow> u64" where
  "header_page_id pg = read_u64 pg OFF_HDR_PAGE_ID"

definition set_page_id :: "page \<Rightarrow> u64 \<Rightarrow> page" where
  "set_page_id pg i = copy_at OFF_HDR_PAGE_ID (le64 i) pg"

definition page_type :: "page \<Rightarrow> u8" where
  "page_type pg = pg ! OFF_PAGE_TYPE"

definition set_page_type :: "page \<Rightarrow> u8 \<Rightarrow> page" where
  "set_page_type pg ty = pg[OFF_PAGE_TYPE := ty]"

definition page_subtype :: "page \<Rightarrow> u8" where
  "page_subtype pg = pg ! (OFF_PAGE_TYPE + 1)"

definition set_page_subtype :: "page \<Rightarrow> u8 \<Rightarrow> page" where
  "set_page_subtype pg ty = pg[OFF_PAGE_TYPE + 1 := ty]"

subsection \<open>Record addressing\<close>

definition PAGE_PAYLOAD :: nat where "PAGE_PAYLOAD = PAGE_SIZE - HEADER_SIZE"

definition records_per_page :: "nat \<Rightarrow> nat option" where
  "records_per_page n = (if 0 < n \<and> n \<le> PAGE_PAYLOAD then Some (PAGE_PAYLOAD div n) else None)"

definition record_location :: "u64 \<Rightarrow> nat \<Rightarrow> (u64 \<times> nat) option" where
  "record_location i n =
     (case records_per_page n of
        None \<Rightarrow> None
      | Some rpp \<Rightarrow> Some (i div of_nat rpp, HEADER_SIZE + unat (i mod of_nat rpp) * n))"

definition page_capacity :: "u64 \<Rightarrow> nat \<Rightarrow> u64 option" where
  "page_capacity pages n =
     (case records_per_page n of
        None \<Rightarrow> None
      | Some rpp \<Rightarrow> if unat pages * rpp < 2 ^ 64 then Some (pages * of_nat rpp) else None)"

subsection \<open>Patches\<close>

definition CAS_SENTINEL :: u16 where "CAS_SENTINEL = 0xFFFF"

definition le16 :: "u16 \<Rightarrow> bytes" where "le16 = to_le 2"

definition encode_patch :: "nat \<Rightarrow> bytes \<Rightarrow> bytes option" where
  "encode_patch off bs = (if off + length bs \<le> PAGE_SIZE then Some (le16 (of_nat off) @ bs) else None)"

definition encode_cas_patch :: "nat \<Rightarrow> u64 \<Rightarrow> u64 \<Rightarrow> bytes option" where
  "encode_cas_patch off expect new =
     (if off + 8 \<le> PAGE_SIZE \<and> off < 2 ^ 16 \<and> of_nat off \<noteq> CAS_SENTINEL
      then Some (le16 CAS_SENTINEL @ le16 (of_nat off) @ le64 expect @ le64 new) else None)"

datatype patch_error = PatchTooShort | MalformedCas | CasPastPage | PatchPastPage

definition apply_patch :: "page \<Rightarrow> bytes \<Rightarrow> patch_error + page" where
  "apply_patch pg patch =
     (if length patch < 2 then Inl PatchTooShort
      else
        let lead = (from_le (bslice 0 2 patch) :: u16)
        in if lead = CAS_SENTINEL
        then
          (if length patch \<noteq> 2 + 2 + 8 + 8 then Inl MalformedCas
           else
             let off = unat (from_le (bslice 2 2 patch) :: u16);
                 expect = (from_le (bslice 4 8 patch) :: u64);
                 new = (from_le (bslice 12 8 patch) :: u64)
             in if length pg < off + 8 then Inl CasPastPage
             else if read_u64 pg off = expect then Inr (copy_at off (le64 new) pg) else Inr pg)
        else
          let off = unat lead; bs = drop 2 patch
          in if length pg < off + length bs then Inl PatchPastPage else Inr (copy_at off bs pg))"

subsection \<open>Codec lemmas\<close>

lemma length_le16 [simp]: "length (le16 w) = 2"
  by (simp add: le16_def)

lemma from_le_le16 [simp]: "from_le (le16 w) = w"
  by (simp add: le16_def from_le_to_le)

lemma unat_of_nat_u16: "n < 2 ^ 16 \<Longrightarrow> unat (of_nat n :: u16) = n"
  by (simp add: unat_of_nat take_bit_nat_eq_self)

lemma apply_encode_patch:
  assumes "encode_patch off bs = Some patch" "length pg = PAGE_SIZE"
  shows "apply_patch pg patch = Inr (copy_at off bs pg)"
proof -
  have le: "off + length bs \<le> 8192" and p: "patch = le16 (of_nat off) @ bs"
    using assms(1) by (auto simp: encode_patch_def page_offsets split: if_splits)
  then have off: "unat (of_nat off :: u16) = off" by (intro unat_of_nat_u16) simp
  have "(of_nat off :: u16) \<noteq> CAS_SENTINEL" using off le by (auto simp: CAS_SENTINEL_def)
  then show ?thesis using p off le assms(2) by (simp add: apply_patch_def Let_def slice_simps page_offsets)
qed

lemma apply_encode_cas_patch:
  assumes "encode_cas_patch off expect new = Some patch" "length pg = PAGE_SIZE"
  shows "apply_patch pg patch = Inr (if read_u64 pg off = expect then copy_at off (le64 new) pg else pg)"
proof -
  have le: "off + 8 \<le> 8192" and p: "patch = le16 CAS_SENTINEL @ le16 (of_nat off) @ le64 expect @ le64 new"
    using assms(1) by (auto simp: encode_cas_patch_def page_offsets split: if_splits)
  then have "unat (of_nat off :: u16) = off" by (intro unat_of_nat_u16) simp
  then show ?thesis using p le assms(2) by (simp add: apply_patch_def Let_def slice_simps page_offsets)
qed

lemma length_apply_patch: "apply_patch pg patch = Inr pg' \<Longrightarrow> length pg' = length pg"
  by (auto simp: apply_patch_def Let_def length_copy_at split: if_splits)

text \<open>The checksum that was written verifies, whatever the header held.\<close>

lemma verify_write_checksum: "length pg = PAGE_SIZE \<Longrightarrow> verify_checksum crc (write_checksum crc pg)"
  by (simp add: verify_checksum_def write_checksum_def stored_checksum_def compute_checksum_def read_u32_def
      slice_copy_at slice_copy_at_other page_offsets)

lemma length_header_ops [simp]:
  "length pg = PAGE_SIZE \<Longrightarrow> length (write_checksum crc pg) = PAGE_SIZE"
  "length pg = PAGE_SIZE \<Longrightarrow> length (reset_page_lsn pg l) = PAGE_SIZE"
  "length pg = PAGE_SIZE \<Longrightarrow> length (set_page_id pg i) = PAGE_SIZE"
  by (simp_all add: write_checksum_def reset_page_lsn_def set_page_id_def length_copy_at page_offsets)

lemma header_lsn_ops:
  "length pg = PAGE_SIZE \<Longrightarrow> header_lsn (write_checksum crc pg) = header_lsn pg"
  "length pg = PAGE_SIZE \<Longrightarrow> header_lsn (set_page_id pg i) = header_lsn pg"
  "length pg = PAGE_SIZE \<Longrightarrow> header_lsn (reset_page_lsn pg l) = l"
  "length pg = PAGE_SIZE \<Longrightarrow> header_lsn (set_page_lsn pg l) = max (header_lsn pg) l"
  by (simp_all add: header_lsn_def write_checksum_def reset_page_lsn_def set_page_id_def set_page_lsn_def
      read_u64_def slice_copy_at slice_copy_at_other page_offsets)

end
