(* ===== verification/Atomic_Recovery.thy ===== *)
theory Atomic_Recovery
  imports Log_Discipline
begin

text \<open>
  The contract of \<^verbatim>\<open>trait ApplyTarget\<close> (\<^verbatim>\<open>crates/graphus-wal/src/recovery.rs\<close>) and what recovery does
  to any page store that meets it: the redo pass rebuilds every page from the state it was flushed
  in, and the undo pass takes exactly the uncommitted actions back.
\<close>

locale page_store =
  fixes T :: "'t apply_ops"
    and ok :: "'t \<Rightarrow> bool"
    and content :: "'t \<Rightarrow> page_id \<Rightarrow> 'c"
    and act :: "bytes \<Rightarrow> 'c \<Rightarrow> 'c"
    and valid :: "page_id \<Rightarrow> bytes \<Rightarrow> bool"
  assumes apply_law: "ok t \<Longrightarrow> valid p img \<Longrightarrow> \<exists>t'. apply_image T t p l img = (Inr (), t') \<and> ok t' \<and>
      page_lsn T t' p = l \<and> content t' p = act img (content t p) \<and>
      (\<forall>q. q \<noteq> p \<longrightarrow> page_lsn T t' q = page_lsn T t q \<and> content t' q = content t q)"

definition valid_images :: "(page_id \<Rightarrow> bytes \<Rightarrow> bool) \<Rightarrow> log_record list \<Rightarrow> bool" where
  "valid_images valid rs \<longleftrightarrow> (\<forall>r \<in> set rs. (is_page_change (rec_type r) \<and> redo r \<noteq> [] \<longrightarrow> valid (rec_page r) (redo r)) \<and>
     (is_undoable_action (rec_type r) \<and> undo r \<noteq> [] \<longrightarrow> valid (rec_page r) (undo r)))"

text \<open>A page as it was flushed: it has the changes up to its LSN, and all those before \<open>start\<close>.\<close>

definition flushed_state ::
  "'t apply_ops \<Rightarrow> ('t \<Rightarrow> page_id \<Rightarrow> 'c) \<Rightarrow> (bytes \<Rightarrow> 'c \<Rightarrow> 'c) \<Rightarrow> (page_id \<Rightarrow> 'c) \<Rightarrow> lsn \<Rightarrow>
     log_record list \<Rightarrow> 't \<Rightarrow> bool" where
  "flushed_state T content act c0 start rs t \<longleftrightarrow>
     (\<forall>p. content t p = page_history act p (filter (\<lambda>r. rec_lsn r \<le> page_lsn T t p) rs) (c0 p)) \<and>
     (\<forall>r \<in> set rs. is_page_change (rec_type r) \<longrightarrow> redo r \<noteq> [] \<longrightarrow> rec_lsn r < start \<longrightarrow>
        rec_lsn r \<le> page_lsn T t (rec_page r))"

text \<open>The manager after appending some records, and the records that recovery appends.\<close>

definition append_all :: "(bytes \<Rightarrow> u32) \<Rightarrow> 's sink_ops \<Rightarrow> log_record list \<Rightarrow> 's wal_manager \<Rightarrow> 's wal_manager" where
  "append_all crc S xs m = fold (\<lambda>r m. snd (wal_append crc S m r)) xs m"

definition clr_of :: "log_record \<Rightarrow> log_record" where
  "clr_of r = (log_record_new RClr (rec_txn r) (rec_page r))\<lparr>prev_lsn := rec_lsn r, undo_next_lsn := prev_lsn r, redo := undo r\<rparr>"

definition end_of :: "txn_id \<Rightarrow> log_record" where
  "end_of t = log_record_new RAbort t 0"

definition recovery_appends :: "(u64 fset \<Rightarrow> u64 list) \<Rightarrow> log_record list \<Rightarrow> log_record list" where
  "recovery_appends order rs =
     (let a = fold analyse rs analysis_new; ls = order (loser_set a)
      in map clr_of (undo_order (owed_by rs a ls)) @ map end_of ls)"

lemma append_all_simps [simp]:
  "append_all crc S [] m = m" "append_all crc S (x # xs) m = append_all crc S xs (snd (wal_append crc S m x))"
  "append_all crc S (xs @ ys) m = append_all crc S ys (append_all crc S xs m)"
  by (simp_all add: append_all_def)

lemma append_all_write_ends: "write_ends crc S ts m = append_all crc S (map end_of ts) m"
  by (induction ts arbitrary: m) (simp_all add: write_ends_def write_end_def end_of_def)

lemma append_all_active:
  "append_all crc S xs (m\<lparr>wal_active := act\<rparr>) = (append_all crc S xs m)\<lparr>wal_active := act\<rparr>"
proof (induction xs arbitrary: m)
  case (Cons x xs)
  have "snd (wal_append crc S (m\<lparr>wal_active := act\<rparr>) x) = (snd (wal_append crc S m x))\<lparr>wal_active := act\<rparr>"
    by (cases m) (simp add: wal_append_def next_lsn_def Let_def)
  then show ?case using Cons by simp
qed simp

context page_store
begin

lemma redo_pass:
  assumes "log_ok off (pre @ post)" "valid_images valid post" "ok t"
    and "\<And>p. content t p = page_history act p (pre @ filter (\<lambda>r. rec_lsn r \<le> page_lsn T t p) post) (c0 p)"
    and "\<forall>r \<in> set post. is_page_change (rec_type r) \<longrightarrow> redo r \<noteq> [] \<longrightarrow> rec_lsn r < start \<longrightarrow>
      rec_lsn r \<le> page_lsn T t (rec_page r)"
  shows "\<exists>t' k. run_records (on_redo T start) post (t, n) = (Inr (), t', k) \<and> ok t' \<and>
    (\<forall>p. content t' p = page_history act p (pre @ post) (c0 p))"
  using assms
proof (induction post arbitrary: pre t n)
  case (Cons r post)
  have lo: "log_ok off ((pre @ [r]) @ post)" and vi: "valid_images valid post"
    using Cons.prems(1,2) by (auto simp: valid_images_def)
  have newer: "rec_lsn r < rec_lsn x" if "x \<in> set post" for x
    using log_ok_sorted [OF Cons.prems(1)] that by (auto simp: sorted_wrt_append)
  have inert: "page_history act p (pre @ r # xs) c = page_history act p (pre @ xs) c"
    if "\<not> (is_page_change (rec_type r) \<and> rec_page r = p \<and> redo r \<noteq> [])" for p xs c
    using that by (auto simp: page_history_def redo_on_def)
  let ?go = "start \<le> rec_lsn r \<and> is_page_change (rec_type r) \<and> redo r \<noteq> [] \<and> page_lsn T t (rec_page r) < rec_lsn r"
  show ?case
  proof (cases ?go)
    case True
    let ?p = "rec_page r"
    obtain t1 where t1: "apply_image T t ?p (rec_lsn r) (redo r) = (Inr (), t1)" "ok t1" "page_lsn T t1 ?p = rec_lsn r"
      "content t1 ?p = act (redo r) (content t ?p)"
      "\<forall>q. q \<noteq> ?p \<longrightarrow> page_lsn T t1 q = page_lsn T t q \<and> content t1 q = content t q"
      using apply_law [OF Cons.prems(3), of ?p "redo r" "rec_lsn r"] Cons.prems(2) True by (auto simp: valid_images_def)
    have none: "filter (\<lambda>x. rec_lsn x \<le> l) post = []" if "l \<le> rec_lsn r" for l
      using newer that by (force simp: filter_empty_conv)
    have "filter (\<lambda>x. rec_lsn x \<le> page_lsn T t ?p) (r # post) = []" using True none by auto
    then have here: "content t ?p = page_history act ?p pre (c0 ?p)" using Cons.prems(4) [of ?p] by simp
    have "content t1 p = page_history act p ((pre @ [r]) @ filter (\<lambda>r. rec_lsn r \<le> page_lsn T t1 p) post) (c0 p)" for p
    proof (cases "p = ?p")
      case True
      then show ?thesis using t1 none \<open>?go\<close> here page_history_snoc [of act ?p pre r] by (simp add: redo_on_def)
    next
      case False
      then show ?thesis using t1(5) Cons.prems(4) [of p] inert [of p] by (auto split: if_splits)
    qed
    moreover have "\<forall>x \<in> set post. is_page_change (rec_type x) \<longrightarrow> redo x \<noteq> [] \<longrightarrow> rec_lsn x < start \<longrightarrow>
        rec_lsn x \<le> page_lsn T t1 (rec_page x)"
      using newer True by force
    moreover have "on_redo T start r pos (t, n) = (Inr (), t1, n + 1)" for pos
      using True t1(1) by (simp add: on_redo_def)
    ultimately show ?thesis using Cons.IH [OF lo vi t1(2), where n = "n + 1"] by simp
  next
    case False
    have "content t p = page_history act p ((pre @ [r]) @ filter (\<lambda>r. rec_lsn r \<le> page_lsn T t p) post) (c0 p)" for p
    proof (cases "is_page_change (rec_type r) \<and> rec_page r = p \<and> redo r \<noteq> []")
      case True
      then have "rec_lsn r \<le> page_lsn T t p" using False Cons.prems(5) by force
      then show ?thesis using Cons.prems(4) [of p] by simp
    next
      case inr: False
      then show ?thesis using Cons.prems(4) [of p] inert [OF inr] by (auto split: if_splits)
    qed
    moreover have "on_redo T start r pos (t, n) = (Inr (), t, n)" for pos
      using False by (auto simp: on_redo_def)
    ultimately show ?thesis using Cons.IH [OF lo vi Cons.prems(3), where n = n] Cons.prems(5) by simp
  qed
qed simp

lemma compensate_pass:
  assumes "valid_images valid us" "\<forall>r \<in> set us. is_undoable_action (rec_type r)" "ok t"
  shows "\<exists>m' t'. compensate_all crc S T us m t n = (Inr (n + length us), m', t') \<and> ok t' \<and>
    m' = append_all crc S (map clr_of us) m \<and>
    (\<forall>p. content t' p = fold (undo_on act p) us (content t p))"
  using assms
proof (induction us arbitrary: m t n)
  case (Cons r us)
  obtain cl m1 where w: "write_clr crc S m (rec_txn r) (rec_page r) (rec_lsn r) (undo r) (prev_lsn r) = (cl, m1)" by force
  obtain t1 where t1: "(if undo r \<noteq> [] then apply_image T t (rec_page r) cl (undo r) else (Inr (), t)) = (Inr (), t1)"
    "ok t1" "\<forall>p. content t1 p = undo_on act p r (content t p)"
  proof (cases "undo r = []")
    case True
    then show ?thesis using that Cons.prems(3) by (simp add: undo_on_def)
  next
    case False
    then have v: "valid (rec_page r) (undo r)" using Cons.prems by (simp add: valid_images_def)
    show ?thesis using apply_law [OF Cons.prems(3) v, of cl] that False by (auto simp: undo_on_def)
  qed
  have "valid_images valid us" using Cons.prems(1) by (simp add: valid_images_def)
  moreover have "snd (wal_append crc S m (clr_of r)) = m1" using w by (simp add: write_clr_def clr_of_def)
  ultimately show ?case using Cons.IH [of t1 m1 "n + 1"] Cons.prems(2) t1 w by (auto simp: undo_on_def)
qed simp

lemma fold_undo_on_filter: "fold (undo_on act p) (with_undo us) c = fold (undo_on act p) us c"
  by (induction us arbitrary: c) (simp_all add: undo_on_def)

text \<open>Recovery leaves the effect of the survivors and nothing else.\<close>

lemma recover_log_atomic:
  fixes rs :: "log_record list"
  defines "start \<equiv> redo_start_of (fold analyse rs analysis_new)"
  assumes log: "log_ok off rs" "8 \<le> off" "links_ok off rs" "disciplined rs" "iterates order"
    and img: "valid_images valid rs" "undo_images_ok act c0 rs" "isolated act (uncommitted rs) rs"
    and t: "ok t" "flushed_state T content act c0 start rs t"
  shows "\<exists>res m' t'. recover_log crc S T order rs torn m t = (res, m', t') \<and> ok t' \<and>
    (case wal_flush S (append_all crc S (recovery_appends order rs) m) of
       (Inl e, m1) \<Rightarrow> res = Inl e \<and> m' = m1
     | (Inr _, m1) \<Rightarrow> (\<exists>rep. res = Inr rep) \<and> m' = m1) \<and>
    (\<forall>p. content t' p = page_history act p (filter (survives (uncommitted rs)) rs) (c0 p))"
proof -
  define a where "a = fold analyse rs analysis_new"
  define us where "us = undo_order (owed_by rs a (order (loser_set a)))"
  from redo_pass [of off "[]" rs t c0 start 0] log(1) img(1) t
  obtain t1 k where t1: "run_records (on_redo T start) rs (t, 0) = (Inr (), t1, k)" "ok t1"
    "\<forall>p. content t1 p = page_history act p rs (c0 p)"
    by (auto simp: flushed_state_def)
  have us: "x \<in> set rs \<and> is_undoable_action (rec_type x)" if "x \<in> set us" for x
    using that by (auto simp: us_def owed_by_def dest!: owed_set split: option.splits)
  then have v: "valid_images valid us" using img(1) by (auto simp: valid_images_def)
  from compensate_pass [OF v _ t1(2), of crc S m 0] us
  obtain m2 t2 where t2: "compensate_all crc S T us m t1 0 = (Inr (length us), m2, t2)" "ok t2"
    "\<forall>p. content t2 p = fold (undo_on act p) us (content t1 p)" "m2 = append_all crc S (map clr_of us) m" by auto
  have m3: "write_ends crc S (order (loser_set a)) m2 = append_all crc S (recovery_appends order rs) m"
    by (simp add: append_all_write_ends recovery_appends_def Let_def t2(4) us_def a_def)
  have "content t2 p = page_history act p (filter (survives (uncommitted rs)) rs) (c0 p)" for p
    using t2(3) t1(3) undo_restores_survivors [OF log(1-4) img(2,3), of p]
      owed_by_undo_list [OF log] fold_undo_on_filter [of p us] by (simp add: us_def a_def)
  then show ?thesis using t1(1) t2(1,2) m3
    by (simp add: recover_log_def Let_def a_def [symmetric] us_def [symmetric] start_def split: prod.splits sum.splits)
qed

end

end
