(* ===== verification/Device_Target.thy ===== *)
theory Device_Target
  imports Page Atomic_Recovery
begin

text \<open>
  Crash recovery onto the page device, \<^verbatim>\<open>crates/graphus-storage/src/recovery.rs\<close>: redo and undo images
  are patches of device pages, guarded by the page LSN of the header, which counts only if the page
  checksum verifies. The target meets the contract of a page store over any fault-free device, so
  recovery onto the device is atomic.

  The content of a page is the function from offsets to the bytes outside the checksum, LSN and page
  id fields of the header; a page the device does not have yet is zero.
\<close>

subsection \<open>The target\<close>

definition target_page_lsn :: "(bytes \<Rightarrow> u32) \<Rightarrow> 'd device_ops \<Rightarrow> 'd \<Rightarrow> page_id \<Rightarrow> lsn" where
  "target_page_lsn crc D d p =
     (if dv_page_count D d \<le> unat p then 0
      else case dv_read_page D d p of
        Inl _ \<Rightarrow> 0
      | Inr buf \<Rightarrow> if \<not> verify_checksum crc buf then 0 else header_lsn buf)"

definition target_ensure :: "'d device_ops \<Rightarrow> 'd \<Rightarrow> page_id \<Rightarrow> (io_error + unit) \<times> 'd" where
  "target_ensure D d p =
     (if dv_page_count D d \<le> unat p then dv_extend D d (unat p - dv_page_count D d + 1) else (Inr (), d))"

definition target_apply ::
  "(bytes \<Rightarrow> u32) \<Rightarrow> 'd device_ops \<Rightarrow> 'd \<Rightarrow> page_id \<Rightarrow> lsn \<Rightarrow> bytes \<Rightarrow> (wal_error + unit) \<times> 'd" where
  "target_apply crc D d p l img =
     (case target_ensure D d p of
        (Inl _, d1) \<Rightarrow> (Inl ApplyRefused, d1)
      | (Inr _, d1) \<Rightarrow>
     (case dv_read_page D d1 p of
        Inl _ \<Rightarrow> (Inl ApplyRefused, d1)
      | Inr buf \<Rightarrow>
     (case apply_patch buf img of
        Inl _ \<Rightarrow> (Inl ApplyRefused, d1)
      | Inr buf1 \<Rightarrow>
     (case dv_write_page D d1 p (write_checksum crc (set_page_id (reset_page_lsn buf1 l) p)) of
        (Inl _, d2) \<Rightarrow> (Inl ApplyRefused, d2)
      | (Inr _, d2) \<Rightarrow> (Inr (), d2)))))"

definition device_target :: "(bytes \<Rightarrow> u32) \<Rightarrow> 'd device_ops \<Rightarrow> 'd apply_ops" where
  "device_target crc D = \<lparr>page_lsn = target_page_lsn crc D, apply_image = target_apply crc D\<rparr>"

definition recover_device_from ::
  "(bytes \<Rightarrow> u32) \<Rightarrow> 's sink_ops \<Rightarrow> 'd device_ops \<Rightarrow> (u64 fset \<Rightarrow> u64 list) \<Rightarrow> 's wal_manager \<Rightarrow> 'd \<Rightarrow> lsn \<Rightarrow>
     ((wal_error + recovery_report) \<times> 's wal_manager \<times> 'd) option" where
  "recover_device_from crc S D order m d scan_start =
     (case recover_from crc S (device_target crc D) order m d scan_start of
        None \<Rightarrow> None
      | Some (Inl e, m1, d1) \<Rightarrow> Some (Inl e, m1, d1)
      | Some (Inr rep, m1, d1) \<Rightarrow>
          (case dv_sync_all D d1 of
             (Inl _, d2) \<Rightarrow> Some (Inl ApplyRefused, m1, d2)
           | (Inr _, d2) \<Rightarrow> Some (Inr rep, m1, d2)))"

definition recover_device ::
  "(bytes \<Rightarrow> u32) \<Rightarrow> 's sink_ops \<Rightarrow> 'd device_ops \<Rightarrow> (u64 fset \<Rightarrow> u64 list) \<Rightarrow> 's wal_manager \<Rightarrow> 'd \<Rightarrow>
     ((wal_error + recovery_report) \<times> 's wal_manager \<times> 'd) option" where
  "recover_device crc S D order m d =
     (case recover crc S (device_target crc D) order m d of
        None \<Rightarrow> None
      | Some (Inl e, m1, d1) \<Rightarrow> Some (Inl e, m1, d1)
      | Some (Inr rep, m1, d1) \<Rightarrow>
          (case dv_sync_all D d1 of
             (Inl _, d2) \<Rightarrow> Some (Inl ApplyRefused, m1, d2)
           | (Inr _, d2) \<Rightarrow> Some (Inr rep, m1, d2)))"

subsection \<open>The content of a page and the action of a patch\<close>

definition body_byte :: "nat \<Rightarrow> bool" where
  "body_byte i \<longleftrightarrow> (OFF_PAGE_TYPE \<le> i \<and> i < OFF_PAGE_LSN \<or> HEADER_SIZE \<le> i) \<and> i < PAGE_SIZE"

definition page_view :: "page \<Rightarrow> nat \<Rightarrow> u8" where
  "page_view pg i = (if body_byte i then pg ! i else 0)"

definition device_view :: "'d device_ops \<Rightarrow> ('d \<Rightarrow> page_id \<Rightarrow> page) \<Rightarrow> 'd \<Rightarrow> page_id \<Rightarrow> nat \<Rightarrow> u8" where
  "device_view D cur d p = (if unat p < dv_page_count D d then page_view (cur d p) else (\<lambda>_. 0))"

definition overwrite :: "nat \<Rightarrow> bytes \<Rightarrow> (nat \<Rightarrow> u8) \<Rightarrow> nat \<Rightarrow> u8" where
  "overwrite off bs c i = (if body_byte i \<and> off \<le> i \<and> i < off + length bs then bs ! (i - off) else c i)"

definition patch_lead :: "bytes \<Rightarrow> u16" where "patch_lead img = from_le (bslice 0 2 img)"
definition cas_offset :: "bytes \<Rightarrow> nat" where "cas_offset img = unat (from_le (bslice 2 2 img) :: u16)"

definition patch_act :: "bytes \<Rightarrow> (nat \<Rightarrow> u8) \<Rightarrow> nat \<Rightarrow> u8" where
  "patch_act img c =
     (if patch_lead img = CAS_SENTINEL
      then if \<forall>k < 8. c (cas_offset img + k) = bslice 4 8 img ! k
           then overwrite (cas_offset img) (bslice 12 8 img) c else c
      else overwrite (unat (patch_lead img)) (drop 2 img) c)"

definition valid_patch :: "page_id \<Rightarrow> bytes \<Rightarrow> bool" where
  "valid_patch p img \<longleftrightarrow> p \<noteq> - 1 \<and> 2 \<le> length img \<and>
     (if patch_lead img = CAS_SENTINEL
      then length img = 20 \<and> HEADER_SIZE \<le> cas_offset img \<and> cas_offset img + 8 \<le> PAGE_SIZE
      else unat (patch_lead img) + (length img - 2) \<le> PAGE_SIZE)"

text \<open>Patches of disjoint regions do not interfere.\<close>

definition patch_region :: "bytes \<Rightarrow> nat set" where
  "patch_region img =
     (if patch_lead img = CAS_SENTINEL then {cas_offset img..<cas_offset img + 8}
      else {unat (patch_lead img)..<unat (patch_lead img) + (length img - 2)})"

lemma patch_act_outside: "valid_patch p img \<Longrightarrow> i \<notin> patch_region img \<Longrightarrow> patch_act img c i = c i"
  by (auto simp: patch_act_def overwrite_def patch_region_def valid_patch_def bslice_def)

lemma patch_act_local:
  assumes "\<And>i. i \<in> patch_region img \<Longrightarrow> c i = c' i" "i \<in> patch_region img"
  shows "patch_act img c i = patch_act img c' i"
  using assms by (auto simp: patch_act_def overwrite_def patch_region_def)

lemma patch_act_commute:
  assumes "valid_patch p a" "valid_patch q b" "patch_region a \<inter> patch_region b = {}"
  shows "patch_act a (patch_act b c) = patch_act b (patch_act a c)"
proof
  fix i
  have oa: "patch_act a x j = x j" if "j \<notin> patch_region a" for x j by (rule patch_act_outside [OF assms(1) that])
  have ob: "patch_act b x j = x j" if "j \<notin> patch_region b" for x j by (rule patch_act_outside [OF assms(2) that])
  consider "i \<in> patch_region a" | "i \<in> patch_region b" "i \<notin> patch_region a" | "i \<notin> patch_region a" "i \<notin> patch_region b" by blast
  then show "patch_act a (patch_act b c) i = patch_act b (patch_act a c) i"
  proof cases
    case 1
    then have "patch_act a (patch_act b c) i = patch_act a c i"
      using assms(3) ob by (intro patch_act_local) auto
    moreover have "i \<notin> patch_region b" using 1 assms(3) by auto
    ultimately show ?thesis using ob by simp
  next
    case 2
    then have "patch_act b (patch_act a c) i = patch_act b c i"
      using assms(3) oa by (intro patch_act_local) auto
    then show ?thesis using oa 2 by auto
  next
    case 3
    then show ?thesis using oa ob by simp
  qed
qed

lemma le64_inj: "le64 a = le64 b \<longleftrightarrow> a = b"
  by (metis from_le_le64)

lemma view_copy_at:
  assumes "length pg = PAGE_SIZE" "off + length bs \<le> PAGE_SIZE"
  shows "page_view (copy_at off bs pg) = overwrite off bs (page_view pg)"
  using assms by (auto simp: page_view_def overwrite_def nth_copy_at body_byte_def fun_eq_iff)

text \<open>On a page, a valid patch has the effect \<open>patch_act\<close> describes.\<close>

lemma apply_patch_view:
  assumes "length pg = PAGE_SIZE" "valid_patch p img"
  shows "\<exists>pg'. apply_patch pg img = Inr pg' \<and> length pg' = PAGE_SIZE \<and> page_view pg' = patch_act img (page_view pg)"
proof (cases "patch_lead img = CAS_SENTINEL")
  case False
  then have "apply_patch pg img = Inr (copy_at (unat (patch_lead img)) (drop 2 img) pg)"
    using assms by (auto simp: apply_patch_def valid_patch_def Let_def patch_lead_def [symmetric])
  moreover have "unat (patch_lead img) + length (drop 2 img) \<le> PAGE_SIZE"
    using assms False by (auto simp: valid_patch_def)
  ultimately show ?thesis using assms(1) False by (simp add: view_copy_at patch_act_def length_copy_at)
next
  case True
  let ?o = "cas_offset img"
  have len: "length img = 20" "24 \<le> ?o" "?o + 8 \<le> PAGE_SIZE" using assms True by (auto simp: valid_patch_def page_offsets)
  have new: "le64 (from_le (bslice 12 8 img)) = bslice 12 8 img" and expect: "le64 (from_le (bslice 4 8 img)) = bslice 4 8 img"
    using len(1) by (auto simp: le64_read_u64 [unfolded read_u64_def])
  have "read_u64 pg ?o = from_le (bslice 4 8 img) \<longleftrightarrow> bslice ?o 8 pg = bslice 4 8 img"
    using le64_inj le64_read_u64 [of ?o pg] expect len assms(1) by metis
  also have "\<dots> \<longleftrightarrow> (\<forall>k < 8. page_view pg (?o + k) = bslice 4 8 img ! k)"
    using len assms(1) by (auto simp: list_eq_iff_nth_eq bslice_def page_view_def body_byte_def page_offsets)
  finally have eq: "read_u64 pg ?o = from_le (bslice 4 8 img) \<longleftrightarrow> (\<forall>k < 8. page_view pg (?o + k) = bslice 4 8 img ! k)" .
  have "apply_patch pg img = Inr (if read_u64 pg ?o = from_le (bslice 4 8 img) then copy_at ?o (bslice 12 8 img) pg else pg)"
    using True len assms(1) new
    by (simp add: apply_patch_def Let_def patch_lead_def [symmetric] cas_offset_def [symmetric])
  moreover have "length (bslice 12 8 img) = 8" using len by (simp add: bslice_def)
  ultimately show ?thesis using True len assms(1) eq
    by (auto simp: view_copy_at patch_act_def length_copy_at)
qed

lemma view_header_ops:
  assumes "length pg = PAGE_SIZE"
  shows "page_view (write_checksum crc (set_page_id (reset_page_lsn pg l) i)) = page_view pg"
  using assms
  by (auto simp: fun_eq_iff page_view_def write_checksum_def set_page_id_def reset_page_lsn_def nth_copy_at
      length_copy_at body_byte_def page_offsets)

subsection \<open>The target is a page store\<close>

locale device_store = block_device +
  fixes crc :: "bytes \<Rightarrow> u32"
begin

lemma ensure_page:
  assumes "ok d" "p \<noteq> - 1"
  shows "\<exists>d1. target_ensure D d p = (Inr (), d1) \<and> ok d1 \<and> unat p < dv_page_count D d1 \<and>
    dv_page_count D d \<le> dv_page_count D d1 \<and> (\<forall>q. device_view D cur d1 q = device_view D cur d q) \<and>
    page_view (cur d1 p) = device_view D cur d p \<and>
    (\<forall>q. unat q < dv_page_count D d \<longrightarrow> cur d1 q = cur d q) \<and>
    (\<forall>q. dv_page_count D d \<le> unat q \<and> unat q < dv_page_count D d1 \<longrightarrow> cur d1 q = replicate PAGE_SIZE 0)"
proof (cases "dv_page_count D d \<le> unat p")
  case False
  then show ?thesis using assms by (auto simp: target_ensure_def device_view_def)
next
  case True
  have zero: "page_view (replicate PAGE_SIZE 0) = (\<lambda>_. 0)"
    by (auto simp: page_view_def body_byte_def)
  have "unat p \<noteq> 2 ^ 64 - 1"
    using assms(2) word_unat_eq_iff [of p "- 1"] by (simp add: unsigned_minus_1_eq_mask mask_eq_exp_minus_1)
  moreover have "unat p < 2 ^ 64" using unsigned_less [where w = p] by simp
  ultimately have "unat p + 1 < 2 ^ 64" by simp
  then have "dv_page_count D d + (unat p - dv_page_count D d + 1) < 2 ^ 64" using True by simp
  from extend_law [OF assms(1) this] obtain d1 where d1: "dv_extend D d (unat p - dv_page_count D d + 1) = (Inr (), d1)"
    "ok d1" "dv_page_count D d1 = unat p + 1" "\<forall>q. unat q < dv_page_count D d \<longrightarrow> cur d1 q = cur d q"
    "\<forall>q. dv_page_count D d \<le> unat q \<and> unat q < dv_page_count D d1 \<longrightarrow> cur d1 q = replicate PAGE_SIZE 0"
    using True by auto
  then show ?thesis using True zero by (intro exI [of _ d1]) (auto simp: target_ensure_def device_view_def fun_eq_iff)
qed

lemma page_lsn_cong:
  "ok d \<Longrightarrow> ok d' \<Longrightarrow> unat q < dv_page_count D d \<Longrightarrow> unat q < dv_page_count D d' \<Longrightarrow> cur d' q = cur d q \<Longrightarrow>
    target_page_lsn crc D d' q = target_page_lsn crc D d q"
  by (simp add: target_page_lsn_def read_law)

lemma page_lsn_fresh:
  assumes "ok d" "unat q < dv_page_count D d" "cur d q = replicate PAGE_SIZE 0"
  shows "target_page_lsn crc D d q = 0"
proof -
  have "header_lsn (replicate PAGE_SIZE 0) = 0"
    by (simp add: header_lsn_def read_u64_def bslice_def from_le_zeros)
  then show ?thesis using assms by (simp add: target_page_lsn_def read_law)
qed

lemma target_apply_law:
  assumes "ok d" "valid_patch p img"
  shows "\<exists>d'. target_apply crc D d p l img = (Inr (), d') \<and> ok d' \<and> target_page_lsn crc D d' p = l \<and>
    device_view D cur d' p = patch_act img (device_view D cur d p) \<and>
    (\<forall>q. q \<noteq> p \<longrightarrow> target_page_lsn crc D d' q = target_page_lsn crc D d q \<and> device_view D cur d' q = device_view D cur d q)"
proof -
  have "p \<noteq> - 1" using assms(2) by (simp add: valid_patch_def)
  from ensure_page [OF assms(1) this] obtain d1 where d1: "target_ensure D d p = (Inr (), d1)" "ok d1"
    "unat p < dv_page_count D d1" "dv_page_count D d \<le> dv_page_count D d1"
    "\<forall>q. device_view D cur d1 q = device_view D cur d q" "page_view (cur d1 p) = device_view D cur d p"
    "\<forall>q. unat q < dv_page_count D d \<longrightarrow> cur d1 q = cur d q"
    "\<forall>q. dv_page_count D d \<le> unat q \<and> unat q < dv_page_count D d1 \<longrightarrow> cur d1 q = replicate PAGE_SIZE 0"
    by blast
  note rd = read_law [OF d1(2,3)]
  from apply_patch_view [OF _ assms(2), of "cur d1 p"] rd obtain b where b: "apply_patch (cur d1 p) img = Inr b"
    "length b = PAGE_SIZE" "page_view b = patch_act img (page_view (cur d1 p))" by auto
  define w where "w = write_checksum crc (set_page_id (reset_page_lsn b l) p)"
  have w: "length w = PAGE_SIZE" "verify_checksum crc w" "header_lsn w = l" "page_view w = page_view b"
    using b(2) by (simp_all add: w_def verify_write_checksum header_lsn_ops view_header_ops)
  from write_law [OF d1(2,3) w(1)] obtain d2 where d2: "dv_write_page D d1 p w = (Inr (), d2)" "ok d2"
    "dv_page_count D d2 = dv_page_count D d1" "cur d2 p = w" "\<forall>q. q \<noteq> p \<longrightarrow> cur d2 q = cur d1 q" by blast
  have "target_page_lsn crc D d2 q = target_page_lsn crc D d q" if "q \<noteq> p" for q
  proof (cases "unat q < dv_page_count D d")
    case True
    then show ?thesis using that d1 d2 by (intro page_lsn_cong [OF assms(1) d2(2)]) auto
  next
    case False
    then have "target_page_lsn crc D d q = 0" by (simp add: target_page_lsn_def)
    moreover have "target_page_lsn crc D d2 q = 0"
      using that False d1(8) d2 page_lsn_fresh [OF d2(2), of q]
      by (cases "unat q < dv_page_count D d2") (auto simp: target_page_lsn_def)
    ultimately show ?thesis by simp
  qed
  moreover have "device_view D cur d2 q = device_view D cur d1 q" if "q \<noteq> p" for q
    using that d2 by (simp add: device_view_def)
  moreover have "target_page_lsn crc D d2 p = l"
    using d2 d1(3) w read_law [OF d2(2), of p] by (simp add: target_page_lsn_def)
  moreover have "target_apply crc D d p l img = (Inr (), d2)"
    using d1(1) rd b(1) d2(1) by (simp add: target_apply_def w_def)
  moreover have "device_view D cur d2 p = patch_act img (device_view D cur d p)"
    using d1(3,6) d2 w b by (simp add: device_view_def)
  ultimately show ?thesis using d2(2) d1(5) by auto
qed

end

sublocale device_store \<subseteq> store: page_store "device_target crc D" ok "device_view D cur" patch_act valid_patch
proof
  fix d p img l assume "ok d" "valid_patch p img"
  then show "\<exists>d'. apply_image (device_target crc D) d p l img = (Inr (), d') \<and> ok d' \<and>
      page_lsn (device_target crc D) d' p = l \<and> device_view D cur d' p = patch_act img (device_view D cur d p) \<and>
      (\<forall>q. q \<noteq> p \<longrightarrow> page_lsn (device_target crc D) d' q = page_lsn (device_target crc D) d q \<and>
        device_view D cur d' q = device_view D cur d q)"
    using target_apply_law [of d p img l] by (simp add: device_target_def)
qed

interpretation mem_store: device_store mem_device_ops mem_device_ok current_page mem_durable crc for crc
  by (rule device_store.intro, rule mem_dev.block_device_axioms)

end
