(* ===== verification/Wal_Crash.thy ===== *)
theory Wal_Crash
  imports Wal_Run Device_Target
begin

text \<open>
  What a run of the log manager over the in-memory sink leaves after a crash, what the scans at open
  return on it, and what recovery onto the in-memory device makes of it. The lemmas here join the
  run invariant, the recovery specification and the device contract; the properties rest on them.
\<close>

subsection \<open>The records of a durable log\<close>

definition durable_records :: "(bytes \<Rightarrow> u32) \<Rightarrow> bytes \<Rightarrow> log_record list" where
  "durable_records crc im = snd (scan_all crc (\<lambda>r _ a. (Inr (), a @ [r])) im False HEADER_LEN [])"

lemma run_records_collect: "run_records (\<lambda>r _ a. (Inr (), a @ [r])) rs a = (Inr (), a @ rs)"
  by (induction rs arbitrary: a) simp_all

lemma durable_records_eq:
  assumes "holds_log crc im HEADER_LEN rs rest" "clean_end crc im (HEADER_LEN + log_len rs)"
  shows "durable_records crc im = rs"
  unfolding durable_records_def scan_all_log [OF assms(1)] run_records_collect
  by (simp add: scan_all_end [OF assms(2)])

lemma links_ok_append_left: "log_ok off (rs @ rs') \<Longrightarrow> links_ok off (rs @ rs') \<Longrightarrow> links_ok off rs"
proof (induction rs' rule: rev_induct)
  case (snoc r rs')
  then have "log_ok off ((rs @ rs') @ [r])" "links_ok off ((rs @ rs') @ [r])" by simp_all
  from links_ok_prefix [OF this] snoc show ?case by (simp add: log_ok_append)
qed simp

lemma disciplined_append_left: "disciplined (rs @ rs') \<Longrightarrow> disciplined rs"
  by (induction rs' rule: rev_induct) (simp_all add: disciplined_snoc flip: append_assoc)

lemma log_len_take: "n \<le> length rs \<Longrightarrow> log_len (take n rs) \<le> log_len (take k rs) \<Longrightarrow> n \<le> k"
proof (induction rs arbitrary: n k)
  case (Cons r rs)
  show ?case
  proof (cases n)
    case (Suc n')
    then show ?thesis using Cons encoded_len_pos [of r] by (cases k) (simp_all del: encoded_len_pos)
  qed simp
qed simp

subsection \<open>What a crash leaves\<close>

text \<open>The log after a run and a crash.\<close>

definition wal_run :: "(bytes \<Rightarrow> u32) \<Rightarrow> mem_log_sink wal_manager \<Rightarrow> wal_op list \<Rightarrow> bool" where
  "wal_run crc m0 ops \<longleftrightarrow>
     wal_create mem_sink_ops mem_sink_new = Inr m0 \<and> run_ok crc mem_sink_ops ghost_new m0 ops"

abbreviation mem_rinv where "mem_rinv \<equiv> run_inv mem_sink_ok durable_bytes mem_unsynced"

lemma wal_run_inv:
  assumes "wal_run crc m0 ops"
  shows "\<exists>rs. mem_rinv crc (foldl track ghost_new ops) (run_ops crc mem_sink_ops m0 ops) rs"
proof -
  have "mem_sink_ok mem_sink_new" "durable_bytes mem_sink_new = []" "mem_unsynced mem_sink_new = []"
    by (simp_all add: mem_sink_ok_def mem_sink_new_def durable_bytes_def durable_end_def copy_at_def mem_unsynced_def)
  from mem_log.create_rinv [OF this, of m0 crc] mem_log.run_ops_rinv [of crc ghost_new m0 "[]" ops] assms
  show ?thesis by (auto simp: wal_run_def)
qed

lemma crash_views:
  "mem_sink_ok (sink_crash s) = mem_sink_ok s" "durable_bytes (sink_crash s) = durable_bytes s"
  "mem_unsynced (sink_crash s) = []" "mem_reclaimed_floor (sink_crash s) = mem_reclaimed_floor s"
  by (simp_all add: sink_crash_def mem_sink_ok_def durable_bytes_def durable_end_def mem_unsynced_def mem_reclaimed_floor_def)

lemma wal_run_floor:
  assumes "wal_run crc m0 ops"
  shows "mem_reclaimed_floor (wal_sink (run_ops crc mem_sink_ops m0 ops)) = 0"
proof -
  have "mem_sink_ok (wal_sink m0) \<and> mem_reclaimed_floor (wal_sink m0) = 0"
    using assms by (auto simp: wal_run_def wal_create_def harden_def mem_sink_ops_def mem_sync_def mem_append_def
        mem_sink_new_def mem_reclaimed_floor_def mem_sink_ok_def mem_buffered_len_def durable_end_def)
  moreover have "sk_reclaimed_floor mem_sink_ops = mem_reclaimed_floor" by (simp add: mem_sink_ops_def)
  ultimately show ?thesis using mem_log.run_ops_keeps [of m0 crc ops] by (simp add: mem_log.keeps_def)
qed

text \<open>A log that recovery can start from.\<close>

definition recoverable :: "(bytes \<Rightarrow> u32) \<Rightarrow> mem_log_sink \<Rightarrow> log_record list \<Rightarrow> bool" where
  "recoverable crc s rs \<longleftrightarrow> durable_bytes s = wal_header @ log_image crc rs \<and> log_ok HEADER_LEN rs \<and>
     links_ok HEADER_LEN rs \<and> disciplined rs \<and> length (durable_bytes s) < 2 ^ 63"

lemma rinv_recoverable:
  assumes "mem_rinv crc g m rs"
  shows "\<exists>k \<le> length rs. recoverable crc (wal_sink m) (take k rs)"
proof -
  from assms obtain k where k: "k \<le> length rs" "durable_bytes (wal_sink m) = wal_header @ log_image crc (take k rs)"
    by (auto simp: run_inv_def sink_inv_def)
  have i: "log_ok HEADER_LEN (take k rs @ drop k rs)" "links_ok HEADER_LEN (take k rs @ drop k rs)"
    "disciplined (take k rs @ drop k rs)" and "HEADER_LEN + log_len (take k rs @ drop k rs) < 2 ^ 63"
    using assms by (simp_all add: run_inv_def log_inv_def)
  then have l: "HEADER_LEN + log_len (take k rs) < 2 ^ 63" unfolding log_len_simps by simp
  have "recoverable crc (wal_sink m) (take k rs)"
    using k(2) l i(1) links_ok_append_left [OF i(1,2)] disciplined_append_left [OF i(3)]
    unfolding recoverable_def log_ok_append by simp
  then show ?thesis using k(1) by blast
qed

lemma recoverable_log:
  assumes "recoverable crc s rs"
  shows "holds_log crc (durable_bytes s) HEADER_LEN rs []" "clean_end crc (durable_bytes s) (HEADER_LEN + log_len rs)"
    "durable_records crc (durable_bytes s) = rs"
  using durable_records_eq [of crc "durable_bytes s" rs "[]"] assms
  by (auto simp: recoverable_def holds_log_def clean_end_def)

lemma recoverable_opens:
  assumes "mem_sink_ok s" "recoverable crc s rs"
  shows "wal_open mem_sink_ops s = Inr \<lparr>wal_sink = s, wal_active = fmempty\<rparr>"
proof -
  have d: "durable_bytes s = wal_header @ log_image crc rs" using assms(2) by (simp add: recoverable_def)
  have h: "mem_read_bounded s 0 HEADER_LEN = wal_header"
    by (simp add: mem_read_bounded_eq [OF assms(1)] d bslice_def)
  have "HEADER_LEN \<le> durable_end s" using length_durable_bytes [OF assms(1)] d by simp
  then show ?thesis using h
    by (simp add: wal_open_def mem_sink_ops_def Let_def wal_header_def bslice_def)
qed

lemma wal_run_crash:
  assumes "wal_run crc m0 ops" "s = sink_crash (wal_sink (run_ops crc mem_sink_ops m0 ops))"
  shows "mem_sink_ok s" "recoverable crc s (durable_records crc (durable_bytes s))" "mem_reclaimed_floor s = 0"
    "mem_unsynced s = []" "wal_open mem_sink_ops s = Inr \<lparr>wal_sink = s, wal_active = fmempty\<rparr>"
proof -
  from wal_run_inv [OF assms(1)] obtain g rs where inv: "mem_rinv crc g (run_ops crc mem_sink_ops m0 ops) rs" by blast
  from rinv_recoverable [OF this] obtain k where "recoverable crc s (take k rs)"
    using assms(2) by (auto simp: recoverable_def crash_views)
  then show r: "recoverable crc s (durable_records crc (durable_bytes s))" using recoverable_log(3) by metis
  show ok: "mem_sink_ok s" using inv assms(2) by (simp add: run_inv_def sink_inv_def crash_views)
  show "mem_reclaimed_floor s = 0" using wal_run_floor [OF assms(1)] by (simp add: assms(2) crash_views)
  show "mem_unsynced s = []" by (simp add: assms(2) crash_views)
  show "wal_open mem_sink_ops s = Inr \<lparr>wal_sink = s, wal_active = fmempty\<rparr>" by (rule recoverable_opens [OF ok r])
qed

subsection \<open>The scans at open\<close>

lemma scan_recoverable:
  assumes ok: "mem_sink_ok s" and r: "recoverable crc s rs" and m: "m = \<lparr>wal_sink = s, wal_active = act\<rparr>"
    and f: "\<And>r pos a. f r pos a = (Inr (), g r a)"
  shows "scan_forward crc (wal_rd mem_sink_ops m) f probe (durable_end s) RECOVERY_WINDOW_BYTES HEADER_LEN RECOVERY_WINDOW_BYTES a =
      Some (Inr ScanComplete, fold g rs a)"
    "find_first_record_offset crc (wal_rd mem_sink_ops m) (durable_end s) RECOVERY_WINDOW_BYTES HEADER_LEN =
      Some (Inr (if rs = [] then None else Some HEADER_LEN))"
proof -
  note l = recoverable_log [OF r]
  have rd: "reads_image (wal_rd mem_sink_ops m) (durable_bytes s)" using mem_sink.wal_rd_image [of m] ok m by simp
  have w: "4 \<le> RECOVERY_WINDOW_BYTES" "0 < RECOVERY_WINDOW_BYTES" by (simp_all add: RECOVERY_WINDOW_BYTES_def)
  have L: "length (durable_bytes s) < 2 ^ 63" using r unfolding recoverable_def by blast
  show "scan_forward crc (wal_rd mem_sink_ops m) f probe (durable_end s) RECOVERY_WINDOW_BYTES HEADER_LEN RECOVERY_WINDOW_BYTES a =
      Some (Inr ScanComplete, fold g rs a)"
    using scan_forward_log [OF rd L w(2) l(1,2), of f probe a] run_records_total [of f g rs a] f
    by (simp add: length_durable_bytes [OF ok])
  show "find_first_record_offset crc (wal_rd mem_sink_ops m) (durable_end s) RECOVERY_WINDOW_BYTES HEADER_LEN =
      Some (Inr (if rs = [] then None else Some HEADER_LEN))"
    using find_first_record_offset_log [OF rd L w(1) l(1)] by (simp add: length_durable_bytes [OF ok])
qed

definition commits_of :: "log_record list \<Rightarrow> (txn_id \<times> timestamp \<times> lsn) list" where
  "commits_of rs = concat (map (\<lambda>r. if rec_type r = RCommit
     then (case record_commit_ts r of Some ts \<Rightarrow> [(rec_txn r, ts, rec_lsn r)] | None \<Rightarrow> []) else []) rs)"

lemma fold_on_commit:
  "fold (\<lambda>r out. case record_commit_ts r of
        Some ts \<Rightarrow> if rec_type r = RCommit then out @ [(rec_txn r, ts, rec_lsn r)] else out
      | None \<Rightarrow> out) rs out = out @ commits_of rs"
  by (induction rs arbitrary: out) (auto simp: commits_of_def split: option.splits)

lemma committed_transactions_eq:
  assumes "mem_sink_ok s" "recoverable crc s rs" "mem_reclaimed_floor s = 0"
  shows "committed_transactions crc mem_sink_ops \<lparr>wal_sink = s, wal_active = act\<rparr> = Some (Inr (commits_of rs))"
proof -
  let ?g = "\<lambda>r out. case record_commit_ts r of
        Some ts \<Rightarrow> if rec_type r = RCommit then out @ [(rec_txn r, ts, rec_lsn r)] else out
      | None \<Rightarrow> out"
  have S: "sk_reclaimed_floor mem_sink_ops = mem_reclaimed_floor" "sk_durable_len mem_sink_ops = durable_end"
    by (simp_all add: mem_sink_ops_def)
  note sc = scan_recoverable [OF assms(1,2) refl, where act = act]
  have f: "\<And>r pos a. on_commit r pos a = (Inr (), ?g r a)" by (simp add: on_commit_def)
  show ?thesis
    using sc(1) [of on_commit ?g True "[]", OF f] sc(2) [of on_commit ?g, OF f] assms(3) fold_on_commit [of rs "[]"]
    by (simp add: committed_transactions_def S commits_of_def)
qed

lemma max_recovered_txn_id_eq:
  assumes "mem_sink_ok s" "recoverable crc s rs" "mem_reclaimed_floor s = 0"
  shows "max_recovered_txn_id crc mem_sink_ops \<lparr>wal_sink = s, wal_active = act\<rparr> =
    Some (Inr (fold (\<lambda>r mx. if rec_txn r \<noteq> 0 \<and> rec_txn r \<noteq> - 1 then max mx (rec_txn r) else mx) rs 0))"
proof -
  let ?g = "\<lambda>r mx. if rec_txn r \<noteq> 0 \<and> rec_txn r \<noteq> - 1 then max mx (rec_txn r) else mx"
  have S: "sk_reclaimed_floor mem_sink_ops = mem_reclaimed_floor" "sk_durable_len mem_sink_ops = durable_end"
    by (simp_all add: mem_sink_ops_def)
  note sc = scan_recoverable [OF assms(1,2) refl, where act = act]
  have f: "\<And>r pos a. on_max_id r pos a = (Inr (), ?g r a)" by (simp add: on_max_id_def)
  show ?thesis
    using sc(1) [of on_max_id ?g False 0, OF f] sc(2) [of on_max_id ?g, OF f] assms(3)
    by (simp add: max_recovered_txn_id_def S)
qed

subsection \<open>Recovery onto the device\<close>

lemma append_all_armed: "armed_sync_error (wal_sink (append_all crc mem_sink_ops xs m)) = armed_sync_error (wal_sink m)"
  by (induction xs arbitrary: m) (auto simp: wal_append_def mem_sink_ops_def mem_append_def Let_def)

lemma mem_harden_unarmed:
  assumes "\<not> armed_sync_error (wal_sink m)"
  shows "\<exists>m'. harden mem_sink_ops m = (Inr (), m') \<and> wal_active m' = wal_active m"
  using assms by (simp add: harden_def mem_sink_ops_def mem_sync_def)

abbreviation mem_view where "mem_view \<equiv> device_view mem_device_ops current_page"

lemma recover_device_atomic:
  assumes ok: "mem_sink_ok s" "recoverable crc s rs" "mem_reclaimed_floor s = 0" "\<not> armed_sync_error s"
    and or: "iterates order"
    and img: "valid_images valid_patch rs" "undo_images_ok patch_act c0 rs" "isolated patch_act (uncommitted rs) rs"
    and d: "mem_device_ok d" "flushed_state (device_target crc mem_device_ops) mem_view patch_act c0
        (redo_start_of (fold analyse rs analysis_new)) rs d"
  shows "\<exists>rep m' d'. recover_device crc mem_sink_ops mem_device_ops order \<lparr>wal_sink = s, wal_active = act\<rparr> d = Some (Inr rep, m', d') \<and>
    harden mem_sink_ops (append_all crc mem_sink_ops (recovery_appends order rs) \<lparr>wal_sink = s, wal_active = act\<rparr>) = (Inr (), m') \<and>
    (\<forall>p. mem_view (device_crash d') p = page_history patch_act p (filter (survives (uncommitted rs)) rs) (c0 p))"
proof -
  let ?m = "\<lparr>wal_sink = s, wal_active = act\<rparr>"
  note l = recoverable_log [OF ok(2)]
  have h: "unat (of_nat HEADER_LEN :: lsn) = HEADER_LEN" by (simp add: HEADER_LEN_def)
  have fl: "sk_reclaimed_floor mem_sink_ops s = 0" using ok(3) by (simp add: mem_sink_ops_def)
  have links: "links_ok HEADER_LEN rs" "log_ok HEADER_LEN rs" "disciplined rs" and L: "length (durable_bytes s) < 2 ^ 63"
    using ok(2) unfolding recoverable_def by blast+
  have rec: "recover crc mem_sink_ops (device_target crc mem_device_ops) order ?m d =
      Some (recover_log crc mem_sink_ops (device_target crc mem_device_ops) order rs False ?m d)"
    unfolding recover_def recover_from_def
    using mem_sink.recover_from_windowed_eq [of ?m RECOVERY_WINDOW_BYTES crc "of_nat HEADER_LEN" rs "[]"
        "device_target crc mem_device_ops" order d] l links L ok(1)
    by (simp add: fl h RECOVERY_WINDOW_BYTES_def)
  let ?ma = "append_all crc mem_sink_ops (recovery_appends order rs) ?m"
  obtain m1 where m1: "harden mem_sink_ops ?ma = (Inr (), m1)"
    using mem_harden_unarmed [of ?ma] append_all_armed [of crc "recovery_appends order rs" ?m] ok(4) by auto
  from mem_store.store.recover_log_atomic [OF links(2) header_len_8(1) links(1,3) or img d, of crc mem_sink_ops False ?m]
  obtain rep d1 where r: "recover_log crc mem_sink_ops (device_target crc mem_device_ops) order rs False ?m d = (Inr rep, m1, d1)"
    "mem_device_ok d1"
    "\<forall>p. mem_view d1 p = page_history patch_act p (filter (survives (uncommitted rs)) rs) (c0 p)"
    unfolding wal_flush_def m1 by auto
  from mem_dev.sync_law [OF r(2)] obtain d2 where d2: "dv_sync_all mem_device_ops d1 = (Inr (), d2)"
    "dv_page_count mem_device_ops d2 = dv_page_count mem_device_ops d1"
    "\<forall>p. unat p < dv_page_count mem_device_ops d1 \<longrightarrow> mem_durable d2 p = current_page d1 p" by blast
  have "dv_page_count mem_device_ops (device_crash d2) = dv_page_count mem_device_ops d2"
    by (simp add: mem_device_ops_def mem_page_count_def device_crash_def)
  then have "mem_view (device_crash d2) p = mem_view d1 p" for p
    using d2(2,3) by (simp add: device_view_def mem_durable_def)
  then show ?thesis using rec r(1,3) d2(1) m1 by (simp add: recover_device_def)
qed

subsection \<open>Acknowledged commits\<close>

lemma run_ok_append:
  "run_ok crc S g m (xs @ ys) \<longleftrightarrow> run_ok crc S g m xs \<and> run_ok crc S (foldl track g xs) (run_ops crc S m xs) ys"
  by (induction xs arbitrary: g m) (auto simp: run_ops_def)

lemma run_ops_append: "run_ops crc S m (xs @ ys) = run_ops crc S (run_ops crc S m xs) ys"
  by (simp add: run_ops_def)

lemma run_ops_Cons: "run_ops crc S m (x # ys) = run_ops crc S (do_op crc S m x) ys"
  by (simp add: run_ops_def)

lemma commit_at_rinv:
  assumes "mem_rinv crc g m rs" "op_allowed g m (OpCommitAt t ts)" "op_fits crc mem_sink_ops m (OpCommitAt t ts)"
    and "commit_at crc mem_sink_ops m t ts = (Inr l, m2)"
  shows "\<exists>c. mem_rinv crc g m2 (rs @ [c]) \<and> durable_bytes (wal_sink m2) = wal_header @ log_image crc (rs @ [c]) \<and>
    rec_type c = RCommit \<and> rec_txn c = t \<and> rec_lsn c = l \<and> record_commit_ts c = Some ts"
proof -
  obtain st where st: "fmlookup (wal_active m) t = Some st"
    and fc: "finish_commit crc mem_sink_ops m t (log_record_commit t (last_lsn st) ts) = (Inr l, m2)"
    using assms(4) by (auto simp: commit_at_def mem_log.commit_cases split: option.splits)
  let ?r = "log_record_commit t (last_lsn st) ts" and ?c = "placed rs (log_record_commit t (last_lsn st) ts)"
  have r: "rec_txn ?r = t" "rec_type ?r = RCommit" "prev_lsn ?r = last_lsn st"
    by (simp_all add: log_record_commit_def log_record_new_def)
  have g: "mem_log.grows m (snd (finish_commit crc mem_sink_ops m t ?r))"
    using assms(3,4) fc by (simp add: op_fits_def Let_def)
  have "t \<notin> set (rolling g)" using assms(2) by simp
  note f = mem_log.finish_commit_rinv [OF assms(1) st this r g]
  have "record_commit_ts ?c = record_commit_ts ?r" by (simp add: record_commit_ts_def placed_def)
  then have "record_commit_ts ?c = Some ts" by (simp add: commit_ts_roundtrip)
  then show ?thesis using f(1) f(2) [of l] fc r by (intro exI [of _ ?c]) simp
qed

lemma acknowledged_commit_durable:
  assumes run: "wal_run crc m0 (ops @ OpCommitAt t ts # ops')"
    and ack: "fst (commit_at crc mem_sink_ops (run_ops crc mem_sink_ops m0 ops) t ts) = Inr l"
  defines "s \<equiv> wal_sink (run_ops crc mem_sink_ops m0 (ops @ OpCommitAt t ts # ops'))"
  shows "\<exists>rs. mem_sink_ok s \<and> recoverable crc s rs \<and> (t, ts, l) \<in> set (commits_of rs)"
proof -
  define g where "g = foldl track ghost_new ops"
  define m1 where "m1 = run_ops crc mem_sink_ops m0 ops"
  obtain m2 where m2: "commit_at crc mem_sink_ops m1 t ts = (Inr l, m2)"
    using ack by (cases "commit_at crc mem_sink_ops m1 t ts") (simp add: m1_def)
  have ok: "wal_run crc m0 ops" "op_allowed g m1 (OpCommitAt t ts)" "op_fits crc mem_sink_ops m1 (OpCommitAt t ts)"
    "run_ok crc mem_sink_ops g m2 ops'"
    using run m2 by (auto simp: wal_run_def run_ok_append g_def m1_def)
  obtain rs1 where rs1: "mem_rinv crc g m1 rs1" using wal_run_inv [OF ok(1)] by (auto simp: g_def m1_def)
  from commit_at_rinv [OF rs1 ok(2,3) m2] obtain c where c: "mem_rinv crc g m2 (rs1 @ [c])"
    "durable_bytes (wal_sink m2) = wal_header @ log_image crc (rs1 @ [c])"
    "rec_type c = RCommit" "rec_txn c = t" "rec_lsn c = l" "record_commit_ts c = Some ts" by blast
  define m3 where "m3 = run_ops crc mem_sink_ops m2 ops'"
  have s: "s = wal_sink m3" using m2 by (simp add: s_def m3_def m1_def run_ops_append run_ops_Cons)
  from mem_log.run_ops_rinv [OF c(1) ok(4)] obtain rs2 where
    rs2: "mem_rinv crc (foldl track g ops') m3 ((rs1 @ [c]) @ rs2)" by (auto simp: m3_def)
  from rinv_recoverable [OF this] obtain k where k: "recoverable crc s (take k ((rs1 @ [c]) @ rs2))" by (auto simp: s)
  have "mem_sink_ok (wal_sink m2)" "mem_sink_ok s" using c(1) rs2 by (simp_all add: run_inv_def sink_inv_def s)
  moreover from this have "prefix (durable_bytes (wal_sink m2)) (durable_bytes s)"
    using mem_log.run_ops_keeps [of m2 crc ops'] by (simp add: mem_log.keeps_def s m3_def)
  then have "log_len (take (length (rs1 @ [c])) ((rs1 @ [c]) @ rs2)) \<le> log_len (take k ((rs1 @ [c]) @ rs2))"
    using k c(2) by (auto simp: recoverable_def length_encode dest!: prefix_length_le)
  then have "length (rs1 @ [c]) \<le> k" by (rule log_len_take [rotated]) simp
  then obtain j where "k = length (rs1 @ [c]) + j" by (auto simp: le_iff_add)
  then have "c \<in> set (take k ((rs1 @ [c]) @ rs2))" by simp
  then have "(t, ts, l) \<in> set (commits_of (take k ((rs1 @ [c]) @ rs2)))"
    using c(3-6) by (force simp: commits_of_def)
  ultimately show ?thesis using k by blast
qed

subsection \<open>The write-ahead rule and reclamation\<close>

text \<open>All records of a log, the ones not yet durable included.\<close>

definition appended_records :: "(bytes \<Rightarrow> u32) \<Rightarrow> mem_log_sink \<Rightarrow> log_record list" where
  "appended_records crc s = durable_records crc (durable_bytes s @ mem_unsynced s)"

lemma appended_records_rinv:
  assumes "mem_rinv crc g m rs"
  shows "appended_records crc (wal_sink m) = rs"
proof -
  have "durable_bytes (wal_sink m) @ mem_unsynced (wal_sink m) = wal_header @ log_image crc rs" "log_ok HEADER_LEN rs"
    using assms by (auto simp: run_inv_def sink_inv_def log_inv_def)
  then show ?thesis unfolding appended_records_def
    by (intro durable_records_eq [where rest = "[]"]) (simp_all add: holds_log_def clean_end_def)
qed

lemma ensure_durable_rinv:
  assumes inv: "mem_rinv crc g m rs" and e: "ensure_durable mem_sink_ops m l = (Inr (), m')"
  shows "{r \<in> set rs. rec_lsn r \<le> l} \<subseteq> set (durable_records crc (durable_bytes (wal_sink m')))"
proof (cases "sk_durable_len mem_sink_ops (wal_sink m) \<le> unat l")
  case True
  then have h: "harden mem_sink_ops m = (Inr (), m')" using e by (simp add: ensure_durable_def)
  have "durable_bytes (wal_sink m') = wal_header @ log_image crc rs" "log_ok HEADER_LEN rs"
    using mem_log.harden_rinv(3) [OF inv h] inv by (auto simp: run_inv_def log_inv_def)
  then have "durable_records crc (durable_bytes (wal_sink m')) = rs"
    by (intro durable_records_eq [where rest = "[]"]) (simp_all add: holds_log_def clean_end_def)
  then show ?thesis by auto
next
  case False
  then have m': "m' = m" using e by (simp add: ensure_durable_def)
  from rinv_recoverable [OF inv] obtain k where k: "recoverable crc (wal_sink m) (take k rs)" by blast
  have ok: "mem_sink_ok (wal_sink m)" "log_ok HEADER_LEN (take k rs @ drop k rs)"
    using inv by (auto simp: run_inv_def sink_inv_def log_inv_def)
  have "sk_durable_len mem_sink_ops (wal_sink m) = HEADER_LEN + log_len (take k rs)"
    using mem_sink.durable_len_law [OF ok(1)] k by (simp add: recoverable_def)
  then have "unat l < HEADER_LEN + log_len (take k rs)" using False by simp
  moreover have "HEADER_LEN + log_len (take k rs) \<le> unat (rec_lsn r)" if "r \<in> set (drop k rs)" for r
    using ok(2) log_ok_bounds that unfolding log_ok_append by blast
  ultimately have "r \<in> set (take k rs)" if "r \<in> set rs" "rec_lsn r \<le> l" for r
    using that by (metis Un_iff append_take_drop_id le_less_trans leD set_append word_le_nat_alt)
  then show ?thesis using recoverable_log(3) [OF k] m' by auto
qed

lemma reclaim_keeps_records:
  assumes inv: "mem_rinv crc g m rs" and r: "r \<in> set (durable_records crc (durable_bytes (wal_sink m)))"
    and n: "up_to \<le> rec_lsn r \<or> wal_is_active m (rec_txn r)"
  shows "decode crc (drop (unat (rec_lsn r)) (durable_bytes (wal_sink (wal_reclaim mem_sink_ops m up_to)))) = Inr (r, encoded_len r)"
proof -
  from rinv_recoverable [OF inv] obtain k where k: "recoverable crc (wal_sink m) (take k rs)" by blast
  have ok: "mem_sink_ok (wal_sink m)" using inv by (simp add: run_inv_def sink_inv_def)
  note l = recoverable_log [OF k]
  then have r: "r \<in> set (take k rs)" using r by simp
  define fl where "fl = (case oldest_active_first_lsn m of None \<Rightarrow> up_to | Some oldest \<Rightarrow> min up_to oldest)"
  let ?s' = "sk_reclaim mem_sink_ops (wal_sink m) HEADER_LEN (unat fl)"
  have "fl \<le> rec_lsn r"
  proof (cases "wal_is_active m (rec_txn r)")
    case True
    then obtain st where st: "fmlookup (wal_active m) (rec_txn r) = Some st"
      by (auto simp: wal_is_active_def fmlookup_dom_iff)
    have "first_lsn st \<le> rec_lsn r" using inv st r
      by (auto simp: run_inv_def log_inv_def active_ok_def txn_ok_def starts_at_def dest: in_set_takeD)
    moreover have "\<exists>oldest. oldest_active_first_lsn m = Some oldest \<and> oldest \<le> first_lsn st"
      unfolding oldest_active_first_lsn_def
      by (rule min_lsn_le) (use st fmdomI [OF st] in \<open>force simp: image_iff\<close>)
    ultimately show ?thesis by (auto simp: fl_def min_le_iff_disj)
  qed (use n in \<open>auto simp: fl_def min_le_iff_disj split: option.splits\<close>)
  moreover have "HEADER_LEN \<le> unat (rec_lsn r)" using log_ok_bounds r l(1) by (auto simp: holds_log_def)
  ultimately have above: "max HEADER_LEN (unat fl) \<le> unat (rec_lsn r)" by (simp add: word_le_nat_alt)
  have "drop (unat (rec_lsn r)) (durable_bytes ?s') = drop (unat (rec_lsn r)) (durable_bytes (wal_sink m))"
    using mem_sink.reclaim_law [OF ok, of HEADER_LEN "unat fl"] mem_sink.reclaim_above_law [OF ok] above
    by (intro nth_equalityI) auto
  then show ?thesis using holds_log_decode [OF l(1) r] by (simp add: wal_reclaim_def Let_def fl_def)
qed

end
