(* ===== verification/Wal_Rollback.thy ===== *)
theory Wal_Rollback
  imports Wal_Crash
begin

text \<open>
  Rollback of a live transaction and the log that recovery leaves. The undo chain the manager keeps
  in memory is what the log owes for the transaction, so a rollback has the effect that recovery
  would have; and after a recovery every transaction of the log is committed or ended.
\<close>

subsection \<open>Rollback\<close>

lemma undo_chain_effect:
  assumes "log_ok off rs" "links_ok off rs" "8 \<le> off"
  shows "undo_chain_ok rs t l es \<Longrightarrow> \<forall>e \<in> set es. ue_undo e \<noteq> [] \<Longrightarrow>
    fold (\<lambda>e c. if ue_page e = p then act (ue_undo e) c else c) es c = fold (undo_on act p) (with_undo (owed rs l)) c"
proof (induction es arbitrary: l c)
  case (Cons e es)
  then obtain q where q: "q \<in> set rs" "rec_lsn q = ue_lsn e" "rec_type q = RUpdate" "rec_page q = ue_page e"
    "undo q = ue_undo e" "prev_lsn q = ue_prev e" by (auto simp: entry_ok_def)
  have "owed rs (ue_lsn e) = q # owed rs (ue_prev e)"
    using owed_record [OF assms(1) q(1) assms(2,3)] q by (simp add: is_undoable_action_def undo_link_def)
  then have eq: "with_undo (owed rs l) = q # with_undo (owed rs (ue_prev e))" using Cons.prems q by simp
  have "undo_chain_ok rs t (ue_prev e) es" "ue_undo e \<noteq> []" "\<forall>e \<in> set es. ue_undo e \<noteq> []" using Cons.prems by auto
  then show ?case unfolding eq using Cons.IH [of "ue_prev e"] q(4,5) by (simp add: undo_on_def)
qed simp

lemma undo_list_single:
  assumes "log_ok off rs" "links_ok off rs" "8 \<le> off"
  shows "undo_list ((=) t) rs = pending rs t"
  using pending_props(2) [OF assms] pending_descending
  by (intro undo_list_eqI [OF assms]) auto

context page_store
begin

lemma rollback_loop_content:
  assumes "fmlookup (wal_active m) x = Some st" "\<forall>e \<in> set (undo_chain st). valid (ue_page e) (ue_undo e)" "ok t"
  shows "\<exists>m' t'. rollback_loop crc S T m x t = (Inr (), m', t') \<and> ok t' \<and>
    wal_active m' = fmupd x (st\<lparr>undo_chain := []\<rparr>) (wal_active m) \<and> (\<exists>xs. m'\<lparr>wal_active := wal_active m\<rparr> = append_all crc S xs m) \<and>
    (\<forall>p. content t' p =
      fold (\<lambda>e c. if ue_page e = p then act (ue_undo e) c else c) (rev (undo_chain st)) (content t p))"
  using assms
proof (induction "undo_chain st" arbitrary: m st t rule: rev_induct)
  case Nil
  have "fmupd x (st\<lparr>undo_chain := []\<rparr>) (wal_active m) = wal_active m"
    using Nil by (intro fmap_ext) auto
  then show ?case using Nil
    by (subst rollback_loop.simps) (auto simp: compensate_next_def intro: exI [of _ "[]"])
next
  case (snoc e es)
  define st1 where "st1 = st\<lparr>undo_chain := es\<rparr>"
  let ?r = "(log_record_new RClr x (ue_page e))\<lparr>prev_lsn := ue_lsn e, undo_next_lsn := ue_prev e, redo := ue_undo e\<rparr>"
  obtain l m0 where w: "wal_append crc S m ?r = (l, m0)" by force
  define m1 where "m1 = m0\<lparr>wal_active := fmupd x st1 (wal_active m)\<rparr>"
  have c: "compensate_next crc S m x = (Some (ue_page e, l, ue_undo e), m1)"
    using snoc.prems(1) snoc.hyps(2) w
    by (auto simp: compensate_next_def write_clr_def wal_append_def next_lsn_def Let_def m1_def st1_def
        simp flip: snoc.hyps(2))
  have "e \<in> set (undo_chain st)" using snoc.hyps(2) by (metis in_set_conv_decomp)
  then have "valid (ue_page e) (ue_undo e)" using snoc.prems(2) by blast
  from apply_law [OF snoc.prems(3) this, of l] obtain t1 where t1: "apply_image T t (ue_page e) l (ue_undo e) = (Inr (), t1)"
    "ok t1" "content t1 (ue_page e) = act (ue_undo e) (content t (ue_page e))" "\<forall>q. q \<noteq> ue_page e \<longrightarrow> content t1 q = content t q"
    by blast
  have "fmlookup (wal_active m1) x = Some st1" "es = undo_chain st1" "\<forall>e \<in> set (undo_chain st1). valid (ue_page e) (ue_undo e)"
    using snoc.prems(2) by (simp_all add: m1_def st1_def flip: snoc.hyps(2))
  from snoc.hyps(1) [OF this(2,1,3) t1(2)] obtain m' t' where r: "rollback_loop crc S T m1 x t1 = (Inr (), m', t')" "ok t'"
    "wal_active m' = fmupd x (st1\<lparr>undo_chain := []\<rparr>) (wal_active m1)" "\<exists>xs. m'\<lparr>wal_active := wal_active m1\<rparr> = append_all crc S xs m1"
    "\<forall>p. content t' p = fold (\<lambda>e c. if ue_page e = p then act (ue_undo e) c else c) (rev es) (content t1 p)"
    by (auto simp: st1_def)
  have "rollback_loop crc S T m x t = (Inr (), m', t')"
    using c t1(1) r(1) by (subst rollback_loop.simps) simp
  moreover have "wal_active m' = fmupd x (st\<lparr>undo_chain := []\<rparr>) (wal_active m)"
    using r(3) by (simp add: m1_def st1_def)
  moreover have "\<exists>xs. m'\<lparr>wal_active := wal_active m\<rparr> = append_all crc S xs m"
  proof -
    from r(4) obtain xs where "m'\<lparr>wal_active := wal_active m1\<rparr> = append_all crc S xs m1" by blast
    then have "m'\<lparr>wal_active := wal_active m\<rparr> = append_all crc S xs (m1\<lparr>wal_active := wal_active m\<rparr>)"
      using append_all_active [of crc S xs "wal_active m" m1] by (metis wal_manager.surjective wal_manager.update_convs(2))
    moreover have "m1\<lparr>wal_active := wal_active m\<rparr> = snd (wal_append crc S m ?r)"
      using w by (auto simp: m1_def wal_append_def Let_def)
    ultimately show ?thesis by (metis append_all_simps(2))
  qed
  ultimately show ?case using r(2,5) t1(3,4) by (auto simp flip: snoc.hyps(2))
qed

end

lemma rollback_atomic:
  assumes inv: "mem_rinv crc g m rs" "\<not> armed_sync_error (wal_sink m)" and x: "fmlookup (wal_active m) x = Some st"
    and ch: "\<forall>e \<in> set (undo_chain st). ue_undo e \<noteq> [] \<and> valid_patch (ue_page e) (ue_undo e)"
    and img: "undo_images_ok patch_act c0 rs" "isolated patch_act ((=) x) rs"
    and d: "mem_device_ok d" "\<forall>p. mem_view d p = page_history patch_act p rs (c0 p)"
  shows "\<exists>m' d'. wal_rollback crc mem_sink_ops (device_target crc mem_device_ops) m x d = (Inr (), m', d') \<and>
    \<not> wal_is_active m' x \<and>
    (\<forall>p. mem_view d' p = page_history patch_act p (filter (survives ((=) x)) rs) (c0 p))"
proof -
  have log: "log_ok HEADER_LEN rs" "links_ok HEADER_LEN rs" "disciplined rs" and "txn_ok g rs x st"
    using inv(1) x by (auto simp: run_inv_def log_inv_def active_ok_def)
  then have chain: "undo_chain_ok rs x (last_of rs x) (rev (undo_chain st))" by (simp add: txn_ok_def)
  have "\<forall>e \<in> set (undo_chain st). valid_patch (ue_page e) (ue_undo e)" using ch by blast
  from mem_store.store.rollback_loop_content [OF x this d(1), of crc mem_sink_ops]
  obtain m1 d1 xs where r: "rollback_loop crc mem_sink_ops (device_target crc mem_device_ops) m x d = (Inr (), m1, d1)"
    "wal_active m1 = fmupd x (st\<lparr>undo_chain := []\<rparr>) (wal_active m)" "m1\<lparr>wal_active := wal_active m\<rparr> = append_all crc mem_sink_ops xs m"
    "\<forall>p. mem_view d1 p = fold (\<lambda>e c. if ue_page e = p then patch_act (ue_undo e) c else c) (rev (undo_chain st)) (mem_view d p)"
    by blast
  have "mem_view d1 p = page_history patch_act p (filter (survives ((=) x)) rs) (c0 p)" for p
  proof -
    have "mem_view d1 p = fold (undo_on patch_act p) (pending rs x) (page_history patch_act p rs (c0 p))"
      unfolding pending_def undo_chain_effect [OF log(1,2) header_len_8(1) chain, of p patch_act, symmetric, simplified, OF ch [THEN ball_conj_distrib [THEN iffD1], THEN conjunct1]]
      using r(4) d(2) by simp
    then show ?thesis
      using undo_restores_survivors [OF log(1) header_len_8(1) log(2,3) img, of p]
      by (simp add: undo_list_single [OF log(1,2) header_len_8(1)])
  qed
  moreover have "\<exists>m2. finish_rollback crc mem_sink_ops m1 x = (Inr (), m2) \<and> \<not> wal_is_active m2 x"
  proof -
    have "wal_sink m1 = wal_sink (append_all crc mem_sink_ops xs m)" using r(3) by (metis wal_manager.simps(1) wal_manager.surjective wal_manager.update_convs(2))
    then have "\<not> armed_sync_error (wal_sink m1)" using inv(2) by (simp add: append_all_armed)
    moreover obtain l m2 where w: "wal_append crc mem_sink_ops (m1\<lparr>wal_active := fmdrop x (wal_active m1)\<rparr>) (log_record_new RAbort x 0) = (l, m2)"
      by force
    ultimately have m2: "\<not> armed_sync_error (wal_sink m2)" "wal_active m2 = fmdrop x (wal_active m1)"
      by (auto simp: wal_append_def mem_sink_ops_def mem_append_def Let_def)
    from mem_harden_unarmed [OF m2(1)] obtain m3 where "harden mem_sink_ops m2 = (Inr (), m3)" "wal_active m3 = wal_active m2" by blast
    then show ?thesis using w m2(2) r(2) by (simp add: finish_rollback_def wal_is_active_def)
  qed
  ultimately show ?thesis using r(1) by (auto simp: wal_rollback_def)
qed

subsection \<open>The log after a recovery\<close>

context recoverable_log
begin

lemma append_all_sinv:
  assumes "sinv crc (wal_sink m) rs"
  shows "\<exists>ps. sinv crc (wal_sink (append_all crc S xs m)) (rs @ ps) \<and>
    map (\<lambda>r. (rec_type r, rec_txn r)) ps = map (\<lambda>r. (rec_type r, rec_txn r)) xs \<and> log_len ps = log_len xs \<and>
    (log_ok HEADER_LEN rs \<longrightarrow> HEADER_LEN + log_len (rs @ ps) < 2 ^ 63 \<longrightarrow> (\<forall>x \<in> set xs. encoded_len x < 2 ^ 32) \<longrightarrow>
      log_ok HEADER_LEN (rs @ ps))"
  using assms
proof (induction xs arbitrary: m rs)
  case Nil
  then show ?case by (intro exI [of _ "[]"]) simp
next
  case (Cons x xs)
  obtain l m1 where w: "wal_append crc S m x = (l, m1)" by force
  from Cons.IH [OF append_sinv(2) [OF Cons.prems w]] obtain ps where
    ps: "sinv crc (wal_sink (append_all crc S xs m1)) ((rs @ [placed rs x]) @ ps)" "map (\<lambda>r. (rec_type r, rec_txn r)) ps = map (\<lambda>r. (rec_type r, rec_txn r)) xs" "log_len ps = log_len xs"
    "log_ok HEADER_LEN (rs @ [placed rs x]) \<Longrightarrow> HEADER_LEN + log_len ((rs @ [placed rs x]) @ ps) < 2 ^ 63 \<Longrightarrow>
      (\<forall>x \<in> set xs. encoded_len x < 2 ^ 32) \<Longrightarrow> log_ok HEADER_LEN ((rs @ [placed rs x]) @ ps)"
    by blast
  have "log_ok HEADER_LEN (rs @ placed rs x # ps)"
    if "log_ok HEADER_LEN rs" "HEADER_LEN + log_len (rs @ placed rs x # ps) < 2 ^ 63" "\<forall>x \<in> set (x # xs). encoded_len x < 2 ^ 32"
    using ps(4) that log_ok_placed [of rs x] by (simp add: fits_def)
  then show ?case using ps(1-3) w by (intro exI [of _ "placed rs x # ps"]) simp
qed

end

lemma recovery_appends_len:
  assumes "log_ok off rs" "x \<in> set (recovery_appends order rs)"
  shows "encoded_len x < 2 ^ 32"
proof -
  have "encoded_len (clr_of r) < 2 ^ 32" if "r \<in> set rs" for r
  proof -
    have "encoded_len r < 2 ^ 32" using assms(1) that by (induction rs arbitrary: off) auto
    then show ?thesis by (simp add: encoded_len_def clr_of_def log_record_new_def)
  qed
  then show ?thesis using assms(2)
    by (auto simp: recovery_appends_def Let_def owed_by_def end_of_def log_record_new_def encoded_len_def offsets
        dest!: owed_set split: option.splits)
qed

lemma recovered_log:
  assumes ok: "mem_sink_ok s" "mem_unsynced s = []" "recoverable crc s rs" and or: "iterates order"
    and m': "harden mem_sink_ops (append_all crc mem_sink_ops (recovery_appends order rs) \<lparr>wal_sink = s, wal_active = act\<rparr>) = (Inr (), m')"
    and len: "length (durable_bytes s) + log_len (recovery_appends order rs) < 2 ^ 63"
  shows "prefix rs (durable_records crc (durable_bytes (wal_sink m')))"
    "loser_set (fold analyse (durable_records crc (durable_bytes (wal_sink m'))) analysis_new) = {||}"
proof -
  let ?m = "\<lparr>wal_sink = s, wal_active = act\<rparr>" and ?xs = "recovery_appends order rs"
  define ls where "ls = order (loser_set (fold analyse rs analysis_new))"
  have lok: "log_ok HEADER_LEN rs" using ok(3) by (simp add: recoverable_def)
  have "sink_inv mem_sink_ok durable_bytes mem_unsynced crc (wal_sink ?m) rs"
    using ok by (auto simp: sink_inv_def recoverable_def intro!: exI [of _ "length rs"])
  from mem_log.append_all_sinv [OF this, of ?xs] obtain ps where
    ps: "sink_inv mem_sink_ok durable_bytes mem_unsynced crc (wal_sink (append_all crc mem_sink_ops ?xs ?m)) (rs @ ps)"
    "map (\<lambda>r. (rec_type r, rec_txn r)) ps = map (\<lambda>r. (rec_type r, rec_txn r)) ?xs" "log_len ps = log_len ?xs"
    "HEADER_LEN + log_len (rs @ ps) < 2 ^ 63 \<Longrightarrow> (\<forall>x \<in> set ?xs. encoded_len x < 2 ^ 32) \<Longrightarrow> log_ok HEADER_LEN (rs @ ps)"
    using lok by blast
  have im: "durable_bytes (wal_sink m') = wal_header @ log_image crc (rs @ ps)"
    using mem_log.harden_sinv(4) [OF ps(1) m'] by simp
  have "length (durable_bytes s) = HEADER_LEN + log_len rs" using ok(3) by (simp add: recoverable_def)
  then have "log_ok HEADER_LEN (rs @ ps)" using ps(3,4) len recovery_appends_len [OF lok] by simp
  then have dr: "durable_records crc (durable_bytes (wal_sink m')) = rs @ ps"
    unfolding im by (intro durable_records_eq [where rest = "[]"]) (simp_all add: holds_log_def clean_end_def)
  then show "prefix rs (durable_records crc (durable_bytes (wal_sink m')))" by simp
  have pz: "(\<lambda>r. (rec_type r, rec_txn r)) ` set ps = (\<lambda>r. (rec_type r, rec_txn r)) ` set ?xs"
    using arg_cong [OF ps(2), of set] by simp
  have ls: "set ls = {t. t |\<in>| loser_set (fold analyse rs analysis_new)}" using or by (auto simp: ls_def iterates_def)
  have old: "\<exists>q \<in> set rs. rec_txn q = rec_txn r" if "r \<in> set ps" for r
  proof -
    from that pz obtain x where "x \<in> set ?xs" "rec_txn x = rec_txn r" by (metis (mono_tags, lifting) image_iff prod.inject)
    then show ?thesis using ls
      by (auto simp: recovery_appends_def Let_def ls_def owed_by_def clr_of_def end_of_def log_record_new_def loser_set_iff
          dest!: owed_set split: option.splits)
  qed
  have "t |\<notin>| loser_set (fold analyse (rs @ ps) analysis_new)" for t
  proof
    assume t: "t |\<in>| loser_set (fold analyse (rs @ ps) analysis_new)"
    then have "t \<in> set ls" using old unfolding ls mem_Collect_eq loser_set_iff uncommitted_def by fastforce
    then have "(RAbort, t) \<in> (\<lambda>r. (rec_type r, rec_txn r)) ` set ?xs"
      by (force simp: recovery_appends_def Let_def ls_def end_of_def log_record_new_def)
    then obtain r where "r \<in> set ps" "rec_type r = RAbort" "rec_txn r = t" unfolding pz [symmetric] by force
    then show False using t unfolding loser_set_iff by fastforce
  qed
  then show "loser_set (fold analyse (durable_records crc (durable_bytes (wal_sink m'))) analysis_new) = {||}"
    unfolding dr by auto
qed

end
