(* ===== verification/Wal_Demo.thy ===== *)
theory Wal_Demo
  imports Wal_Rollback "HOL-Library.Code_Target_Nat"
begin

text \<open>
  A small run of the log manager, evaluated: the input of the witnesses of the log and recovery
  properties. Natural numbers are evaluated as integers.
\<close>

definition demo_crc :: "bytes \<Rightarrow> u32" where
  "demo_crc bs = of_nat (length bs)"

text \<open>
  Transaction 1 writes page 0 and commits at timestamp 9; transaction 2 writes page 1, and a crash
  cuts it and the begin of transaction 3 off.
\<close>

definition demo_ops :: "wal_op list" where
  "demo_ops = [OpBegin 1, OpUpdate 1 0 [100, 0, 5] [100, 0, 0], OpBegin 2, OpUpdate 2 1 [100, 0, 7] [100, 0, 0]]"

definition demo_run :: "wal_op list" where
  "demo_run = demo_ops @ OpCommitAt 1 9 # [OpBegin 3]"

definition demo_start :: "mem_log_sink wal_manager" where
  "demo_start = (case wal_create mem_sink_ops mem_sink_new of Inr m \<Rightarrow> m)"

definition demo_live :: "mem_log_sink wal_manager" where
  "demo_live = run_ops demo_crc mem_sink_ops demo_start demo_ops"

definition demo_sink :: mem_log_sink where
  "demo_sink = sink_crash (wal_sink (run_ops demo_crc mem_sink_ops demo_start demo_run))"

definition demo_log :: "log_record list" where
  "demo_log =
     [(log_record_new RBegin 1 0)\<lparr>rec_lsn := 8\<rparr>,
      (log_record_new RUpdate 1 0)\<lparr>rec_lsn := 65, prev_lsn := 8, redo := [100, 0, 5], undo := [100, 0, 0]\<rparr>,
      (log_record_new RBegin 2 0)\<lparr>rec_lsn := 128\<rparr>,
      (log_record_new RUpdate 2 1)\<lparr>rec_lsn := 185, prev_lsn := 128, redo := [100, 0, 7], undo := [100, 0, 0]\<rparr>,
      (log_record_new RCommit 1 0)\<lparr>rec_lsn := 248, prev_lsn := 65, redo := [9, 0, 0, 0, 0, 0, 0, 0]\<rparr>]"

lemma demo_create: "wal_create mem_sink_ops mem_sink_new = Inr demo_start"
  by code_simp

lemma demo_run_ok: "run_ok demo_crc mem_sink_ops ghost_new demo_start demo_run"
  by code_simp

lemma demo_wal_run: "wal_run demo_crc demo_start demo_run"
  using demo_create demo_run_ok by (simp add: wal_run_def)

lemma demo_live_run: "wal_run demo_crc demo_start demo_ops"
  using demo_wal_run by (simp add: wal_run_def demo_run_def run_ok_append)

lemma demo_ack: "fst (commit_at demo_crc mem_sink_ops demo_live 1 9) = Inr 248"
  by code_simp

lemma demo_bytes: "durable_bytes demo_sink = wal_header @ log_image demo_crc demo_log" "log_ok HEADER_LEN demo_log"
  by code_simp+

lemma demo_records: "durable_records demo_crc (durable_bytes demo_sink) = demo_log"
  unfolding demo_bytes(1) using demo_bytes(2)
  by (intro durable_records_eq [where rest = "[]"]) (simp_all add: holds_log_def clean_end_def)

lemma demo_unarmed: "\<not> armed_sync_error demo_sink"
  by code_simp

lemmas demo_log_simps = demo_log_def log_record_new_def

lemma demo_uncommitted: "uncommitted demo_log t \<longleftrightarrow> t \<noteq> 1"
  by (auto simp: uncommitted_def demo_log_simps)

lemma demo_survivors:
  "filter (survives (uncommitted demo_log)) demo_log =
     [(log_record_new RBegin 1 0)\<lparr>rec_lsn := 8\<rparr>,
      (log_record_new RUpdate 1 0)\<lparr>rec_lsn := 65, prev_lsn := 8, redo := [100, 0, 5], undo := [100, 0, 0]\<rparr>,
      (log_record_new RCommit 1 0)\<lparr>rec_lsn := 248, prev_lsn := 65, redo := [9, 0, 0, 0, 0, 0, 0, 0]\<rparr>]"
proof -
  have "survives (uncommitted demo_log) = (\<lambda>r. rec_txn r = 1 \<or> is_undoable_action (rec_type r) \<and> undo r = [])"
    by (simp add: fun_eq_iff survives_def demo_uncommitted)
  then show ?thesis by (simp add: demo_log_simps is_undoable_action_def)
qed

lemma demo_valid: "valid_images valid_patch demo_log"
  by (simp add: valid_images_def demo_log_simps valid_patch_def patch_lead_def is_page_change_def
      is_undoable_action_def bslice_def CAS_SENTINEL_def PAGE_SIZE_def)

lemma demo_undo_images: "undo_images_ok patch_act (\<lambda>_ _. 0) demo_log"
  by (auto simp: undo_images_ok_def demo_log_simps less_Suc_eq page_history_def redo_on_def undo_on_def patch_act_def
      patch_lead_def is_page_change_def is_undoable_action_def bslice_def CAS_SENTINEL_def overwrite_def fun_eq_iff Let_def)

lemma demo_isolated: "isolated patch_act (uncommitted demo_log) demo_log"
  unfolding isolated_def demo_uncommitted
  by (auto simp: demo_log_simps independent_def redo_on_def undo_on_def is_page_change_def is_undoable_action_def)

lemma demo_flushed:
  "flushed_state (device_target demo_crc mem_device_ops) mem_view patch_act (\<lambda>_ _. 0)
     (redo_start_of (fold analyse demo_log analysis_new)) demo_log (mem_device_new 0)"
  by (simp add: flushed_state_def device_target_def target_page_lsn_def mem_device_ops_def mem_page_count_def
      mem_device_new_def device_view_def demo_log_simps page_history_def analyse_def analysis_new_def redo_start_of_def
      HEADER_LEN_def is_page_change_def)

lemma demo_device: "mem_device_ok (mem_device_new 0)"
  by (simp add: mem_device_ok_def mem_device_new_def)

lemma demo_appends_fit: "length (durable_bytes demo_sink) + log_len (recovery_appends sorted_list_of_fset demo_log) < 2 ^ 63"
proof -
  have "log_len (recovery_appends sorted_list_of_fset demo_log) = 117" by code_simp
  moreover have "length (durable_bytes demo_sink) = 313"
    by (simp add: demo_bytes(1) demo_log_simps length_encode encoded_len_def offsets HEADER_LEN_def)
  ultimately show ?thesis by simp
qed

lemma demo_order: "iterates sorted_list_of_fset"
  by (simp add: iterates_def)

text \<open>The live state before the commit.\<close>

lemma demo_live_bytes:
  "durable_bytes (wal_sink demo_live) @ mem_unsynced (wal_sink demo_live) = wal_header @ log_image demo_crc (take 4 demo_log)"
  by code_simp

lemma demo_live_records: "appended_records demo_crc (wal_sink demo_live) = take 4 demo_log"
proof -
  have "log_ok HEADER_LEN (take 4 demo_log @ drop 4 demo_log)" using demo_bytes(2) by simp
  then have "log_ok HEADER_LEN (take 4 demo_log)" unfolding log_ok_append ..
  then show ?thesis unfolding appended_records_def demo_live_bytes
    by (intro durable_records_eq [where rest = "[]"]) (simp_all add: holds_log_def clean_end_def)
qed

lemma demo_live_chain:
  "map_option undo_chain (fmlookup (wal_active demo_live) 2) =
     Some [\<lparr>ue_lsn = 185, ue_page = 1, ue_undo = [100, 0, 0], ue_prev = 128\<rparr>]"
  by code_simp

lemma demo_live_unarmed: "\<not> armed_sync_error (wal_sink demo_live)"
  by code_simp

lemma demo_active: "wal_is_active (run_ops demo_crc mem_sink_ops demo_start demo_run) 2"
  by code_simp

lemma demo_patches: "valid_patch 0 [100, 0, 5]" "valid_patch 1 [100, 0, 7]" "valid_patch 1 [100, 0, 0]"
  by (simp_all add: valid_patch_def patch_lead_def bslice_def CAS_SENTINEL_def PAGE_SIZE_def)

text \<open>A device that holds the pages as the live run has them.\<close>

lemma demo_live_device:
  "\<exists>d. mem_device_ok d \<and> (\<forall>p. mem_view d p = page_history patch_act p (take 4 demo_log) (\<lambda>_. 0))"
proof -
  from mem_store.target_apply_law [OF demo_device demo_patches(1), of demo_crc 65] obtain d1 where d1: "mem_device_ok d1"
    "mem_view d1 0 = patch_act [100, 0, 5] (mem_view (mem_device_new 0) 0)" "\<forall>q. q \<noteq> 0 \<longrightarrow> mem_view d1 q = mem_view (mem_device_new 0) q" by blast
  from mem_store.target_apply_law [OF d1(1) demo_patches(2), of demo_crc 185] obtain d where d: "mem_device_ok d"
    "mem_view d 1 = patch_act [100, 0, 7] (mem_view d1 1)" "\<forall>q. q \<noteq> 1 \<longrightarrow> mem_view d q = mem_view d1 q" by blast
  have z: "mem_view (mem_device_new 0) q = (\<lambda>_. 0)" for q
    by (simp add: device_view_def mem_device_ops_def mem_page_count_def mem_device_new_def)
  have "mem_view d p = page_history patch_act p (take 4 demo_log) (\<lambda>_. 0)" for p
    using d1(2,3) d(2,3) by (cases "p = 0"; cases "p = 1")
      (simp_all add: z page_history_def demo_log_simps redo_on_def is_page_change_def)
  then show ?thesis using d(1) by blast
qed

end
