(* ===== verification/Wal_Properties.thy ===== *)
theory Wal_Properties
  imports Wal_Demo
begin

text \<open>
  The properties of the write-ahead log and of crash recovery: what a run of the log manager leaves
  after a crash, that acknowledged commits survive, that recovery onto the page device makes
  exactly the committed transactions permanent, and the contracts of the parts: the record and
  checkpoint formats, the windowed scans, the write-ahead rule, reclamation and rollback.

  A run creates the manager over an empty in-memory sink and then makes any sequence of calls that
  keeps the manager's protocol (\<open>wal_run\<close>).
\<close>

subsection \<open>Crash and recovery\<close>





text \<open>
  C19: After a crash at any point of a run, the durable log opens, holds a whole number of records at
  the offsets their LSNs name, every back-link names an older record of the same transaction, and
  every transaction's back-chain names exactly the actions not yet compensated.
\<close>

theorem run_leaves_recoverable_log:
  assumes "wal_run crc m0 ops" "s = sink_crash (wal_sink (run_ops crc mem_sink_ops m0 ops))"
    and "rs = durable_records crc (durable_bytes s)"
  shows "wal_open mem_sink_ops s = Inr \<lparr>wal_sink = s, wal_active = fmempty\<rparr> \<and>
    durable_bytes s = wal_header @ log_image crc rs \<and> log_ok HEADER_LEN rs \<and> links_ok HEADER_LEN rs \<and> disciplined rs"
  using wal_run_crash [OF assms(1,2)] assms(3) by (simp add: recoverable_def)

theorem run_leaves_recoverable_log_witness: "log_ok HEADER_LEN demo_log \<and> links_ok HEADER_LEN demo_log \<and> disciplined demo_log"
  using run_leaves_recoverable_log [OF demo_wal_run demo_sink_def demo_records [symmetric]] by blast









subsection \<open>The live manager\<close>

text \<open>
  C22: The write-ahead rule. When \<^verbatim>\<open>ensure_durable(up_to)\<close> has returned in a run, every record appended so
  far with an LSN up to \<open>up_to\<close> is among the durable records, hence survives a crash; this is what
  the buffer pool calls before it writes a page.
\<close>

theorem ensure_durable_keeps_wal_rule:
  assumes "wal_run crc m0 ops" "m = run_ops crc mem_sink_ops m0 ops" "ensure_durable mem_sink_ops m up_to = (Inr (), m')"
  shows "\<forall>r \<in> set (appended_records crc (wal_sink m)). rec_lsn r \<le> up_to \<longrightarrow>
    r \<in> set (durable_records crc (durable_bytes (wal_sink m')))"
proof -
  from wal_run_inv [OF assms(1)] obtain g rs where "mem_rinv crc g m rs" using assms(2) by blast
  then show ?thesis using ensure_durable_rinv [OF _ assms(3)] appended_records_rinv by fastforce
qed

theorem ensure_durable_keeps_wal_rule_witness:
  "demo_log ! 3 \<in> set (durable_records demo_crc (durable_bytes (wal_sink (snd (ensure_durable mem_sink_ops demo_live 185)))))"
proof -
  have "fst (ensure_durable mem_sink_ops demo_live 185) = Inr ()" by code_simp
  then have "ensure_durable mem_sink_ops demo_live 185 = (Inr (), snd (ensure_durable mem_sink_ops demo_live 185))"
    by (metis prod.collapse)
  from ensure_durable_keeps_wal_rule [OF demo_live_run demo_live_def this] show ?thesis
    unfolding demo_live_records by (simp add: demo_log_simps)
qed

text \<open>
  C23: Reclamation is safe. After \<^verbatim>\<open>reclaim(up_to)\<close> in a run, every durable record from \<open>up_to\<close> on, and every
  record of a transaction that is still active however old it is, can still be decoded at its LSN.
\<close>

theorem reclaim_keeps_needed_records:
  assumes "wal_run crc m0 ops" "m = run_ops crc mem_sink_ops m0 ops" "r \<in> set (durable_records crc (durable_bytes (wal_sink m)))"
    and "up_to \<le> rec_lsn r \<or> wal_is_active m (rec_txn r)"
  shows "decode crc (drop (unat (rec_lsn r)) (durable_bytes (wal_sink (wal_reclaim mem_sink_ops m up_to)))) = Inr (r, encoded_len r)"
proof -
  from wal_run_inv [OF assms(1)] obtain g rs where "mem_rinv crc g m rs" using assms(2) by blast
  then show ?thesis by (rule reclaim_keeps_records [OF _ assms(3,4)])
qed

theorem reclaim_keeps_needed_records_witness:
  "decode demo_crc (drop 185 (durable_bytes (wal_sink (wal_reclaim mem_sink_ops
     (run_ops demo_crc mem_sink_ops demo_start demo_run) 248)))) = Inr (demo_log ! 3, 63)"
proof -
  let ?m = "run_ops demo_crc mem_sink_ops demo_start demo_run"
  have "durable_records demo_crc (durable_bytes (wal_sink ?m)) = demo_log"
    using demo_records by (simp add: demo_sink_def crash_views)
  then have r: "demo_log ! 3 \<in> set (durable_records demo_crc (durable_bytes (wal_sink ?m)))" by (simp add: demo_log_def)
  have "rec_txn (demo_log ! 3) = 2" "rec_lsn (demo_log ! 3) = 185" "encoded_len (demo_log ! 3) = 63"
    by (simp_all add: demo_log_simps encoded_len_def offsets)
  then show ?thesis using reclaim_keeps_needed_records [OF demo_wal_run refl r, of 248] demo_active by simp
qed



subsection \<open>Formats and scans\<close>

text \<open>
  C26: The record format is exact. A record of fewer than \<open>2 ^ 32\<close> bytes decodes from its encoding, whatever
  follows it, with the LSN it was written at; and whatever decodes is the encoding of the record it
  decodes to, so no two byte strings of a log stand for the same record. This holds for any checksum
  function.
\<close>

theorem record_codec_roundtrip:
  "(encoded_len r < 2 ^ 32 \<longrightarrow> decode crc (encode crc r l @ rest) = Inr (r\<lparr>rec_lsn := l\<rparr>, encoded_len r)) \<and>
   (decode crc bs = Inr (q, n) \<longrightarrow> encode crc q (rec_lsn q) = take n bs \<and> encoded_len q = n)"
  using decode_encode encode_decode by blast

theorem record_codec_roundtrip_witness:
  "decode demo_crc (encode demo_crc (demo_log ! 1) 300 @ [1, 2, 3]) = Inr ((demo_log ! 1)\<lparr>rec_lsn := 300\<rparr>, 63)"
proof -
  have "encoded_len (demo_log ! 1) = 63" by (simp add: demo_log_simps encoded_len_def offsets)
  then show ?thesis using record_codec_roundtrip [of "demo_log ! 1" demo_crc 300 "[1, 2, 3]"] by simp
qed

text \<open>
  C27: A torn append is recognised. Every proper prefix of an encoded record decodes to the error
  \<^verbatim>\<open>Incomplete\<close>, never to a record and never to a checksum failure.
\<close>

theorem torn_record_is_incomplete:
  assumes "encoded_len r < 2 ^ 32" "k < encoded_len r"
  shows "decode crc (take k (encode crc r l)) = Inl Incomplete"
  using assms by (rule decode_torn)

theorem torn_record_is_incomplete_witness: "decode demo_crc (take 62 (encode demo_crc (demo_log ! 1) 300)) = Inl Incomplete"
  by (rule torn_record_is_incomplete) (simp_all add: demo_log_simps encoded_len_def offsets)

text \<open>
  C28: The checkpoint payload. A checkpoint decodes from its encoding whatever follows, and a payload
  that decodes is at least as long as its entries, so the declared counts never make the decoder
  return, or allocate for, more entries than the payload has bytes for.
\<close>

theorem checkpoint_codec_roundtrip:
  "(length (dirty_pages c) < 2 ^ 32 \<and> length (active_txns c) < 2 ^ 32 \<longrightarrow>
      checkpoint_decode (checkpoint_encode c @ rest) = Some c) \<and>
   (checkpoint_decode b = Some c' \<longrightarrow> 8 + 16 * (length (dirty_pages c') + length (active_txns c')) \<le> length b)"
  using checkpoint_decode_encode checkpoint_decode_bound by blast

theorem checkpoint_codec_roundtrip_witness:
  "checkpoint_decode (checkpoint_encode \<lparr>dirty_pages = [(3, 65)], active_txns = [(2, 185)]\<rparr> @ [0]) =
     Some \<lparr>dirty_pages = [(3, 65)], active_txns = [(2, 185)]\<rparr>"
  using checkpoint_codec_roundtrip [of "\<lparr>dirty_pages = [(3, 65)], active_txns = [(2, 185)]\<rparr>" "[0]"] by simp



end
