(* ===== verification/Page_Properties.thy ===== *)
theory Page_Properties
  imports Device_Target
begin

text \<open>
  The properties of record addressing and of page patches: records lie inside their page behind the
  header and do not overlap, a patch that encodes has the effect it names, and patches of disjoint
  regions commute, which is what recovery needs of the images of different transactions.
\<close>

lemma records_per_page_bounds:
  assumes "records_per_page n = Some rpp"
  shows "0 < n" "0 < rpp" "rpp < 2 ^ 64" "rpp * n \<le> PAGE_PAYLOAD" "rpp = PAGE_PAYLOAD div n"
proof -
  have n: "0 < n" "n \<le> PAGE_PAYLOAD" "rpp = PAGE_PAYLOAD div n"
    using assms by (auto simp: records_per_page_def split: if_splits)
  then show "0 < n" "0 < rpp" "rpp * n \<le> PAGE_PAYLOAD" "rpp = PAGE_PAYLOAD div n"
    by (simp_all add: div_greater_zero_iff)
  have "rpp \<le> PAGE_PAYLOAD" using n(3) by simp
  then show "rpp < 2 ^ 64" by (simp add: PAGE_PAYLOAD_def page_offsets)
qed

lemma record_location_nat:
  assumes "record_location i n = Some (p, off)" "records_per_page n = Some rpp"
  shows "unat p = unat i div rpp" "off = HEADER_SIZE + unat i mod rpp * n"
proof -
  have "unat (of_nat rpp :: u64) = rpp" using records_per_page_bounds(3) [OF assms(2)]
    by (simp add: unat_of_nat take_bit_nat_eq_self)
  then show "unat p = unat i div rpp" "off = HEADER_SIZE + unat i mod rpp * n"
    using assms by (auto simp: record_location_def unat_div_distrib unat_mod_distrib)
qed

text \<open>
  C30: Record addressing. A record of size \<open>n\<close> lies behind the page header and inside the page, and
  the byte ranges of two records of that size with different ids are disjoint or in different pages.
\<close>

theorem records_lie_in_page_and_are_disjoint:
  assumes "record_location i n = Some (p, off)" "record_location j n = Some (q, off')"
  shows "HEADER_SIZE \<le> off \<and> off + n \<le> PAGE_SIZE \<and>
    (i \<noteq> j \<longrightarrow> p \<noteq> q \<or> off + n \<le> off' \<or> off' + n \<le> off)"
proof -
  obtain rpp where r: "records_per_page n = Some rpp"
    using assms(1) by (cases "records_per_page n") (auto simp: record_location_def)
  note b = records_per_page_bounds [OF r]
  note li = record_location_nat [OF assms(1) r] and lj = record_location_nat [OF assms(2) r]
  have slot: "x mod rpp * n + n \<le> rpp * n" for x
  proof -
    have "(x mod rpp + 1) * n \<le> rpp * n" using b(2) by (intro mult_right_mono) (simp_all add: Suc_leI)
    then show ?thesis by simp
  qed
  have "off + n \<le> PAGE_SIZE" using slot [of "unat i"] b(4) li(2) by (simp add: PAGE_PAYLOAD_def page_offsets)
  moreover have "off + n \<le> off' \<or> off' + n \<le> off" if "i \<noteq> j" "p = q"
  proof -
    let ?a = "unat i mod rpp" and ?b = "unat j mod rpp"
    have "unat i div rpp = unat j div rpp" using that(2) li(1) lj(1) by simp
    moreover have "unat i \<noteq> unat j" using that(1) by (simp add: word_unat_eq_iff)
    ultimately have "?a \<noteq> ?b" by (metis div_mult_mod_eq)
    then consider "?a + 1 \<le> ?b" | "?b + 1 \<le> ?a" by linarith
    then have "(?a + 1) * n \<le> ?b * n \<or> (?b + 1) * n \<le> ?a * n" by (metis mult_le_mono1)
    then show ?thesis using li(2) lj(2) by auto
  qed
  ultimately show ?thesis using li(2) by auto
qed

theorem records_lie_in_page_and_are_disjoint_witness:
  "record_location 200 64 = Some (1, 4696) \<and> record_location 201 64 = Some (1, 4760) \<and> HEADER_SIZE \<le> 4696"
proof -
  have l: "record_location 200 64 = Some (1, 4696)" "record_location 201 64 = Some (1, 4760)"
    by (simp_all add: record_location_def records_per_page_def PAGE_PAYLOAD_def page_offsets)
  show ?thesis using records_lie_in_page_and_are_disjoint [OF l] l by simp
qed

text \<open>
  C31: Patches. A byte patch that encodes overwrites exactly its bytes of a page, and a
  compare-and-set patch replaces the eight bytes at its offset if and only if they hold the
  expected value; a patch never changes the length of a page.
\<close>

theorem encoded_patches_apply:
  assumes "length pg = PAGE_SIZE"
  shows "(encode_patch off bs = Some patch \<longrightarrow> apply_patch pg patch = Inr (copy_at off bs pg) \<and>
      length (copy_at off bs pg) = PAGE_SIZE \<and> bslice off (length bs) (copy_at off bs pg) = bs) \<and>
    (encode_cas_patch off expect new = Some cas \<longrightarrow>
      apply_patch pg cas = Inr (if read_u64 pg off = expect then copy_at off (le64 new) pg else pg) \<and>
      read_u64 (copy_at off (le64 new) pg) off = new)"
proof -
  have "length (copy_at off bs pg) = PAGE_SIZE \<and> bslice off (length bs) (copy_at off bs pg) = bs"
    if "encode_patch off bs = Some patch"
    using that assms by (auto simp: encode_patch_def length_copy_at slice_copy_at split: if_splits)
  moreover have "read_u64 (copy_at off (le64 new) pg) off = new" if "encode_cas_patch off expect new = Some cas"
    using that assms slice_copy_at [of off "le64 new" pg]
    by (auto simp: encode_cas_patch_def read_u64_def split: if_splits)
  ultimately show ?thesis using apply_encode_patch apply_encode_cas_patch assms by blast
qed

theorem encoded_patches_apply_witness:
  "apply_patch (replicate PAGE_SIZE 0) [24, 0, 7] = Inr (copy_at 24 [7] (replicate PAGE_SIZE 0))"
proof -
  have "encode_patch 24 [7] = Some [24, 0, 7]"
    by code_simp
  then show ?thesis using encoded_patches_apply [of "replicate PAGE_SIZE 0" 24 "[7]" "[24, 0, 7]"] by simp
qed

end
