(* ===== verification/Bit_Pack.thy ===== *)
theory Bit_Pack
  imports Bytes
begin

text \<open>
  Fixed-width bit packing, \<^verbatim>\<open>crates/graphus-columnar/src/bitpack.rs\<close>, with the error type and the
  boolean column codec of \<^verbatim>\<open>crates/graphus-columnar/src/lib.rs\<close>. Bit positions, widths and counts are
  natural numbers; the only wrap-around the source guards against, the bit count of a forged header,
  is written out in \<open>unpack\<close>. The texts of the errors are the constructors' string arguments.
\<close>

unbundle bit_operations_syntax

datatype column_error =
    Truncated string
  | BadScheme u8
  | BadCode u64 nat
  | Corrupt string

definition leading_zeros :: "u64 \<Rightarrow> nat" where
  "leading_zeros x = length (takeWhile (\<lambda>i. \<not> bit x i) (rev [0..<64]))"

definition trailing_zeros :: "u64 \<Rightarrow> nat" where
  "trailing_zeros x = length (takeWhile (\<lambda>i. \<not> bit x i) [0..<64])"

definition bits_required :: "u64 \<Rightarrow> nat" where
  "bits_required mx = (if mx = 0 then 0 else 64 - leading_zeros mx)"

function pack_value :: "nat \<Rightarrow> u64 \<Rightarrow> bytes \<times> nat \<Rightarrow> bytes \<times> nat" where
  "pack_value remaining v (out, bit_pos) =
     (if remaining = 0 then (out, bit_pos)
      else let byte_idx = bit_pos div 8; bit_off = bit_pos mod 8; free = 8 - bit_off;
               tk = min remaining free;
               chunk = (ucast (v AND mask tk) :: u8)
           in pack_value (remaining - tk) (drop_bit tk v)
                (out[byte_idx := out ! byte_idx OR push_bit bit_off chunk], bit_pos + tk))"
  by pat_completeness auto
termination
  by (relation "measure fst") auto

definition pack :: "u64 list \<Rightarrow> nat \<Rightarrow> bytes" where
  "pack vs width =
     (if width = 0 then []
      else fst (fold (pack_value width) vs (replicate ((length vs * width + 7) div 8) 0, 0)))"

definition MAX_UNPACK_COUNT :: nat where
  "MAX_UNPACK_COUNT = 2 ^ 32 - 1"

function unpack_value :: "bytes \<Rightarrow> nat \<Rightarrow> nat \<Rightarrow> u64 \<Rightarrow> nat \<Rightarrow> u64 \<times> nat" where
  "unpack_value bs width filled v bit_pos =
     (if \<not> filled < width then (v, bit_pos)
      else let byte_idx = bit_pos div 8; bit_off = bit_pos mod 8; free = 8 - bit_off;
               tk = min (width - filled) free;
               chunk = drop_bit bit_off (bs ! byte_idx) AND mask tk
           in unpack_value bs width (filled + tk) (v OR push_bit filled (ucast chunk)) (bit_pos + tk))"
  by pat_completeness auto
termination
  by (relation "measure (\<lambda>(bs, width, filled, v, bit_pos). width - filled)") auto

fun unpack_values :: "bytes \<Rightarrow> nat \<Rightarrow> nat \<Rightarrow> nat \<Rightarrow> u64 list" where
  "unpack_values bs width 0 bit_pos = []"
| "unpack_values bs width (Suc n) bit_pos =
     (let (v, bit_pos1) = unpack_value bs width 0 0 bit_pos in v # unpack_values bs width n bit_pos1)"

definition unpack :: "bytes \<Rightarrow> nat \<Rightarrow> nat \<Rightarrow> column_error + u64 list" where
  "unpack bs count width =
     (if 64 < width then Inl (Corrupt ''bit-pack width exceeds 64'')
      else if width = 0 then
        (if MAX_UNPACK_COUNT < count then Inl (Truncated ''bit-packed values'') else Inr (replicate count 0))
      else let total_bits = min (count * width) (2 ^ 64 - 1); needed_bytes = (total_bits + 7) div 8
      in if length bs < needed_bytes then Inl (Truncated ''bit-packed values'')
      else Inr (unpack_values bs width count 0))"

definition encode_bool :: "bool list \<Rightarrow> bytes" where
  "encode_bool vs = pack (map of_bool vs) 1"

definition decode_bool :: "bytes \<Rightarrow> nat \<Rightarrow> column_error + bool list" where
  "decode_bool bs count =
     (case unpack bs count 1 of Inl e \<Rightarrow> Inl e | Inr vs \<Rightarrow> Inr (map (\<lambda>b. b \<noteq> 0) vs))"

declare pack_value.simps [simp del] unpack_value.simps [simp del]

subsection \<open>Bit streams\<close>

definition bit_at :: "bytes \<Rightarrow> nat \<Rightarrow> bool" where
  "bit_at bs i \<longleftrightarrow> bit (bs ! (i div 8)) (i mod 8)"

lemma or_chunk_bits:
  assumes "pos div 8 < length out" "pos mod 8 + tk \<le> 8" "i < 8 * length out"
  shows "bit_at (out[pos div 8 := out ! (pos div 8) OR push_bit (pos mod 8) (ucast (v AND mask tk :: u64))]) i \<longleftrightarrow>
    bit_at out i \<or> pos \<le> i \<and> i < pos + tk \<and> bit v (i - pos)"
proof -
  define q where "q = pos div 8"
  define k where "k = pos mod 8"
  define q' where "q' = i div 8"
  define k' where "k' = i mod 8"
  have e: "pos = 8 * q + k" "i = 8 * q' + k'" "k < 8" "k' < 8"
    by (simp_all add: q_def k_def q'_def k'_def)
  show ?thesis
  proof (cases "q' = q")
    case True
    have "bit (out ! q OR push_bit k (ucast (v AND mask tk))) k' \<longleftrightarrow> bit (out ! q) k' \<or> k \<le> k' \<and> k' < k + tk \<and> bit v (k' - k)"
      using e(3,4) by (auto simp: bit_or_iff bit_push_bit_iff bit_ucast_iff bit_and_iff bit_mask_iff)
    moreover have "pos \<le> i \<longleftrightarrow> k \<le> k'" "i < pos + tk \<longleftrightarrow> k' < k + tk" "i - pos = k' - k" using True e(1,2) by simp_all
    moreover have "i div 8 = q" "i mod 8 = k'" using True by (simp_all add: q'_def k'_def)
    ultimately show ?thesis using assms(1) unfolding bit_at_def q_def [symmetric] k_def [symmetric] by simp
  next
    case False
    then have "\<not> (pos \<le> i \<and> i < pos + tk)" using assms(2) e unfolding k_def [symmetric] by linarith
    then show ?thesis using False by (auto simp: bit_at_def q_def q'_def)
  qed
qed

lemma pack_value_bits:
  "pos + w \<le> 8 * length out \<Longrightarrow> pack_value w v (out, pos) = (out', pos') \<Longrightarrow>
     pos' = pos + w \<and> length out' = length out \<and>
     (\<forall>i < 8 * length out. bit_at out' i \<longleftrightarrow> bit_at out i \<or> pos \<le> i \<and> i < pos + w \<and> bit v (i - pos))"
proof (induction w arbitrary: v out pos rule: less_induct)
  case (less w)
  show ?case
  proof (cases "w = 0")
    case True
    then show ?thesis using less.prems(2) by (auto simp: pack_value.simps)
  next
    case False
    define tk where "tk = min w (8 - pos mod 8)"
    define o1 where "o1 = out[pos div 8 := out ! (pos div 8) OR push_bit (pos mod 8) (ucast (v AND mask tk))]"
    have tk: "0 < tk" "tk \<le> w" "pos mod 8 + tk \<le> 8" using False by (auto simp: tk_def)
    have lt: "pos div 8 < length out" using less.prems(1) False by linarith
    have rec: "pack_value (w - tk) (drop_bit tk v) (o1, pos + tk) = (out', pos')"
      using less.prems(2) False by (subst (asm) pack_value.simps) (simp add: Let_def tk_def o1_def)
    have "pos' = pos + tk + (w - tk) \<and> length out' = length o1 \<and> (\<forall>i < 8 * length o1. bit_at out' i \<longleftrightarrow>
        bit_at o1 i \<or> pos + tk \<le> i \<and> i < pos + tk + (w - tk) \<and> bit (drop_bit tk v) (i - (pos + tk)))"
      using tk less.prems(1) by (intro less.IH [OF _ _ rec]) (auto simp: o1_def)
    moreover have "bit_at o1 i \<longleftrightarrow> bit_at out i \<or> pos \<le> i \<and> i < pos + tk \<and> bit v (i - pos)" if "i < 8 * length out" for i
      unfolding o1_def by (rule or_chunk_bits [OF lt tk(3) that])
    moreover have "length o1 = length out" by (simp add: o1_def)
    ultimately show ?thesis using tk(2) by (auto simp: bit_drop_bit_eq)
  qed
qed

lemma pack_fold_bits:
  "pos + length vs * w \<le> 8 * length out \<Longrightarrow> fold (pack_value w) vs (out, pos) = (out', pos') \<Longrightarrow>
     length out' = length out \<and> (\<forall>i < 8 * length out. bit_at out' i \<longleftrightarrow> bit_at out i \<or>
       (\<exists>j < length vs. pos + j * w \<le> i \<and> i < pos + j * w + w \<and> bit (vs ! j) (i - (pos + j * w))))"
proof (induction vs arbitrary: out pos)
  case (Cons v vs)
  obtain o1 p1 where o1: "pack_value w v (out, pos) = (o1, p1)" by force
  note b = pack_value_bits [OF _ o1]
  have p1: "p1 = pos + w" "length o1 = length out" using b Cons.prems(1) by auto
  have "length out' = length o1 \<and> (\<forall>i < 8 * length o1. bit_at out' i \<longleftrightarrow> bit_at o1 i \<or>
       (\<exists>j < length vs. p1 + j * w \<le> i \<and> i < p1 + j * w + w \<and> bit (vs ! j) (i - (p1 + j * w))))"
    using Cons.prems o1 p1 by (intro Cons.IH) auto
  moreover have "(\<exists>j < length (v # vs). pos + j * w \<le> i \<and> i < pos + j * w + w \<and> bit ((v # vs) ! j) (i - (pos + j * w))) \<longleftrightarrow>
      (pos \<le> i \<and> i < pos + w \<and> bit v (i - pos)) \<or>
      (\<exists>j < length vs. p1 + j * w \<le> i \<and> i < p1 + j * w + w \<and> bit (vs ! j) (i - (p1 + j * w)))" for i
    by (simp add: Ex_less_Suc2 p1(1) add.assoc)
  moreover have "bit_at o1 i \<longleftrightarrow> bit_at out i \<or> pos \<le> i \<and> i < pos + w \<and> bit v (i - pos)" if "i < 8 * length out" for i
    using b Cons.prems(1) that by auto
  ultimately show ?case using p1(2) by auto
qed simp

lemma pack_bits:
  assumes "0 < w" "i < length vs * w"
  shows "bit_at (pack vs w) i \<longleftrightarrow> bit (vs ! (i div w)) (i mod w)"
    "length (pack vs w) = (length vs * w + 7) div 8"
proof -
  define n where "n = (length vs * w + 7) div 8"
  obtain out' pos' where f: "fold (pack_value w) vs (replicate n 0, 0) = (out', pos')" by force
  then have p: "pack vs w = out'" using assms(1) by (simp add: pack_def n_def)
  have n: "length vs * w \<le> 8 * n" by (simp add: n_def)
  have l: "length out' = n" and b: "\<forall>i < 8 * n. bit_at out' i \<longleftrightarrow> bit_at (replicate n 0) i \<or>
       (\<exists>j < length vs. j * w \<le> i \<and> i < j * w + w \<and> bit (vs ! j) (i - j * w))"
    using pack_fold_bits [OF _ f] n by auto
  show "length (pack vs w) = (length vs * w + 7) div 8" using l p by (simp add: n_def)
  have i: "i < 8 * n" using assms(2) n by simp
  have "\<not> bit_at (replicate n 0) i" using i by (simp add: bit_at_def less_mult_imp_div_less)
  moreover have "j * w \<le> i \<and> i < j * w + w \<longleftrightarrow> j = i div w" for j
    using assms(1) dividend_less_times_div [of w i] times_div_less_eq_dividend [of w i]
    by (auto simp: mult.commute intro: div_nat_eqI [symmetric])
  moreover have "i - i div w * w = i mod w" by (simp add: minus_div_mult_eq_mod)
  moreover have "i div w < length vs" using assms by (simp add: less_mult_imp_div_less)
  ultimately have "(\<exists>j < length vs. j * w \<le> i \<and> i < j * w + w \<and> bit (vs ! j) (i - j * w)) \<longleftrightarrow>
      bit (vs ! (i div w)) (i mod w)" "\<not> bit_at (replicate n 0) i" by metis+
  then show "bit_at (pack vs w) i \<longleftrightarrow> bit (vs ! (i div w)) (i mod w)" using b i p by simp
qed

lemma read_chunk_bits:
  assumes "pos mod 8 + tk \<le> 8"
  shows "bit (drop_bit (pos mod 8) (bs ! (pos div 8)) AND mask tk) j \<longleftrightarrow> j < tk \<and> bit_at bs (pos + j)"
proof (cases "j < tk")
  case True
  then have "pos mod 8 + j < 8" using assms by simp
  moreover from this have "(pos + j) mod 8 = pos mod 8 + j" by (metis mod_add_left_eq mod_less)
  moreover from this have "(pos + j) div 8 = pos div 8"
    using div_mult_mod_eq [of "pos + j" 8] div_mult_mod_eq [of pos 8] by linarith
  ultimately show ?thesis using True by (simp add: bit_at_def bit_and_iff bit_mask_iff bit_drop_bit_eq)
qed (simp add: bit_and_iff bit_mask_iff)

lemma unpack_value_bits:
  "filled \<le> w \<Longrightarrow> w \<le> 64 \<Longrightarrow> unpack_value bs w filled v pos = (v', pos') \<Longrightarrow> pos' = pos + (w - filled) \<and>
     (\<forall>j. bit v' j \<longleftrightarrow> bit v j \<or> filled \<le> j \<and> j < w \<and> bit_at bs (pos + (j - filled)))"
proof (induction "w - filled" arbitrary: filled v pos rule: less_induct)
  case less
  show ?case
  proof (cases "filled < w")
    case False
    then show ?thesis using less.prems by (auto simp: unpack_value.simps)
  next
    case True
    define tk where "tk = min (w - filled) (8 - pos mod 8)"
    define ch where "ch = drop_bit (pos mod 8) (bs ! (pos div 8)) AND mask tk"
    have tk: "0 < tk" "filled + tk \<le> w" "pos mod 8 + tk \<le> 8" using True by (auto simp: tk_def)
    have rec: "unpack_value bs w (filled + tk) (v OR push_bit filled (ucast ch)) (pos + tk) = (v', pos')"
      using less.prems(3) True by (subst (asm) unpack_value.simps) (simp add: Let_def tk_def ch_def)
    have p: "pos' = pos + tk + (w - (filled + tk))" and v': "\<forall>j. bit v' j \<longleftrightarrow> bit (v OR push_bit filled (ucast ch)) j \<or>
        filled + tk \<le> j \<and> j < w \<and> bit_at bs (pos + tk + (j - (filled + tk)))"
      using tk less.prems less.hyps [OF _ _ _ rec] by auto
    have chunk: "bit (v OR push_bit filled (ucast ch)) j \<longleftrightarrow>
        bit v j \<or> filled \<le> j \<and> j < filled + tk \<and> bit_at bs (pos + (j - filled))" for j
      using tk less.prems(2) unfolding ch_def
      by (auto simp: bit_or_iff bit_push_bit_iff bit_ucast_iff read_chunk_bits)
    have "bit v' j \<longleftrightarrow> bit v j \<or> filled \<le> j \<and> j < w \<and> bit_at bs (pos + (j - filled))" for j
      using spec [OF v', of j] chunk [of j] tk(2) by (cases "j < filled + tk") auto
    then show ?thesis using p tk(2) by simp
  qed
qed

lemma unpack_values_Suc:
  assumes "w \<le> 64"
  shows "\<exists>v. unpack_values bs w (Suc n) pos = v # unpack_values bs w n (pos + w) \<and> (\<forall>j. bit v j \<longleftrightarrow> j < w \<and> bit_at bs (pos + j))"
  using unpack_value_bits [OF _ assms, of 0 bs 0 pos] by (cases "unpack_value bs w 0 0 pos") simp

lemma length_unpack_values [simp]: "length (unpack_values bs w n pos) = n"
  by (induction n arbitrary: pos) (simp_all split: prod.splits)

lemma unpack_values_bits:
  assumes "w \<le> 64"
  shows "k < n \<Longrightarrow> bit (unpack_values bs w n pos ! k) j \<longleftrightarrow> j < w \<and> bit_at bs (pos + k * w + j)"
proof (induction n arbitrary: k pos)
  case (Suc n)
  obtain v where v: "unpack_values bs w (Suc n) pos = v # unpack_values bs w n (pos + w)"
    "bit v j \<longleftrightarrow> j < w \<and> bit_at bs (pos + j)" using unpack_values_Suc [OF assms] by blast
  show ?case
  proof (cases k)
    case k: (Suc k')
    have "bit (unpack_values bs w n (pos + w) ! k') j \<longleftrightarrow> j < w \<and> bit_at bs (pos + w + k' * w + j)"
      using Suc.prems k by (intro Suc.IH) simp
    moreover have "pos + w + k' * w + j = pos + k * w + j" using k by simp
    ultimately show ?thesis unfolding v(1) using k by simp
  qed (use v in simp)
qed simp

lemma byte_index_bound: "x < y \<Longrightarrow> x div 8 < (y + 7) div 8" for x y :: nat
  by linarith

lemma unpack_pack:
  assumes "w \<le> 64" "\<forall>v \<in> set vs. \<forall>j. bit v j \<longrightarrow> j < w" "length vs \<le> MAX_UNPACK_COUNT" "length vs * w < 2 ^ 64"
  shows "unpack (pack vs w @ rest) (length vs) w = Inr vs"
proof (cases "w = 0")
  case True
  then have "\<forall>v \<in> set vs. v = 0" using assms(2) by (auto intro: bit_word_eqI)
  then show ?thesis using True assms(3) by (simp add: unpack_def replicate_length_same)
next
  case False
  then have w: "0 < w" by simp
  have len: "length (pack vs w) = (length vs * w + 7) div 8" if "vs \<noteq> []"
    using that w pack_bits(2) [of w 0 vs] by simp
  have "unpack_values (pack vs w @ rest) w (length vs) 0 = vs"
  proof (rule nth_equalityI)
    fix k assume "k < length (unpack_values (pack vs w @ rest) w (length vs) 0)"
    then have k: "k < length vs" by simp
    then have "vs \<noteq> []" by auto
    show "unpack_values (pack vs w @ rest) w (length vs) 0 ! k = vs ! k"
    proof (rule bit_word_eqI)
      fix j
      have kj: "k * w + j < length vs * w" if "j < w"
        using mult_le_mono1 [OF Suc_leI [OF k], of w] that by simp
      then have "bit_at (pack vs w @ rest) (k * w + j) \<longleftrightarrow> bit (vs ! k) j" if "j < w"
        using that w pack_bits(1) [OF w kj [OF that]] len [OF \<open>vs \<noteq> []\<close>] byte_index_bound [OF kj [OF that]]
        by (simp add: bit_at_def nth_append)
      then show "bit (unpack_values (pack vs w @ rest) w (length vs) 0 ! k) j \<longleftrightarrow> bit (vs ! k) j"
        using assms(2) nth_mem [OF k] by (auto simp: unpack_values_bits [OF assms(1) k])
    qed
  qed simp
  moreover have "(min (length vs * w) (2 ^ 64 - 1) + 7) div 8 \<le> length (pack vs w @ rest)"
    using len assms(4) by (cases "vs = []") auto
  ultimately show ?thesis using w assms(1) by (simp add: unpack_def Let_def)
qed

lemma length_takeWhile_bound: "n < length xs \<Longrightarrow> \<not> P (xs ! n) \<Longrightarrow> length (takeWhile P xs) \<le> n"
  by (metis not_le nth_mem set_takeWhileD takeWhile_nth)

lemma zeros_bound:
  assumes "bit x k"
  shows "trailing_zeros x \<le> k" "k < 64" "leading_zeros x \<le> 63 - k"
proof -
  show k: "k < 64" using bit_imp_le_length [OF assms] by simp
  then have "rev [0..<64] ! (63 - k) = k" by (simp add: rev_nth)
  then show "leading_zeros x \<le> 63 - k" using k assms unfolding leading_zeros_def by (intro length_takeWhile_bound) auto
  show "trailing_zeros x \<le> k" using k assms unfolding trailing_zeros_def by (intro length_takeWhile_bound) auto
qed

lemma bits_required_bound: "bit x j \<Longrightarrow> j < bits_required x"
  using zeros_bound [of x j] by (auto simp: bits_required_def)

lemma bits_required_le: "bits_required x \<le> 64"
  by (simp add: bits_required_def)

end
