(* ===== verification/Int_Column.thy ===== *)
theory Int_Column
  imports Bit_Pack
begin

text \<open>
  The self-describing integer column, \<^verbatim>\<open>crates/graphus-columnar/src/integer.rs\<close>: frame of reference, delta
  and double delta, each reduced to a bit-packed stream of residuals, and the choice of the smallest.
  An \<^verbatim>\<open>i64\<close> is its two's complement \<open>64 word\<close>, so that the casts between \<^verbatim>\<open>i64\<close> and \<^verbatim>\<open>u64\<close> are the identity and
  the wrapping operations are those of the type.
\<close>

definition SCHEME_FOR :: u8 where "SCHEME_FOR = 0"
definition SCHEME_DELTA :: u8 where "SCHEME_DELTA = 1"
definition SCHEME_DOUBLE_DELTA :: u8 where "SCHEME_DOUBLE_DELTA = 2"

definition zigzag :: "u64 \<Rightarrow> u64" where
  "zigzag n = push_bit 1 n XOR signed_drop_bit 63 n"

definition unzigzag :: "u64 \<Rightarrow> u64" where
  "unzigzag z = drop_bit 1 z XOR (- (z AND 1))"

definition for_pack :: "u64 list \<Rightarrow> u64 \<times> nat \<times> bytes" where
  "for_pack vals =
     (let mn = (if vals = [] then 0 else Min (set vals));
          offs = map (\<lambda>v. v - mn) vals;
          max_off = (if offs = [] then 0 else Max (set offs));
          width = bits_required max_off
      in (mn, width, pack offs width))"

definition for_unpack :: "u64 \<Rightarrow> nat \<Rightarrow> bytes \<Rightarrow> nat \<Rightarrow> column_error + u64 list" where
  "for_unpack mn width payload count =
     (case unpack payload count width of Inl e \<Rightarrow> Inl e | Inr os \<Rightarrow> Inr (map (\<lambda>o'. mn + o') os))"

definition get_u64 :: "bytes \<Rightarrow> nat \<Rightarrow> string \<Rightarrow> column_error + u64" where
  "get_u64 b at what = (if at + 8 \<le> length b then Inr (from_le (bslice at 8 b)) else Inl (Truncated what))"

definition get_width :: "bytes \<Rightarrow> nat \<Rightarrow> column_error + nat" where
  "get_width b at = (if at < length b then Inr (unat (b ! at)) else Inl (Truncated ''bit width''))"

definition encode_for :: "u64 list \<Rightarrow> bytes" where
  "encode_for vs =
     (let (mn, width, payload) = for_pack vs in SCHEME_FOR # le64 mn @ of_nat width # payload)"

definition delta_residuals :: "u64 list \<Rightarrow> u64 list" where
  "delta_residuals vs = map (\<lambda>i. zigzag (vs ! i - vs ! (i - 1))) [1..<length vs]"

definition encode_delta :: "u64 list \<Rightarrow> bytes" where
  "encode_delta vs =
     (let (mn, width, payload) = for_pack (delta_residuals vs)
      in SCHEME_DELTA # le64 (vs ! 0) @ le64 mn @ of_nat width # payload)"

definition double_delta_residuals :: "u64 list \<Rightarrow> u64 list" where
  "double_delta_residuals vs =
     map (\<lambda>i. let d = vs ! i - vs ! (i - 1); prev = vs ! (i - 1) - vs ! (i - 2) in zigzag (d - prev))
       [2..<length vs]"

definition encode_double_delta :: "u64 list \<Rightarrow> bytes" where
  "encode_double_delta vs =
     (let d1 = (if 2 \<le> length vs then vs ! 1 - vs ! 0 else 0);
          (mn, width, payload) = for_pack (double_delta_residuals vs)
      in SCHEME_DOUBLE_DELTA # le64 (vs ! 0) @ le64 d1 @ le64 mn @ of_nat width # payload)"

text \<open>\<^verbatim>\<open>min_by_key(Vec::len)\<close>: the first of the shortest.\<close>

definition shorter :: "bytes \<Rightarrow> bytes \<Rightarrow> bytes" where
  "shorter a b = (if length b < length a then b else a)"

definition encode_i64 :: "u64 list \<Rightarrow> bytes" where
  "encode_i64 vs =
     (if vs = [] then [SCHEME_FOR, 0, 0, 0, 0, 0, 0, 0, 0, 0]
      else let a = encode_for vs
           in if length vs = 1 then a
              else shorter (shorter a (encode_delta vs)) (encode_double_delta vs))"

fun add_deltas :: "u64 \<Rightarrow> u64 list \<Rightarrow> u64 list" where
  "add_deltas cur [] = []"
| "add_deltas cur (z # zs) = (let cur1 = cur + unzigzag z in cur1 # add_deltas cur1 zs)"

fun add_double_deltas :: "u64 \<Rightarrow> u64 \<Rightarrow> u64 list \<Rightarrow> u64 list" where
  "add_double_deltas cur delta [] = []"
| "add_double_deltas cur delta (z # zs) =
     (let delta1 = delta + unzigzag z; cur1 = cur + delta1 in cur1 # add_double_deltas cur1 delta1 zs)"

definition decode_for :: "bytes \<Rightarrow> nat \<Rightarrow> column_error + u64 list" where
  "decode_for bs count =
     (case get_u64 bs 1 ''FOR min'' of Inl e \<Rightarrow> Inl e | Inr mn \<Rightarrow>
     (case get_width bs 9 of Inl e \<Rightarrow> Inl e | Inr width \<Rightarrow>
     for_unpack mn width (drop 10 bs) count))"

definition decode_delta :: "bytes \<Rightarrow> nat \<Rightarrow> column_error + u64 list" where
  "decode_delta bs count =
     (case get_u64 bs 1 ''Delta first'' of Inl e \<Rightarrow> Inl e | Inr first \<Rightarrow>
     (case get_u64 bs 9 ''Delta min'' of Inl e \<Rightarrow> Inl e | Inr mn \<Rightarrow>
     (case get_width bs 17 of Inl e \<Rightarrow> Inl e | Inr width \<Rightarrow>
     (case for_unpack mn width (drop 18 bs) (count - 1) of Inl e \<Rightarrow> Inl e | Inr zz \<Rightarrow>
     Inr (first # add_deltas first zz)))))"

definition decode_double_delta :: "bytes \<Rightarrow> nat \<Rightarrow> column_error + u64 list" where
  "decode_double_delta bs count =
     (case get_u64 bs 1 ''Double-Delta first'' of Inl e \<Rightarrow> Inl e | Inr first \<Rightarrow>
     (case get_u64 bs 9 ''Double-Delta d1'' of Inl e \<Rightarrow> Inl e | Inr d1 \<Rightarrow>
     (case get_u64 bs 17 ''Double-Delta min'' of Inl e \<Rightarrow> Inl e | Inr mn \<Rightarrow>
     (case get_width bs 25 of Inl e \<Rightarrow> Inl e | Inr width \<Rightarrow>
     (case for_unpack mn width (drop 26 bs) (count - 2) of Inl e \<Rightarrow> Inl e | Inr zz \<Rightarrow>
     Inr (first # (if 2 \<le> count then (first + d1) # add_double_deltas (first + d1) d1 zz else [])))))))"

definition decode_i64 :: "bytes \<Rightarrow> nat \<Rightarrow> column_error + u64 list" where
  "decode_i64 bs count =
     (if count = 0 then Inr []
      else case bs of
        [] \<Rightarrow> Inl (Truncated ''integer scheme byte'')
      | scheme # _ \<Rightarrow>
          if scheme = SCHEME_FOR then decode_for bs count
          else if scheme = SCHEME_DELTA then decode_delta bs count
          else if scheme = SCHEME_DOUBLE_DELTA then decode_double_delta bs count
          else Inl (BadScheme scheme))"

subsection \<open>Zig-zag\<close>

lemma signed_drop_bit_63: "signed_drop_bit 63 (n :: u64) = (if bit n 63 then - 1 else 0)"
  by (rule bit_word_eqI) (auto simp: bit_signed_drop_bit_iff not_le)

lemma minus_lsb: "- (z AND 1 :: u64) = (if bit z 0 then - 1 else 0)"
  by (simp add: and_one_eq mod_2_eq_odd bit_0)

lemma bit_zigzag: "bit (zigzag n) k \<longleftrightarrow> k < 64 \<and> (0 < k \<and> bit n (k - 1)) \<noteq> bit n 63"
proof -
  have "bit (push_bit 1 n) k \<longleftrightarrow> 0 < k \<and> k < 64 \<and> bit n (k - 1)"
    using bit_push_bit_iff [of 1 n k] by (auto simp del: push_bit_Suc)
  then show ?thesis unfolding zigzag_def signed_drop_bit_63 by (auto simp: bit_xor_iff simp del: push_bit_Suc)
qed

lemma bit_unzigzag: "bit (unzigzag z) k \<longleftrightarrow> k < 64 \<and> (k < 63 \<and> bit z (Suc k)) \<noteq> bit z 0"
  unfolding unzigzag_def minus_lsb using bit_imp_le_length [of z "Suc k"]
  by (auto simp: bit_xor_iff bit_drop_bit_eq)

lemma unzigzag_zigzag: "unzigzag (zigzag n) = n"
proof (rule bit_word_eqI)
  fix k assume "k < LENGTH(64)"
  then show "bit (unzigzag (zigzag n)) k \<longleftrightarrow> bit n k" by (cases "k = 63") (auto simp: bit_unzigzag bit_zigzag)
qed

lemma zigzag_unzigzag: "zigzag (unzigzag z) = z"
proof (rule bit_word_eqI)
  fix k assume "k < LENGTH(64)"
  then show "bit (zigzag (unzigzag z)) k \<longleftrightarrow> bit z k" by (cases k) (auto simp: bit_unzigzag bit_zigzag)
qed

subsection \<open>Frame of reference\<close>

lemma bits_required_mono:
  assumes "x \<le> y" "bit x j"
  shows "j < bits_required y"
proof (rule ccontr)
  assume n: "\<not> j < bits_required y"
  have "\<not> bit y k" if "j \<le> k" for k using bits_required_bound [of y k] n that by auto
  then have "bit (take_bit j y) k \<longleftrightarrow> bit y k" for k by (cases "j \<le> k") (auto simp: bit_take_bit_iff)
  then have "take_bit j y = y" by (intro bit_word_eqI) simp
  moreover have j: "j < 64" using bit_imp_le_length [OF assms(2)] by simp
  ultimately have "unat y < 2 ^ j" by (metis take_bit_nat_less_exp unsigned_take_bit_eq)
  moreover have "2 ^ j \<le> unat x"
  proof -
    have "bit (unat x) j" using assms(2) by (simp add: bit_unsigned_iff)
    then have "odd (unat x div 2 ^ j)" by (simp add: bit_iff_odd)
    then have "unat x div 2 ^ j \<noteq> 0" by (metis even_zero)
    then show ?thesis by (simp add: div_eq_0_iff)
  qed
  ultimately show False using assms(1) by (simp add: word_le_nat_alt)
qed

lemma for_unpack_pack:
  assumes "for_pack vals = (mn, width, payload)" "length vals \<le> MAX_UNPACK_COUNT"
  shows "for_unpack mn width payload (length vals) = Inr vals" "width \<le> 64"
proof -
  let ?offs = "map (\<lambda>v. v - mn) vals"
  have w: "width = bits_required (if ?offs = [] then 0 else Max (set ?offs))" "payload = pack ?offs width"
    using assms(1) by (auto simp: for_pack_def Let_def)
  then show w64: "width \<le> 64" by (simp add: bits_required_le)
  have "\<forall>v \<in> set ?offs. \<forall>j. bit v j \<longrightarrow> j < width"
  proof (intro ballI allI impI)
    fix v j assume v: "v \<in> set ?offs" "bit v j"
    then have "v \<le> Max (set ?offs)" "?offs \<noteq> []" by (auto intro: Max_ge)
    then show "j < width" unfolding w(1) using bits_required_mono [OF _ v(2)] by simp
  qed
  moreover have "length vals * width < 2 ^ 64"
  proof -
    have "length vals * width \<le> MAX_UNPACK_COUNT * 64" using assms(2) w64 by (intro mult_le_mono)
    then show ?thesis by (simp add: MAX_UNPACK_COUNT_def)
  qed
  ultimately have "unpack (pack ?offs width @ []) (length ?offs) width = Inr ?offs"
    using w64 assms(2) by (intro unpack_pack) auto
  then show "for_unpack mn width payload (length vals) = Inr vals" by (simp add: for_unpack_def w(2) comp_def)
qed

subsection \<open>Deltas\<close>

lemma delta_residuals_simps:
  "delta_residuals [v] = []"
  "delta_residuals (v # v' # vs) = zigzag (v' - v) # delta_residuals (v' # vs)"
proof -
  show "delta_residuals (v # v' # vs) = zigzag (v' - v) # delta_residuals (v' # vs)"
  proof (rule nth_equalityI)
    fix i assume "i < length (delta_residuals (v # v' # vs))"
    then show "delta_residuals (v # v' # vs) ! i = (zigzag (v' - v) # delta_residuals (v' # vs)) ! i"
      by (cases i) (simp_all add: delta_residuals_def del: upt_Suc)
  qed (simp add: delta_residuals_def)
qed (simp add: delta_residuals_def)

lemma add_deltas_residuals: "vs \<noteq> [] \<Longrightarrow> add_deltas (hd vs) (delta_residuals vs) = tl vs"
  by (induction vs rule: induct_list012) (simp_all add: delta_residuals_simps unzigzag_zigzag)

lemma double_delta_residuals_simps:
  "double_delta_residuals [v] = []" "double_delta_residuals [v, v'] = []"
  "double_delta_residuals (u # v # w # vs) = zigzag ((w - v) - (v - u)) # double_delta_residuals (v # w # vs)"
proof -
  show "double_delta_residuals (u # v # w # vs) = zigzag ((w - v) - (v - u)) # double_delta_residuals (v # w # vs)"
  proof (rule nth_equalityI)
    fix i assume "i < length (double_delta_residuals (u # v # w # vs))"
    then show "double_delta_residuals (u # v # w # vs) ! i =
        (zigzag ((w - v) - (v - u)) # double_delta_residuals (v # w # vs)) ! i"
      by (cases i) (simp_all add: double_delta_residuals_def Let_def del: upt_Suc)
  qed (simp add: double_delta_residuals_def)
qed (simp_all add: double_delta_residuals_def)

lemma add_double_deltas_residuals:
  "add_double_deltas v (v - u) (double_delta_residuals (u # v # vs)) = vs"
proof (induction vs arbitrary: u v)
  case (Cons w vs)
  then show ?case using Cons [of w v] by (simp add: double_delta_residuals_simps unzigzag_zigzag)
qed (simp add: double_delta_residuals_simps)

subsection \<open>The blobs\<close>

lemma bslice_le64: "bslice 0 8 (le64 x @ r) = le64 x" "drop 8 (le64 x @ r) = r"
  by (simp_all add: bslice_def)

lemma unat_width: "w \<le> 64 \<Longrightarrow> unat (of_nat w :: u8) = w"
  by (simp add: unat_of_nat take_bit_nat_eq_self)

lemma decode_for_encode:
  assumes "length vs \<le> MAX_UNPACK_COUNT"
  shows "decode_for (encode_for vs) (length vs) = Inr vs"
proof -
  obtain mn width payload where f: "for_pack vs = (mn, width, payload)" by (metis prod_cases3)
  note u = for_unpack_pack [OF f assms]
  show ?thesis using u unat_width [OF u(2)]
    by (simp add: encode_for_def f decode_for_def get_u64_def get_width_def bslice_def nth_append)
qed

lemma decode_delta_encode:
  assumes "vs \<noteq> []" "length vs \<le> MAX_UNPACK_COUNT"
  shows "decode_delta (encode_delta vs) (length vs) = Inr vs"
proof -
  obtain mn width payload where f: "for_pack (delta_residuals vs) = (mn, width, payload)" by (metis prod_cases3)
  have l: "length (delta_residuals vs) = length vs - 1" by (simp add: delta_residuals_def)
  have u: "for_unpack mn width payload (length vs - 1) = Inr (delta_residuals vs)" "width \<le> 64"
    using for_unpack_pack [OF f] assms(2) l by auto
  show ?thesis using u unat_width [OF u(2)] add_deltas_residuals [OF assms(1)] assms(1)
    by (simp add: encode_delta_def f decode_delta_def get_u64_def get_width_def bslice_def nth_append hd_conv_nth [symmetric])
qed

lemma decode_double_delta_encode:
  assumes "2 \<le> length vs" "length vs \<le> MAX_UNPACK_COUNT"
  shows "decode_double_delta (encode_double_delta vs) (length vs) = Inr vs"
proof -
  obtain mn width payload where f: "for_pack (double_delta_residuals vs) = (mn, width, payload)" by (metis prod_cases3)
  have l: "length (double_delta_residuals vs) = length vs - 2" by (simp add: double_delta_residuals_def)
  have u: "for_unpack mn width payload (length vs - 2) = Inr (double_delta_residuals vs)" "width \<le> 64"
    using for_unpack_pack [OF f] assms(2) l by auto
  obtain a b vs' where vs: "vs = a # b # vs'" using assms(1) by (metis One_nat_def Suc_1 Suc_le_length_iff)
  show ?thesis unfolding vs using u [unfolded vs] unat_width [OF u(2)] add_double_deltas_residuals [of b a vs']
    by (simp add: encode_double_delta_def f [unfolded vs] decode_double_delta_def get_u64_def get_width_def bslice_def nth_append)
qed

lemma encode_i64_cases:
  assumes "vs \<noteq> []"
  shows "encode_i64 vs = encode_for vs \<or> 2 \<le> length vs \<and> encode_i64 vs \<in> {encode_for vs, encode_delta vs, encode_double_delta vs}"
    "length (encode_i64 vs) \<le> length (encode_for vs)"
    "2 \<le> length vs \<Longrightarrow> length (encode_i64 vs) \<le> length (encode_delta vs) \<and> length (encode_i64 vs) \<le> length (encode_double_delta vs)"
proof -
  have "length vs = 1 \<or> 2 \<le> length vs" using assms by (cases "length vs") auto
  then show "encode_i64 vs = encode_for vs \<or> 2 \<le> length vs \<and> encode_i64 vs \<in> {encode_for vs, encode_delta vs, encode_double_delta vs}"
    "length (encode_i64 vs) \<le> length (encode_for vs)"
    "2 \<le> length vs \<Longrightarrow> length (encode_i64 vs) \<le> length (encode_delta vs) \<and> length (encode_i64 vs) \<le> length (encode_double_delta vs)"
    using assms by (auto simp: encode_i64_def Let_def shorter_def)
qed

lemma decode_encode_i64:
  assumes "length vs \<le> MAX_UNPACK_COUNT"
  shows "decode_i64 (encode_i64 vs) (length vs) = Inr vs"
proof (cases "vs = []")
  case False
  have h: "\<exists>r. encode_for vs = SCHEME_FOR # r" "\<exists>r. encode_delta vs = SCHEME_DELTA # r"
    "\<exists>r. encode_double_delta vs = SCHEME_DOUBLE_DELTA # r"
    by (auto simp: encode_for_def encode_delta_def encode_double_delta_def Let_def split: prod.splits)
  have f: "decode_i64 (encode_for vs) (length vs) = Inr vs"
    using h(1) decode_for_encode [OF assms] False by (auto simp: decode_i64_def)
  have d: "decode_i64 (encode_delta vs) (length vs) = Inr vs"
    using h(2) decode_delta_encode [OF False assms] False
    by (auto simp: decode_i64_def SCHEME_FOR_def SCHEME_DELTA_def)
  have "decode_i64 (encode_double_delta vs) (length vs) = Inr vs" if "2 \<le> length vs"
    using h(3) decode_double_delta_encode [OF that assms] False
    by (auto simp: decode_i64_def SCHEME_FOR_def SCHEME_DELTA_def SCHEME_DOUBLE_DELTA_def)
  then show ?thesis using encode_i64_cases(1) [OF False] f d by auto
qed (simp add: decode_i64_def)

end
