(* ===== verification/Dictionary_Column.thy ===== *)
theory Dictionary_Column
  imports Int_Column "HOL-Library.List_Lexorder"
begin

text \<open>
  The dictionary codec for byte-string columns, \<^verbatim>\<open>crates/graphus-columnar/src/dictionary.rs\<close>: the sorted
  distinct values, and per row a bit-packed code into them. Byte strings are ordered
  lexicographically. A failed \<^verbatim>\<open>assert!\<close> of the encoder is \<open>None\<close>.
\<close>

definition get_u32 :: "bytes \<Rightarrow> nat \<Rightarrow> string \<Rightarrow> column_error + u32" where
  "get_u32 b at what = (if at + 4 \<le> length b then Inr (from_le (bslice at 4 b)) else Inl (Truncated what))"

fun read_entries :: "bytes \<Rightarrow> nat \<Rightarrow> nat \<Rightarrow> column_error + bytes list \<times> nat" where
  "read_entries bs 0 pos = Inr ([], pos)"
| "read_entries bs (Suc n) pos =
     (case get_u32 bs pos ''dictionary entry length'' of
        Inl e \<Rightarrow> Inl e
      | Inr l \<Rightarrow>
          let pos1 = pos + 4; nd = pos1 + unat l
          in if \<not> nd \<le> length bs then Inl (Truncated ''dictionary entry bytes'')
          else case read_entries bs n nd of
            Inl e \<Rightarrow> Inl e
          | Inr (ds, pos2) \<Rightarrow> Inr (bslice pos1 (unat l) bs # ds, pos2))"

definition read_dict_header :: "bytes \<Rightarrow> column_error + bytes list \<times> nat \<times> bytes" where
  "read_dict_header bs =
     (case get_u32 bs 0 ''dictionary entry count'' of
        Inl e \<Rightarrow> Inl e
      | Inr num \<Rightarrow>
     (case read_entries bs (unat num) 4 of
        Inl e \<Rightarrow> Inl e
      | Inr (dict, pos) \<Rightarrow>
          if \<not> pos < length bs then Inl (Truncated ''dictionary code width'')
          else Inr (dict, unat (bs ! pos), drop (pos + 1) bs)))"

definition dict_distinct :: "bytes list \<Rightarrow> bytes list" where
  "dict_distinct vs = remdups_adj (sort vs)"

text \<open>\<^verbatim>\<open>partition_point\<close> on the sorted dictionary.\<close>

definition code_of :: "bytes list \<Rightarrow> bytes \<Rightarrow> nat" where
  "code_of dict v = length (takeWhile (\<lambda>d. d < v) dict)"

definition dict_entries :: "bytes list \<Rightarrow> bytes" where
  "dict_entries ds = concat (map (\<lambda>d. le32 (of_nat (length d)) @ d) ds)"

definition dict_encode :: "bytes list \<Rightarrow> bytes option" where
  "dict_encode vs =
     (let dict = dict_distinct vs;
          codes = map (\<lambda>v. of_nat (code_of dict v)) vs;
          width = bits_required (of_nat (length dict - 1))
      in if 2 ^ 32 - 1 < length dict then None
      else Some (le32 (of_nat (length dict)) @ dict_entries dict @ of_nat width # pack codes width))"

fun dict_rows :: "bytes list \<Rightarrow> u64 list \<Rightarrow> column_error + bytes list" where
  "dict_rows dict [] = Inr []"
| "dict_rows dict (c # cs) =
     (if \<not> unat c < length dict then Inl (BadCode c (length dict))
      else case dict_rows dict cs of Inl e \<Rightarrow> Inl e | Inr out \<Rightarrow> Inr (dict ! unat c # out))"

definition dict_decode :: "bytes \<Rightarrow> nat \<Rightarrow> column_error + bytes list" where
  "dict_decode bs count =
     (case read_dict_header bs of Inl e \<Rightarrow> Inl e | Inr (dict, width, payload) \<Rightarrow>
     (case unpack payload count width of Inl e \<Rightarrow> Inl e | Inr codes \<Rightarrow> dict_rows dict codes))"

fun check_codes :: "bytes list \<Rightarrow> u64 list \<Rightarrow> column_error + u32 list" where
  "check_codes dict [] = Inr []"
| "check_codes dict (c # cs) =
     (if length dict \<le> unat c then Inl (BadCode c (length dict))
      else case check_codes dict cs of Inl e \<Rightarrow> Inl e | Inr out \<Rightarrow> Inr (ucast c # out))"

definition decode_codes :: "bytes \<Rightarrow> nat \<Rightarrow> column_error + u32 list \<times> bytes list" where
  "decode_codes bs count =
     (case read_dict_header bs of Inl e \<Rightarrow> Inl e | Inr (dict, width, payload) \<Rightarrow>
     (case unpack payload count width of Inl e \<Rightarrow> Inl e | Inr raw \<Rightarrow>
     (case check_codes dict raw of Inl e \<Rightarrow> Inl e | Inr codes \<Rightarrow> Inr (codes, dict))))"

definition cardinality :: "bytes list \<Rightarrow> nat" where
  "cardinality vs = length (remdups_adj (sort vs))"

subsection \<open>The dictionary is canonical\<close>

lemma remdups_adj_strict: "sorted xs \<Longrightarrow> sorted_wrt (<) (remdups_adj xs)" for xs :: "'a::linorder list"
  by (induction xs rule: remdups_adj.induct) (auto simp: less_le dest: order_trans)

lemma dict_distinct_sorted: "sorted_wrt (<) (dict_distinct vs)"
  by (simp add: dict_distinct_def remdups_adj_strict)

lemma set_dict_distinct [simp]: "set (dict_distinct vs) = set vs"
  by (simp add: dict_distinct_def)

lemma code_of_nth:
  assumes "sorted_wrt (<) dict" "i < length dict"
  shows "code_of dict (dict ! i) = i"
proof -
  have lt: "dict ! j < dict ! i" if "j < i" for j using assms that by (simp add: sorted_wrt_nth_less)
  have "takeWhile (\<lambda>d. d < dict ! i) dict = take i dict"
    using assms(2) lt by (intro takeWhile_eq_take_P_nth) auto
  then show ?thesis using assms(2) by (simp add: code_of_def)
qed

lemma code_of_member:
  assumes "v \<in> set vs"
  shows "code_of (dict_distinct vs) v < length (dict_distinct vs)"
    "dict_distinct vs ! code_of (dict_distinct vs) v = v"
proof -
  obtain i where i: "i < length (dict_distinct vs)" "dict_distinct vs ! i = v"
    using assms by (metis in_set_conv_nth set_dict_distinct)
  then show "code_of (dict_distinct vs) v < length (dict_distinct vs)" "dict_distinct vs ! code_of (dict_distinct vs) v = v"
    using code_of_nth [OF dict_distinct_sorted i(1)] by simp_all
qed

lemma code_of_less:
  assumes "v \<in> set vs" "w \<in> set vs"
  shows "code_of (dict_distinct vs) v < code_of (dict_distinct vs) w \<longleftrightarrow> v < w"
proof -
  let ?c = "code_of (dict_distinct vs)"
  have less: "x < y" if "x \<in> set vs" "y \<in> set vs" "?c x < ?c y" for x y
    using sorted_wrt_nth_less [OF dict_distinct_sorted that(3) code_of_member(1) [OF that(2)]] code_of_member(2) that by simp
  have "?c v = ?c w \<longleftrightarrow> v = w" using code_of_member(2) assms by metis
  then show ?thesis using less [OF assms] less [OF assms(2,1)] by (metis linorder_neqE_nat less_asym)
qed

subsection \<open>Round trip\<close>

lemma get_u32_at: "at = length a \<Longrightarrow> get_u32 (a @ le32 w @ r) at what = Inr w"
  by (simp add: get_u32_def bslice_def)

lemma read_entries_encoded:
  assumes "\<forall>d \<in> set ds. length d < 2 ^ 32"
  shows "read_entries (a @ dict_entries ds @ r) (length ds) (length a) = Inr (ds, length a + length (dict_entries ds))"
  using assms
proof (induction ds arbitrary: a)
  case Nil
  then show ?case by (simp add: dict_entries_def)
next
  case (Cons d ds)
  let ?a = "a @ le32 (of_nat (length d)) @ d"
  have bs: "a @ dict_entries (d # ds) @ r = ?a @ dict_entries ds @ r" by (simp add: dict_entries_def)
  have l: "unat (of_nat (length d) :: u32) = length d" using Cons.prems by (simp add: unat_of_nat take_bit_nat_eq_self)
  have g: "get_u32 (?a @ dict_entries ds @ r) (length a) what = Inr (of_nat (length d))" for what
    using get_u32_at [of "length a" a "of_nat (length d)" "d @ dict_entries ds @ r"] by simp
  have "read_entries (?a @ dict_entries ds @ r) (length ds) (length ?a) = Inr (ds, length ?a + length (dict_entries ds))"
    using Cons.prems by (intro Cons.IH) simp
  then show ?case unfolding bs using g l by (simp add: Let_def bslice_def dict_entries_def add.assoc)
qed

lemma read_header_encoded:
  assumes "dict_encode vs = Some bs" "\<forall>v \<in> set vs. length v < 2 ^ 32"
  defines "dict \<equiv> dict_distinct vs" and "w \<equiv> bits_required (of_nat (length (dict_distinct vs) - 1))"
  shows "read_dict_header bs = Inr (dict, w, pack (map (\<lambda>v. of_nat (code_of dict v)) vs) w)"
proof -
  have bs: "bs = le32 (of_nat (length dict)) @ dict_entries dict @ of_nat w # pack (map (\<lambda>v. of_nat (code_of dict v)) vs) w"
    and len: "length dict \<le> 2 ^ 32 - 1"
    using assms(1) by (auto simp: dict_encode_def Let_def dict_def w_def split: if_splits)
  have n: "unat (of_nat (length dict) :: u32) = length dict" using len by (simp add: unat_of_nat take_bit_nat_eq_self)
  have "read_entries bs (length dict) 4 = Inr (dict, 4 + length (dict_entries dict))"
    unfolding bs using read_entries_encoded [of dict "le32 (of_nat (length dict))"] assms(2) by (simp add: dict_def)
  moreover have "get_u32 bs 0 what = Inr (of_nat (length dict))" for what
    unfolding bs using get_u32_at [of 0 "[]"] by simp
  moreover have "unat (of_nat w :: u8) = w" using unat_width [OF bits_required_le] by (simp add: w_def)
  ultimately show ?thesis using n by (simp add: read_dict_header_def) (simp add: bs nth_append)
qed

lemma unpack_codes:
  assumes "dict_encode vs = Some bs" "length vs \<le> MAX_UNPACK_COUNT"
  defines "dict \<equiv> dict_distinct vs" and "w \<equiv> bits_required (of_nat (length (dict_distinct vs) - 1))"
  shows "unpack (pack (map (\<lambda>v. of_nat (code_of dict v)) vs) w) (length vs) w = Inr (map (\<lambda>v. of_nat (code_of dict v)) vs)"
    "v \<in> set vs \<Longrightarrow> unat (of_nat (code_of dict v) :: u64) = code_of dict v"
    "v \<in> set vs \<Longrightarrow> unat (of_nat (code_of dict v) :: u32) = code_of dict v"
proof -
  have len: "length dict \<le> 2 ^ 32 - 1" using assms(1) by (auto simp: dict_encode_def Let_def dict_def split: if_splits)
  have c: "code_of dict v < length dict" if "v \<in> set vs" for v using code_of_member(1) that by (simp add: dict_def)
  show u: "unat (of_nat (code_of dict v) :: u64) = code_of dict v" "unat (of_nat (code_of dict v) :: u32) = code_of dict v"
    if "v \<in> set vs" for v using c [OF that] len by (simp_all add: unat_of_nat take_bit_nat_eq_self)
  have w: "w \<le> 64" by (simp add: w_def bits_required_le)
  have fit: "j < w" if "v \<in> set vs" "bit (of_nat (code_of dict v) :: u64) j" for v j
    unfolding w_def dict_def [symmetric]
  proof (rule bits_required_mono [OF _ that(2)])
    have "unat (of_nat (length dict - 1) :: u64) = length dict - 1" using len by (simp add: unat_of_nat take_bit_nat_eq_self)
    then show "(of_nat (code_of dict v) :: u64) \<le> of_nat (length dict - 1)"
      using c [OF that(1)] u(1) [OF that(1)] unfolding word_le_nat_alt by linarith
  qed
  have "length vs * w \<le> MAX_UNPACK_COUNT * 64" using assms(2) w by (intro mult_le_mono)
  then have "length vs * w < 2 ^ 64" by (simp add: MAX_UNPACK_COUNT_def)
  then show "unpack (pack (map (\<lambda>v. of_nat (code_of dict v)) vs) w) (length vs) w = Inr (map (\<lambda>v. of_nat (code_of dict v)) vs)"
    using unpack_pack [of w "map (\<lambda>v. of_nat (code_of dict v)) vs" "[]"] w fit assms(2) by auto
qed

lemma decode_codes_encode:
  assumes "dict_encode vs = Some bs" "\<forall>v \<in> set vs. length v < 2 ^ 32" "length vs \<le> MAX_UNPACK_COUNT"
  shows "decode_codes bs (length vs) = Inr (map (\<lambda>v. of_nat (code_of (dict_distinct vs) v)) vs, dict_distinct vs)"
proof -
  let ?d = "dict_distinct vs"
  note u = unpack_codes [OF assms(1,3)]
  have "set vs' \<subseteq> set vs \<Longrightarrow> check_codes ?d (map (\<lambda>v. of_nat (code_of ?d v)) vs') = Inr (map (\<lambda>v. of_nat (code_of ?d v)) vs')" for vs'
  proof (induction vs')
    case (Cons v vs')
    then have v: "v \<in> set vs" by simp
    have "ucast (of_nat (code_of ?d v) :: u64) = (of_nat (unat (of_nat (code_of ?d v) :: u64)) :: u32)"
      by (simp add: unsigned_of_nat)
    then have "ucast (of_nat (code_of ?d v) :: u64) = (of_nat (code_of ?d v) :: u32)" unfolding u(2) [OF v] .
    then show ?case using Cons code_of_member(1) [OF v] u(2) [OF v] by simp
  qed simp
  then show ?thesis using read_header_encoded [OF assms(1,2)] u(1) by (simp add: decode_codes_def)
qed

lemma length_read_entries: "read_entries bs n pos = Inr (ds, pos') \<Longrightarrow> length ds = n"
  by (induction bs n pos arbitrary: ds rule: read_entries.induct) (auto simp: Let_def split: sum.splits if_splits)

lemma dict_rows_codes:
  assumes "length dict < 2 ^ 32"
  shows "dict_rows dict cs = (case check_codes dict cs of Inl e \<Rightarrow> Inl e | Inr out \<Rightarrow> Inr (map (\<lambda>c. dict ! unat c) out))"
proof (induction cs)
  case (Cons c cs)
  have "unat (ucast c :: u32) = unat c" if "unat c < length dict"
    using that assms by (simp add: unsigned_ucast_eq take_bit_nat_eq_self)
  then show ?case using Cons by (auto split: sum.splits)
qed simp

lemma dict_decode_codes:
  "dict_decode bs count = (case decode_codes bs count of Inl e \<Rightarrow> Inl e | Inr (cs, dict) \<Rightarrow> Inr (map (\<lambda>c. dict ! unat c) cs))"
proof (cases "read_dict_header bs")
  case (Inr h)
  obtain dict width payload where h: "h = (dict, width, payload)" by (metis prod_cases3)
  obtain num :: u32 where "length dict = unat num"
    using Inr h by (auto simp: read_dict_header_def split: sum.splits if_splits dest!: length_read_entries)
  then have "length dict < 2 ^ 32" using unsigned_less [where w = num] by simp
  then show ?thesis using Inr h dict_rows_codes by (auto simp: dict_decode_def decode_codes_def split: sum.splits)
qed (simp add: dict_decode_def decode_codes_def)

lemma dict_decode_encode:
  assumes "dict_encode vs = Some bs" "\<forall>v \<in> set vs. length v < 2 ^ 32" "length vs \<le> MAX_UNPACK_COUNT"
  shows "dict_decode bs (length vs) = Inr vs"
proof -
  let ?d = "dict_distinct vs"
  note u = unpack_codes [OF assms(1,3)]
  have "set vs' \<subseteq> set vs \<Longrightarrow> dict_rows ?d (map (\<lambda>v. of_nat (code_of ?d v)) vs') = Inr vs'" for vs'
    by (induction vs') (simp_all add: u(2) code_of_member)
  then show ?thesis using read_header_encoded [OF assms(1,2)] u(1) by (simp add: dict_decode_def)
qed

end
