(* ===== verification/Gorilla.thy ===== *)
theory Gorilla
  imports Bit_Pack
begin

text \<open>
  The XOR codec for floating-point columns, \<^verbatim>\<open>crates/graphus-columnar/src/gorilla.rs\<close>. An \<^verbatim>\<open>f64\<close> is its bit
  pattern, a \<open>64 word\<close>: the codec only uses \<^verbatim>\<open>to_bits\<close> and \<^verbatim>\<open>from_bits\<close>.
\<close>

record bit_writer =
  bw_bytes :: bytes
  bw_cur :: u8
  bw_nbits :: nat

definition bw_new :: bit_writer where
  "bw_new = \<lparr>bw_bytes = [], bw_cur = 0, bw_nbits = 0\<rparr>"

definition put_bit :: "bool \<Rightarrow> bit_writer \<Rightarrow> bit_writer" where
  "put_bit b w =
     (let cur = push_bit 1 (bw_cur w) OR of_bool b; nbits = bw_nbits w + 1
      in if nbits = 8 then \<lparr>bw_bytes = bw_bytes w @ [cur], bw_cur = 0, bw_nbits = 0\<rparr>
         else w\<lparr>bw_cur := cur, bw_nbits := nbits\<rparr>)"

text \<open>The low \<open>count\<close> bits, most significant first.\<close>

fun put_bits :: "u64 \<Rightarrow> nat \<Rightarrow> bit_writer \<Rightarrow> bit_writer" where
  "put_bits v 0 w = w"
| "put_bits v (Suc n) w = put_bits v n (put_bit (bit v n) w)"

definition bw_finish :: "bit_writer \<Rightarrow> bytes" where
  "bw_finish w =
     (if 0 < bw_nbits w then bw_bytes w @ [push_bit (8 - bw_nbits w) (bw_cur w)] else bw_bytes w)"

record bit_reader =
  br_bytes :: bytes
  br_byte :: nat
  br_bit :: nat

definition br_new :: "bytes \<Rightarrow> bit_reader" where
  "br_new bs = \<lparr>br_bytes = bs, br_byte = 0, br_bit = 0\<rparr>"

definition get_bit :: "bit_reader \<Rightarrow> column_error + bool \<times> bit_reader" where
  "get_bit r =
     (if \<not> br_byte r < length (br_bytes r) then Inl (Truncated ''gorilla bit stream'')
      else let b = bit (br_bytes r ! br_byte r) (7 - br_bit r); k = br_bit r + 1
           in Inr (b, if k = 8 then r\<lparr>br_bit := 0, br_byte := br_byte r + 1\<rparr> else r\<lparr>br_bit := k\<rparr>))"

fun get_bits_from :: "nat \<Rightarrow> u64 \<Rightarrow> bit_reader \<Rightarrow> column_error + u64 \<times> bit_reader" where
  "get_bits_from 0 v r = Inr (v, r)"
| "get_bits_from (Suc n) v r =
     (case get_bit r of Inl e \<Rightarrow> Inl e | Inr (b, r1) \<Rightarrow> get_bits_from n (push_bit 1 v OR of_bool b) r1)"

definition get_bits :: "nat \<Rightarrow> bit_reader \<Rightarrow> column_error + u64 \<times> bit_reader" where
  "get_bits n r = get_bits_from n 0 r"

definition put_change :: "u64 \<Rightarrow> bit_writer \<Rightarrow> bit_writer" where
  "put_change x w =
     (if x = 0 then put_bit False w
      else let lz = min (leading_zeros x) 63; tz = trailing_zeros x; meaningful = 64 - lz - tz
           in put_bits (drop_bit tz x) meaningful
                (put_bits (of_nat (meaningful - 1)) 6 (put_bits (of_nat lz) 6 (put_bit True w))))"

fun put_values :: "u64 \<Rightarrow> u64 list \<Rightarrow> bit_writer \<Rightarrow> bit_writer" where
  "put_values prev [] w = w"
| "put_values prev (v # vs) w = put_values v vs (put_change (v XOR prev) w)"

definition gorilla_encode :: "u64 list \<Rightarrow> bytes" where
  "gorilla_encode vs =
     (case vs of [] \<Rightarrow> bw_finish bw_new | v # vs' \<Rightarrow> bw_finish (put_values v vs' (put_bits v 64 bw_new)))"

definition get_change :: "bit_reader \<Rightarrow> column_error + u64 \<times> bit_reader" where
  "get_change r =
     (case get_bit r of Inl e \<Rightarrow> Inl e | Inr (b, r1) \<Rightarrow>
      if \<not> b then Inr (0, r1)
      else (case get_bits 6 r1 of Inl e \<Rightarrow> Inl e | Inr (lz, r2) \<Rightarrow>
           (case get_bits 6 r2 of Inl e \<Rightarrow> Inl e | Inr (m, r3) \<Rightarrow>
            let meaningful = unat m + 1
            in if 64 < unat lz + meaningful then Inl (Corrupt ''gorilla leading+meaningful exceeds 64 bits'')
            else case get_bits meaningful r3 of Inl e \<Rightarrow> Inl e | Inr (mantissa, r4) \<Rightarrow>
              Inr (push_bit (64 - unat lz - meaningful) mantissa, r4))))"

fun get_values :: "nat \<Rightarrow> u64 \<Rightarrow> bit_reader \<Rightarrow> column_error + u64 list" where
  "get_values 0 prev r = Inr []"
| "get_values (Suc n) prev r =
     (case get_change r of Inl e \<Rightarrow> Inl e | Inr (x, r1) \<Rightarrow>
     (case get_values n (prev XOR x) r1 of Inl e \<Rightarrow> Inl e | Inr out \<Rightarrow> Inr ((prev XOR x) # out)))"

definition gorilla_decode :: "bytes \<Rightarrow> nat \<Rightarrow> column_error + u64 list" where
  "gorilla_decode bs count =
     (if count = 0 then Inr []
      else case get_bits 64 (br_new bs) of Inl e \<Rightarrow> Inl e | Inr (prev, r) \<Rightarrow>
     (case get_values (count - 1) prev r of Inl e \<Rightarrow> Inl e | Inr out \<Rightarrow> Inr (prev # out)))"

subsection \<open>Bit streams, most significant bit first\<close>

definition byte_bits :: "u8 \<Rightarrow> bool list" where
  "byte_bits b = map (\<lambda>i. bit b (7 - i)) [0..<8]"

definition stream :: "bytes \<Rightarrow> bool list" where
  "stream bs = concat (map byte_bits bs)"

definition word_bits :: "u64 \<Rightarrow> nat \<Rightarrow> bool list" where
  "word_bits v n = map (\<lambda>i. bit v (n - 1 - i)) [0..<n]"

definition written :: "bit_writer \<Rightarrow> bool list" where
  "written w = stream (bw_bytes w) @ map (\<lambda>i. bit (bw_cur w) (bw_nbits w - 1 - i)) [0..<bw_nbits w]"

definition writer_ok :: "bit_writer \<Rightarrow> bool" where
  [invs]: "writer_ok w \<longleftrightarrow> bw_nbits w < 8"

lemma word_bits_Suc: "word_bits v (Suc n) = bit v n # word_bits v n"
  by (rule nth_equalityI) (auto simp: word_bits_def nth_Cons' simp del: upt_Suc)

lemma stream_simps [simp]: "stream [] = []" "stream (b # bs) = byte_bits b @ stream bs" "stream (bs @ bs') = stream bs @ stream bs'"
  by (simp_all add: stream_def)

lemma length_byte_bits [simp]: "length (byte_bits b) = 8"
  by (simp add: byte_bits_def)

lemma length_stream [simp]: "length (stream bs) = 8 * length bs"
  by (induction bs) simp_all

lemma put_bit_written:
  assumes "writer_ok w"
  shows "writer_ok (put_bit b w)" "written (put_bit b w) = written w @ [b]"
proof -
  define cur where "cur = push_bit 1 (bw_cur w) OR of_bool b"
  have n: "bw_nbits w < 8" using assms by (simp add: writer_ok_def)
  have bits: "bit cur k \<longleftrightarrow> (if k = 0 then b else k < 8 \<and> bit (bw_cur w) (k - 1))" for k
    using bit_push_bit_iff [of 1 "bw_cur w" k] unfolding cur_def
    by (auto simp: bit_or_iff bit_of_bool_iff simp del: push_bit_Suc)
  have app: "map (\<lambda>i. bit cur (bw_nbits w - i)) [0..<Suc (bw_nbits w)] =
      map (\<lambda>i. bit (bw_cur w) (bw_nbits w - 1 - i)) [0..<bw_nbits w] @ [b]"
    using n by (intro nth_equalityI) (auto simp: nth_append bits simp del: upt_Suc)
  have full: "byte_bits cur = map (\<lambda>i. bit (bw_cur w) (bw_nbits w - 1 - i)) [0..<bw_nbits w] @ [b]" if "bw_nbits w = 7"
    using app that by (simp add: byte_bits_def)
  show "writer_ok (put_bit b w)" using n unfolding put_bit_def cur_def [symmetric] by (auto simp: Let_def writer_ok_def)
  show "written (put_bit b w) = written w @ [b]"
    using app full unfolding put_bit_def cur_def [symmetric]
    by (cases "bw_nbits w = 7") (simp_all add: Let_def written_def)
qed

lemma put_bits_written:
  "writer_ok w \<Longrightarrow> writer_ok (put_bits v n w) \<and> written (put_bits v n w) = written w @ word_bits v n"
proof (induction n arbitrary: w)
  case (Suc n)
  then show ?case using put_bit_written [OF Suc.prems] by (simp add: word_bits_Suc)
qed (simp add: word_bits_def)

lemma finish_stream:
  assumes "writer_ok w"
  shows "\<exists>pad. stream (bw_finish w) = written w @ pad"
proof (cases "bw_nbits w = 0")
  case False
  let ?n = "bw_nbits w"
  have n: "0 < ?n" "?n < 8" using False assms by (auto simp: writer_ok_def)
  have "take ?n (byte_bits (push_bit (8 - ?n) (bw_cur w))) = map (\<lambda>i. bit (bw_cur w) (?n - 1 - i)) [0..<?n]"
    using n by (intro nth_equalityI) (auto simp: byte_bits_def bit_push_bit_iff simp del: upt_Suc intro!: arg_cong [of _ _ "bit _"])
  then show ?thesis using n
    by (metis append_assoc append_take_drop_id bw_finish_def stream_simps written_def append_Nil2)
qed (simp add: bw_finish_def written_def)

subsection \<open>Reading back\<close>

definition unread :: "bit_reader \<Rightarrow> bool list" where
  "unread r = drop (8 * br_byte r + br_bit r) (stream (br_bytes r))"

definition reader_ok :: "bit_reader \<Rightarrow> bool" where
  [invs]: "reader_ok r \<longleftrightarrow> br_bit r < 8"

lemma nth_stream: "i < length bs \<Longrightarrow> k < 8 \<Longrightarrow> stream bs ! (8 * i + k) = bit (bs ! i) (7 - k)"
proof (induction bs arbitrary: i)
  case (Cons b bs)
  then show ?case by (cases i) (auto simp: nth_append byte_bits_def simp del: upt_Suc)
qed simp

lemma get_bit_unread:
  assumes "reader_ok r" "unread r = b # rest"
  shows "\<exists>r'. get_bit r = Inr (b, r') \<and> reader_ok r' \<and> unread r' = rest"
proof -
  let ?p = "8 * br_byte r + br_bit r"
  have k: "br_bit r < 8" using assms(1) by (simp add: reader_ok_def)
  have p: "?p < 8 * length (br_bytes r)" using assms(2) by (metis drop_all length_stream list.distinct(1) not_le unread_def)
  then have byte: "br_byte r < length (br_bytes r)" using k by linarith
  have "drop ?p (stream (br_bytes r)) = stream (br_bytes r) ! ?p # drop (Suc ?p) (stream (br_bytes r))"
    using p by (intro Cons_nth_drop_Suc [symmetric]) simp
  then have "b = stream (br_bytes r) ! ?p" "rest = drop (Suc ?p) (stream (br_bytes r))" using assms(2) by (simp_all add: unread_def)
  then show ?thesis using byte k nth_stream [OF byte k]
    by (auto simp: get_bit_def Let_def reader_ok_def unread_def)
qed

lemma get_bits_from_unread:
  "reader_ok r \<Longrightarrow> unread r = word_bits x n @ rest \<Longrightarrow> n \<le> 64 \<Longrightarrow>
     \<exists>v' r'. get_bits_from n v r = Inr (v', r') \<and> reader_ok r' \<and> unread r' = rest \<and>
       (\<forall>k < 64. bit v' k \<longleftrightarrow> (if k < n then bit x k else bit v (k - n)))"
proof (induction n arbitrary: v r)
  case 0
  then show ?case by (simp add: word_bits_def)
next
  case (Suc n)
  define v1 where "v1 = push_bit 1 v OR of_bool (bit x n)"
  from get_bit_unread [OF Suc.prems(1)] Suc.prems(2) obtain r1 where
    r1: "get_bit r = Inr (bit x n, r1)" "reader_ok r1" "unread r1 = word_bits x n @ rest" by (auto simp: word_bits_Suc)
  from Suc.IH [OF r1(2,3), of v1] Suc.prems(3) obtain v' r' where
    v': "get_bits_from n v1 r1 = Inr (v', r')" "reader_ok r'" "unread r' = rest"
    "\<forall>k < 64. bit v' k \<longleftrightarrow> (if k < n then bit x k else bit v1 (k - n))" by auto
  have bits: "bit v1 k \<longleftrightarrow> (if k = 0 then bit x n else k < 64 \<and> bit v (k - 1))" for k
    using bit_push_bit_iff [of 1 v k] unfolding v1_def by (auto simp: bit_or_iff bit_of_bool_iff simp del: push_bit_Suc)
  have "bit v' k \<longleftrightarrow> (if k < Suc n then bit x k else bit v (k - Suc n))" if "k < 64" for k
    using v'(4) that bits [of "k - n"] by (auto simp: less_Suc_eq)
  then show ?case using r1(1) v'(1-3) by (simp add: v1_def)
qed

lemma get_bits_unread:
  assumes "reader_ok r" "unread r = word_bits x n @ rest" "n \<le> 64"
  shows "\<exists>r'. get_bits n r = Inr (take_bit n x, r') \<and> reader_ok r' \<and> unread r' = rest"
proof -
  from get_bits_from_unread [OF assms, of 0] obtain v r' where v: "get_bits_from n 0 r = Inr (v, r')" "reader_ok r'"
    "unread r' = rest" "\<forall>k < 64. bit v k \<longleftrightarrow> (if k < n then bit x k else False)" by auto
  have "v = take_bit n x" by (rule bit_word_eqI) (use v(4) in \<open>simp add: bit_take_bit_iff\<close>)
  then show ?thesis using v by (simp add: get_bits_def)
qed

subsection \<open>Round trip\<close>

lemma take_bit_of_nat_64: "n < 64 \<Longrightarrow> take_bit 6 (of_nat n :: u64) = of_nat n" "n < 64 \<Longrightarrow> unat (of_nat n :: u64) = n"
proof -
  assume n: "n < 64"
  then show "unat (of_nat n :: u64) = n" by (simp add: unat_of_nat take_bit_nat_eq_self)
  then show "take_bit 6 (of_nat n :: u64) = of_nat n" using n by (simp add: word_unat_eq_iff unsigned_take_bit_eq take_bit_nat_eq_self)
qed

definition change_bits :: "u64 \<Rightarrow> bool list" where
  "change_bits x =
     (if x = 0 then [False]
      else let lz = leading_zeros x; tz = trailing_zeros x; n = 64 - lz - tz
           in True # word_bits (of_nat lz) 6 @ word_bits (of_nat (n - 1)) 6 @ word_bits (drop_bit tz x) n)"

lemma change_window:
  assumes "x \<noteq> 0"
  shows "leading_zeros x + trailing_zeros x \<le> 63"
proof -
  obtain k where "bit x k" using assms by (metis bit_word_eqI bit_0_eq bot_apply bot_bool_def)
  from zeros_bound [OF this] show ?thesis by simp
qed

lemma put_change_written:
  assumes "writer_ok w"
  shows "writer_ok (put_change x w)" "written (put_change x w) = written w @ change_bits x"
proof -
  have "min (leading_zeros x) 63 = leading_zeros x" if "x \<noteq> 0" using change_window [OF that] by simp
  then show "writer_ok (put_change x w)" "written (put_change x w) = written w @ change_bits x"
    using put_bit_written [OF assms] put_bits_written
    by (auto simp: put_change_def change_bits_def Let_def)
qed

lemma get_change_unread:
  assumes "reader_ok r" "unread r = change_bits x @ rest"
  shows "\<exists>r'. get_change r = Inr (x, r') \<and> reader_ok r' \<and> unread r' = rest"
proof (cases "x = 0")
  case True
  then show ?thesis using get_bit_unread [OF assms(1), of False rest] assms(2) by (auto simp: change_bits_def get_change_def)
next
  case False
  define lz where "lz = leading_zeros x"
  define tz where "tz = trailing_zeros x"
  define n where "n = 64 - lz - tz"
  have win: "lz + tz \<le> 63" using change_window [OF False] by (simp add: lz_def tz_def)
  define m where "m = n - 1"
  have n: "n = m + 1" "n \<le> 64" "lz < 64" "m < 64" "64 - lz - n = tz" "lz + n \<le> 64" using win by (simp_all add: n_def m_def)
  have u: "unread r = True # word_bits (of_nat lz) 6 @ word_bits (of_nat m) 6 @ word_bits (drop_bit tz x) n @ rest"
    using assms(2) False unfolding m_def n_def lz_def tz_def by (simp only: change_bits_def Let_def if_False append_Cons append_assoc)
  from get_bit_unread [OF assms(1) u] obtain r1 where r1: "get_bit r = Inr (True, r1)" "reader_ok r1"
    "unread r1 = word_bits (of_nat lz) 6 @ word_bits (of_nat m) 6 @ word_bits (drop_bit tz x) n @ rest" by blast
  from get_bits_unread [OF r1(2,3)] obtain r2 where r2: "get_bits 6 r1 = Inr (of_nat lz, r2)" "reader_ok r2"
    "unread r2 = word_bits (of_nat m) 6 @ word_bits (drop_bit tz x) n @ rest" using take_bit_of_nat_64(1) [OF n(3)] by auto
  from get_bits_unread [OF r2(2,3)] obtain r3 where r3: "get_bits 6 r2 = Inr (of_nat m, r3)" "reader_ok r3"
    "unread r3 = word_bits (drop_bit tz x) n @ rest" using take_bit_of_nat_64(1) [OF n(4)] by auto
  from get_bits_unread [OF r3(2,3) n(2)] obtain r4 where r4: "get_bits n r3 = Inr (take_bit n (drop_bit tz x), r4)"
    "reader_ok r4" "unread r4 = rest" by blast
  have "push_bit tz (take_bit n (drop_bit tz x)) = x"
  proof (rule bit_word_eqI)
    fix k assume "k < LENGTH(64)"
    then show "bit (push_bit tz (take_bit n (drop_bit tz x))) k \<longleftrightarrow> bit x k"
      using zeros_bound [of x k] win
      by (auto simp: bit_push_bit_iff bit_take_bit_iff bit_drop_bit_eq n_def lz_def tz_def)
  qed
  then show ?thesis
    using r1(1) r2(1) r3(1) r4 take_bit_of_nat_64(2) [OF n(3)] take_bit_of_nat_64(2) [OF n(4)] n(5,6)
    by (simp add: get_change_def Let_def n(1))
qed

lemma put_values_written:
  "writer_ok w \<Longrightarrow> \<exists>bits. writer_ok (put_values prev vs w) \<and> written (put_values prev vs w) = written w @ bits \<and>
     (\<forall>r rest. reader_ok r \<longrightarrow> unread r = bits @ rest \<longrightarrow> get_values (length vs) prev r = Inr vs)"
proof (induction vs arbitrary: prev w)
  case Nil
  then show ?case by simp
next
  case (Cons v vs)
  let ?x = "v XOR prev"
  note p = put_change_written [OF Cons.prems, of ?x]
  from Cons.IH [OF p(1), of v] obtain bits where b: "writer_ok (put_values v vs (put_change ?x w))"
    "written (put_values v vs (put_change ?x w)) = written (put_change ?x w) @ bits"
    "\<And>r rest. reader_ok r \<Longrightarrow> unread r = bits @ rest \<Longrightarrow> get_values (length vs) v r = Inr vs" by blast
  have x: "prev XOR ?x = v" by (metis xor.left_commute xor_self_eq xor.right_neutral)
  have "get_values (length (v # vs)) prev r = Inr (v # vs)" if r: "reader_ok r" "unread r = (change_bits ?x @ bits) @ rest" for r rest
  proof -
    from get_change_unread [OF r(1), of ?x "bits @ rest"] r(2) obtain r1 where
      "get_change r = Inr (?x, r1)" "reader_ok r1" "unread r1 = bits @ rest" by auto
    then show ?thesis using b(3) x by simp
  qed
  then show ?case using b(1,2) p(2) by (intro exI [of _ "change_bits ?x @ bits"]) auto
qed

lemma gorilla_decode_encode: "gorilla_decode (gorilla_encode vs) (length vs) = Inr vs"
proof (cases vs)
  case (Cons v vs')
  have ok: "writer_ok bw_new" "written bw_new = []" by (simp_all add: bw_new_def writer_ok_def written_def)
  note p = put_bits_written [OF ok(1), of v 64]
  from put_values_written [of "put_bits v 64 bw_new" v vs'] p obtain bits where
    b: "writer_ok (put_values v vs' (put_bits v 64 bw_new))"
    "written (put_values v vs' (put_bits v 64 bw_new)) = word_bits v 64 @ bits"
    "\<And>r rest. reader_ok r \<Longrightarrow> unread r = bits @ rest \<Longrightarrow> get_values (length vs') v r = Inr vs'" using ok(2) by auto
  define bs where "bs = gorilla_encode vs"
  from finish_stream [OF b(1)] obtain pad where "stream bs = word_bits v 64 @ bits @ pad"
    using b(2) by (auto simp: bs_def gorilla_encode_def Cons)
  then have "unread (br_new bs) = word_bits v 64 @ bits @ pad" "reader_ok (br_new bs)"
    by (simp_all add: unread_def br_new_def reader_ok_def)
  from get_bits_unread [OF this(2,1)] obtain r1 where "get_bits 64 (br_new bs) = Inr (v, r1)" "reader_ok r1"
    "unread r1 = bits @ pad" using take_bit_length_eq [of v] by auto
  then have "gorilla_decode bs (length vs) = Inr vs" using b(3) Cons by (simp add: gorilla_decode_def)
  then show ?thesis by (simp add: bs_def)
qed (simp add: gorilla_decode_def)

lemma get_values_length: "get_values n prev r = Inr vs \<Longrightarrow> length vs = n"
  by (induction n prev r arbitrary: vs rule: get_values.induct) (auto split: sum.splits prod.splits)

end
