(* ===== verification/Columnar_Properties.thy ===== *)
theory Columnar_Properties
  imports Dictionary_Column Gorilla
begin

text \<open>
  The properties of the column codecs: every codec returns the column it was given, the integer codec
  picks the smallest of its schemes, dictionary codes are ordered like the values they stand for, and
  no decoder returns a malformed column, whatever bytes it is given.
\<close>

lemma decode_encode_bool:
  assumes "length vs \<le> MAX_UNPACK_COUNT"
  shows "decode_bool (encode_bool vs) (length vs) = Inr vs"
proof -
  have "length vs * 1 < 2 ^ 64" using assms by (simp add: MAX_UNPACK_COUNT_def)
  moreover have "\<forall>v \<in> set (map of_bool vs :: u64 list). \<forall>j. bit v j \<longrightarrow> j < 1" by (auto simp: bit_simps)
  ultimately have "unpack (pack (map of_bool vs) 1) (length vs) 1 = Inr (map of_bool vs)"
    using unpack_pack [of 1 "map of_bool vs" "[]"] assms by simp
  then show ?thesis by (simp add: decode_bool_def encode_bool_def comp_def)
qed

lemma length_add_deltas [simp]: "length (add_deltas c zs) = length zs"
  by (induction c zs rule: add_deltas.induct) (simp_all add: Let_def)

lemma length_add_double_deltas [simp]: "length (add_double_deltas c d zs) = length zs"
  by (induction c d zs rule: add_double_deltas.induct) (simp_all add: Let_def)

lemma unpack_length: "unpack bs n w = Inr vs \<Longrightarrow> length vs = n"
  by (auto simp: unpack_def Let_def split: if_splits)

lemma for_unpack_length: "for_unpack mn w bs n = Inr vs \<Longrightarrow> length vs = n"
  by (auto simp: for_unpack_def dest!: unpack_length split: sum.splits)

lemma decode_i64_length: "decode_i64 bs n = Inr vs \<Longrightarrow> length vs = n"
  by (cases bs) (auto simp: decode_i64_def decode_for_def decode_delta_def decode_double_delta_def
      split: if_splits sum.splits dest!: for_unpack_length)

lemma gorilla_decode_length: "gorilla_decode bs n = Inr vs \<Longrightarrow> length vs = n"
  by (auto simp: gorilla_decode_def split: if_splits sum.splits prod.splits dest!: get_values_length)

lemma check_codes_typed:
  "check_codes dict raw = Inr cs \<Longrightarrow> length cs = length raw \<and> (\<forall>c \<in> set cs. unat c < length dict)"
proof (induction raw arbitrary: cs)
  case (Cons r raw)
  have "unat (ucast r :: u32) \<le> unat r" by (simp add: unsigned_ucast_eq)
  then show ?case using Cons by (auto split: if_splits sum.splits)
qed simp

lemma decode_codes_typed:
  "decode_codes bs n = Inr (cs, dict) \<Longrightarrow> length cs = n \<and> (\<forall>c \<in> set cs. unat c < length dict)"
  by (auto simp: decode_codes_def split: sum.splits dest!: check_codes_typed unpack_length)

lemma code_words:
  assumes "dict_encode vs = Some bs" "v \<in> set vs"
  shows "unat (of_nat (code_of (dict_distinct vs) v) :: u32) = code_of (dict_distinct vs) v"
proof -
  have "code_of (dict_distinct vs) v < 2 ^ 32"
    using assms code_of_member(1) [OF assms(2)] by (auto simp: dict_encode_def Let_def split: if_splits)
  then show ?thesis by (simp add: unat_of_nat take_bit_nat_eq_self)
qed

text \<open>
  C34: The integer codec. A column of at most \<open>MAX_UNPACK_COUNT\<close> integers is decoded from its
  encoding, and an encoding of two values or more is as short as the shortest of the three schemes.
\<close>

theorem integer_column_roundtrip:
  assumes "length vs \<le> MAX_UNPACK_COUNT"
  shows "decode_i64 (encode_i64 vs) (length vs) = Inr vs \<and>
    (2 \<le> length vs \<longrightarrow> length (encode_i64 vs) =
      Min {length (encode_for vs), length (encode_delta vs), length (encode_double_delta vs)})"
proof -
  have "length (encode_i64 vs) = Min {length (encode_for vs), length (encode_delta vs), length (encode_double_delta vs)}"
    if "2 \<le> length vs"
  proof -
    have "vs \<noteq> []" using that by auto
    from encode_i64_cases [OF this] that show ?thesis by (intro Min_eqI [symmetric]) auto
  qed
  then show ?thesis using decode_encode_i64 [OF assms] by simp
qed

theorem integer_column_roundtrip_witness:
  "decode_i64 (encode_i64 [1000, 1010, 1020, 1031]) 4 = Inr [1000, 1010, 1020, 1031]"
proof -
  have "length [1000, 1010, 1020, 1031 :: u64] = 4" "(4 :: nat) \<le> MAX_UNPACK_COUNT" by (simp_all add: MAX_UNPACK_COUNT_def)
  then show ?thesis using integer_column_roundtrip [of "[1000, 1010, 1020, 1031]"] by metis
qed

text \<open>
  C35: The dictionary codec. An encoded column decodes to its rows; its codes decode to one code per
  row into a strictly sorted dictionary, and the codes of two rows are ordered and equal exactly as
  the rows are, so a predicate can be evaluated on the codes.
\<close>

theorem dictionary_codes_are_canonical:
  assumes "dict_encode vs = Some bs" "\<forall>v \<in> set vs. length v < 2 ^ 32" "length vs \<le> MAX_UNPACK_COUNT"
  shows "dict_decode bs (length vs) = Inr vs \<and>
    (\<exists>cs dict. decode_codes bs (length vs) = Inr (cs, dict) \<and> length cs = length vs \<and>
      sorted_wrt (<) dict \<and> set dict = set vs \<and> cardinality vs = length dict \<and>
      (\<forall>i < length vs. \<forall>j < length vs.
         (cs ! i < cs ! j \<longleftrightarrow> vs ! i < vs ! j) \<and> (cs ! i = cs ! j \<longleftrightarrow> vs ! i = vs ! j)))"
proof -
  let ?d = "dict_distinct vs"
  let ?c = "\<lambda>v. of_nat (code_of ?d v) :: u32"
  have less: "(?c v < ?c w \<longleftrightarrow> v < w) \<and> (?c v = ?c w \<longleftrightarrow> v = w)" if "v \<in> set vs" "w \<in> set vs" for v w
  proof -
    have "(?c v < ?c w \<longleftrightarrow> v < w)" "(?c w < ?c v \<longleftrightarrow> w < v)"
      using that code_of_less code_words [OF assms(1)] by (simp_all add: word_less_nat_alt)
    then show ?thesis by (metis linorder_neqE less_irrefl)
  qed
  have "decode_codes bs (length vs) = Inr (map ?c vs, ?d) \<and> length (map ?c vs) = length vs \<and>
      sorted_wrt (<) ?d \<and> set ?d = set vs \<and> cardinality vs = length ?d \<and>
      (\<forall>i < length vs. \<forall>j < length vs. (map ?c vs ! i < map ?c vs ! j \<longleftrightarrow> vs ! i < vs ! j) \<and>
        (map ?c vs ! i = map ?c vs ! j \<longleftrightarrow> vs ! i = vs ! j))"
    using decode_codes_encode [OF assms] dict_distinct_sorted less
    by (simp add: cardinality_def dict_distinct_def)
  then show ?thesis using dict_decode_encode [OF assms] by blast
qed

theorem dictionary_codes_are_canonical_witness:
  "\<exists>bs a b c dict. dict_encode [[7], [3, 1], [7]] = Some bs \<and> dict_decode bs 3 = Inr [[7], [3, 1], [7]] \<and>
    decode_codes bs 3 = Inr ([a, b, c], dict) \<and> b < a \<and> c = a"
proof -
  let ?vs = "[[7], [3, 1], [7]] :: bytes list"
  have "dict_distinct ?vs = [[3, 1], [7]]" by (simp add: dict_distinct_def)
  then obtain bs where bs: "dict_encode ?vs = Some bs" by (simp add: dict_encode_def Let_def)
  have len: "length ?vs = 3" by simp
  have "\<forall>v \<in> set ?vs. length v < 2 ^ 32" "length ?vs \<le> MAX_UNPACK_COUNT" by (simp_all add: MAX_UNPACK_COUNT_def)
  from dictionary_codes_are_canonical [OF bs this, unfolded len] obtain cs dict where
    d: "dict_decode bs 3 = Inr ?vs" "decode_codes bs 3 = Inr (cs, dict)" "length cs = 3"
    and o: "\<forall>i < 3. \<forall>j < 3. (cs ! i < cs ! j \<longleftrightarrow> ?vs ! i < ?vs ! j) \<and> (cs ! i = cs ! j \<longleftrightarrow> ?vs ! i = ?vs ! j)"
    by blast
  obtain a b c where cs: "cs = [a, b, c]" using d(3) by (auto simp: numeral_3_eq_3 length_Suc_conv)
  have "b < a" using o [rule_format, of 1 0] cs by simp
  moreover have "c = a" using o [rule_format, of 2 0] cs by simp
  ultimately show ?thesis using bs d(1,2) cs by blast
qed

text \<open>
  C36: The float and boolean codecs. A column of 64-bit float patterns of any length is decoded from
  its XOR encoding, bit for bit, and so is a boolean column of at most \<open>MAX_UNPACK_COUNT\<close> rows.
\<close>

theorem float_and_bool_columns_roundtrip:
  "gorilla_decode (gorilla_encode vs) (length vs) = Inr vs \<and>
   (length fs \<le> MAX_UNPACK_COUNT \<longrightarrow> decode_bool (encode_bool fs) (length fs) = Inr fs)"
  using gorilla_decode_encode decode_encode_bool by blast

theorem float_and_bool_columns_roundtrip_witness:
  "gorilla_decode (gorilla_encode [4607182418800017408, 4611686018427387904]) 2 =
     Inr [4607182418800017408, 4611686018427387904] \<and>
   decode_bool (encode_bool [True, False, True]) 3 = Inr [True, False, True]"
proof -
  have "length [4607182418800017408, 4611686018427387904 :: u64] = 2" "length [True, False, True] = 3"
    "(3 :: nat) \<le> MAX_UNPACK_COUNT" by (simp_all add: MAX_UNPACK_COUNT_def)
  then show ?thesis
    using float_and_bool_columns_roundtrip [of "[4607182418800017408, 4611686018427387904]" "[True, False, True]"] by metis
qed

text \<open>
  C37: Decoders are total and typed. Given any bytes, a decoder that returns a column returns exactly
  the requested number of rows; every dictionary code is below the size of its dictionary, and
  decoding the rows is looking the codes up, with the same error if there is one.
\<close>

theorem decoded_columns_are_well_formed:
  shows "(\<forall>vs. decode_i64 bs n = Inr vs \<longrightarrow> length vs = n) \<and>
    (\<forall>vs. gorilla_decode bs n = Inr vs \<longrightarrow> length vs = n) \<and>
    (\<forall>vs. decode_bool bs n = Inr vs \<longrightarrow> length vs = n) \<and>
    (\<forall>cs dict. decode_codes bs n = Inr (cs, dict) \<longrightarrow>
      length cs = n \<and> (\<forall>c \<in> set cs. unat c < length dict)) \<and>
    dict_decode bs n = (case decode_codes bs n of Inl e \<Rightarrow> Inl e | Inr (cs, dict) \<Rightarrow> Inr (map (\<lambda>c. dict ! unat c) cs))"
  using decode_i64_length gorilla_decode_length decode_codes_typed dict_decode_codes
  by (auto simp: decode_bool_def dest!: unpack_length split: sum.splits)

theorem decoded_columns_are_well_formed_witness:
  "\<exists>c. decode_codes [1, 0, 0, 0, 1, 0, 0, 0, 9, 0] 1 = Inr ([c], [[9]]) \<and> unat c = 0 \<and>
    dict_decode [1, 0, 0, 0, 1, 0, 0, 0, 9, 0] 1 = Inr [[9]]"
proof -
  have "read_dict_header [1, 0, 0, 0, 1, 0, 0, 0, 9, 0] = Inr ([[9]], 0, [])" by code_simp
  then have d: "decode_codes [1, 0, 0, 0, 1, 0, 0, 0, 9, 0] 1 = Inr ([0], [[9]])"
    by (simp add: decode_codes_def unpack_def MAX_UNPACK_COUNT_def)
  then show ?thesis
    using decoded_columns_are_well_formed [of "[1, 0, 0, 0, 1, 0, 0, 0, 9, 0]" 1] by auto
qed

end
