(* ===== verification/Buffer_Pool.thy ===== *)
theory Buffer_Pool
  imports Page Wal_Run
begin

text \<open>
  The buffer pool, \<^verbatim>\<open>crates/graphus-bufpool/src/pool.rs\<close>: a fixed number of frames over a page device,
  with CLOCK eviction, pinning, checksummed write-back and the write-ahead rule, and the wiring of that
  rule to the log manager, \<^verbatim>\<open>crates/graphus-storage/src/wal_rule.rs\<close>.

  A frame handle is the index of its frame. The mutable borrow that \<^verbatim>\<open>page_mut\<close> returns is the function
  its holder applies to the page. A panic is an error value; the mutex of \<^verbatim>\<open>SharedWal\<close> is held for one
  call at a time, so the shared manager is a component of the pool's state.
\<close>

subsection \<open>The write-ahead rule\<close>

record 'w wal_rule =
  wr_ensure_durable :: "'w \<Rightarrow> lsn \<Rightarrow> (wal_error + unit) \<times> 'w"
  wr_tracks_lsn :: "'w \<Rightarrow> bool"
  wr_durable_len :: "'w \<Rightarrow> u64"

definition no_wal :: "unit wal_rule" where
  "no_wal = \<lparr>wr_ensure_durable = (\<lambda>w up_to. (Inr (), w)), wr_tracks_lsn = (\<lambda>w. False), wr_durable_len = (\<lambda>w. - 1)\<rparr>"

definition shared_wal :: "'s sink_ops \<Rightarrow> 's wal_manager wal_rule" where
  "shared_wal S = \<lparr>wr_ensure_durable = ensure_durable S, wr_tracks_lsn = (\<lambda>m. True),
     wr_durable_len = (\<lambda>m. of_nat (sk_durable_len S (wal_sink m)))\<rparr>"

subsection \<open>The pool\<close>

datatype pool_error =
    PoolIo io_error
  | PoolWal wal_error
  | ChecksumFailed page_id
  | AllPinned
  | FrameOutOfBounds nat nat
  | FramePanic nat nat
  | DirtyWithoutPage

record frame =
  fr_page_id :: "page_id option"
  fr_data :: page
  fr_pin_count :: u32
  fr_dirty :: bool
  fr_ref_bit :: bool

definition frame_empty :: frame where
  "frame_empty = \<lparr>fr_page_id = None, fr_data = replicate PAGE_SIZE 0, fr_pin_count = 0, fr_dirty = False, fr_ref_bit = False\<rparr>"

record ('d, 'w) buffer_pool =
  bp_device :: 'd
  bp_wal :: 'w
  bp_frames :: "frame list"
  bp_table :: "(page_id, nat) fmap"
  bp_clock :: nat

definition with_wal :: "'d \<Rightarrow> 'w \<Rightarrow> nat \<Rightarrow> ('d, 'w) buffer_pool option" where
  "with_wal d w capacity =
     (if capacity = 0 then None
      else Some \<lparr>bp_device = d, bp_wal = w, bp_frames = replicate capacity frame_empty, bp_table = fmempty, bp_clock = 0\<rparr>)"

definition pool_new :: "'d \<Rightarrow> nat \<Rightarrow> ('d, unit) buffer_pool option" where
  "pool_new d capacity = with_wal d () capacity"

definition set_frame :: "('d, 'w) buffer_pool \<Rightarrow> nat \<Rightarrow> (frame \<Rightarrow> frame) \<Rightarrow> ('d, 'w) buffer_pool" where
  "set_frame P i g = P\<lparr>bp_frames := (bp_frames P)[i := g (bp_frames P ! i)]\<rparr>"

definition pool_page :: "('d, 'w) buffer_pool \<Rightarrow> nat \<Rightarrow> pool_error + page" where
  "pool_page P f =
     (if f < length (bp_frames P) then Inr (fr_data (bp_frames P ! f)) else Inl (FramePanic f (length (bp_frames P))))"

definition try_page :: "('d, 'w) buffer_pool \<Rightarrow> nat \<Rightarrow> pool_error + page" where
  "try_page P f =
     (if f < length (bp_frames P) then Inr (fr_data (bp_frames P ! f)) else Inl (FrameOutOfBounds f (length (bp_frames P))))"

definition pool_page_count :: "'d device_ops \<Rightarrow> ('d, 'w) buffer_pool \<Rightarrow> nat" where
  "pool_page_count D P = dv_page_count D (bp_device P)"

definition page_mut :: "('d, 'w) buffer_pool \<Rightarrow> nat \<Rightarrow> (page \<Rightarrow> page) \<Rightarrow> (pool_error + unit) \<times> ('d, 'w) buffer_pool" where
  "page_mut P f g =
     (if f < length (bp_frames P)
      then (Inr (), set_frame P f (\<lambda>fr. fr\<lparr>fr_dirty := True, fr_data := g (fr_data fr)\<rparr>))
      else (Inl (FramePanic f (length (bp_frames P))), P))"

text \<open>\<^verbatim>\<open>saturating_sub\<close> on the pin count.\<close>

definition unpin :: "('d, 'w) buffer_pool \<Rightarrow> nat \<Rightarrow> (pool_error + unit) \<times> ('d, 'w) buffer_pool" where
  "unpin P f =
     (if f < length (bp_frames P)
      then (Inr (), set_frame P f (\<lambda>fr. fr\<lparr>fr_pin_count := (if fr_pin_count fr = 0 then 0 else fr_pin_count fr - 1)\<rparr>))
      else (Inl (FramePanic f (length (bp_frames P))), P))"

definition install :: "('d, 'w) buffer_pool \<Rightarrow> nat \<Rightarrow> page_id \<Rightarrow> page \<Rightarrow> bool \<Rightarrow> ('d, 'w) buffer_pool" where
  "install P i p data dirty =
     (set_frame P i (\<lambda>fr. fr\<lparr>fr_data := data, fr_page_id := Some p, fr_dirty := dirty, fr_pin_count := 1, fr_ref_bit := True\<rparr>))
       \<lparr>bp_table := fmupd p i (bp_table P)\<rparr>"

definition write_back ::
  "(bytes \<Rightarrow> u32) \<Rightarrow> 'd device_ops \<Rightarrow> 'w wal_rule \<Rightarrow> ('d, 'w) buffer_pool \<Rightarrow> nat \<Rightarrow>
     (pool_error + unit) \<times> ('d, 'w) buffer_pool" where
  "write_back crc D W P i =
     (if \<not> i < length (bp_frames P) then (Inl (FramePanic i (length (bp_frames P))), P)
      else if \<not> fr_dirty (bp_frames P ! i) then (Inr (), P)
      else case fr_page_id (bp_frames P ! i) of
        None \<Rightarrow> (Inl DirtyWithoutPage, P)
      | Some p \<Rightarrow>
          let data = write_checksum crc (fr_data (bp_frames P ! i));
              P1 = set_frame P i (\<lambda>fr. fr\<lparr>fr_data := data\<rparr>)
          in (case wr_ensure_durable W (bp_wal P1) (header_lsn data) of
                (Inl e, w) \<Rightarrow> (Inl (PoolWal e), P1\<lparr>bp_wal := w\<rparr>)
              | (Inr _, w) \<Rightarrow>
             (case dv_write_page D (bp_device P1) p data of
                (Inl e, d) \<Rightarrow> (Inl (PoolIo e), P1\<lparr>bp_wal := w, bp_device := d\<rparr>)
              | (Inr _, d) \<Rightarrow> (Inr (), set_frame (P1\<lparr>bp_wal := w, bp_device := d\<rparr>) i (\<lambda>fr. fr\<lparr>fr_dirty := False\<rparr>)))))"

definition find_index :: "('a \<Rightarrow> bool) \<Rightarrow> 'a list \<Rightarrow> nat option" where
  "find_index Q xs = (let k = length (takeWhile (\<lambda>x. \<not> Q x) xs) in if k < length xs then Some k else None)"

text \<open>The sweep of \<^verbatim>\<open>evict_victim\<close>, with the number of steps left.\<close>

primrec clock_sweep ::
  "(bytes \<Rightarrow> u32) \<Rightarrow> 'd device_ops \<Rightarrow> 'w wal_rule \<Rightarrow> nat \<Rightarrow> ('d, 'w) buffer_pool \<Rightarrow>
     (pool_error + nat) \<times> ('d, 'w) buffer_pool" where
  "clock_sweep crc D W 0 P = (Inl AllPinned, P)"
| "clock_sweep crc D W (Suc k) P =
     (let i = bp_clock P; P1 = P\<lparr>bp_clock := (bp_clock P + 1) mod length (bp_frames P)\<rparr>
      in if 0 < fr_pin_count (bp_frames P1 ! i) then clock_sweep crc D W k P1
      else if fr_ref_bit (bp_frames P1 ! i)
      then clock_sweep crc D W k (set_frame P1 i (\<lambda>fr. fr\<lparr>fr_ref_bit := False\<rparr>))
      else case write_back crc D W P1 i of
        (Inl e, P2) \<Rightarrow> (Inl e, P2)
      | (Inr _, P2) \<Rightarrow>
          (Inr i,
           case fr_page_id (bp_frames P2 ! i) of
             None \<Rightarrow> P2
           | Some p \<Rightarrow> (set_frame P2 i (\<lambda>fr. fr\<lparr>fr_page_id := None\<rparr>))\<lparr>bp_table := fmdrop p (bp_table P2)\<rparr>))"

definition evict_victim ::
  "(bytes \<Rightarrow> u32) \<Rightarrow> 'd device_ops \<Rightarrow> 'w wal_rule \<Rightarrow> ('d, 'w) buffer_pool \<Rightarrow> (pool_error + nat) \<times> ('d, 'w) buffer_pool" where
  "evict_victim crc D W P =
     (case find_index (\<lambda>fr. fr_page_id fr = None) (bp_frames P) of
        Some i \<Rightarrow> (Inr i, P)
      | None \<Rightarrow> clock_sweep crc D W (2 * length (bp_frames P)) P)"

definition fetch ::
  "(bytes \<Rightarrow> u32) \<Rightarrow> 'd device_ops \<Rightarrow> 'w wal_rule \<Rightarrow> ('d, 'w) buffer_pool \<Rightarrow> page_id \<Rightarrow>
     (pool_error + nat) \<times> ('d, 'w) buffer_pool" where
  "fetch crc D W P p =
     (case fmlookup (bp_table P) p of
        Some i \<Rightarrow> (Inr i, set_frame P i (\<lambda>fr. fr\<lparr>fr_pin_count := fr_pin_count fr + 1, fr_ref_bit := True\<rparr>))
      | None \<Rightarrow>
     (case evict_victim crc D W P of
        (Inl e, P1) \<Rightarrow> (Inl e, P1)
      | (Inr i, P1) \<Rightarrow>
     (case dv_read_page D (bp_device P1) p of
        Inl e \<Rightarrow> (Inl (PoolIo e), P1)
      | Inr buf \<Rightarrow>
          if \<not> verify_checksum crc buf then (Inl (ChecksumFailed p), P1)
          else (Inr i, install P1 i p buf False))))"

definition new_page ::
  "(bytes \<Rightarrow> u32) \<Rightarrow> 'd device_ops \<Rightarrow> 'w wal_rule \<Rightarrow> ('d, 'w) buffer_pool \<Rightarrow>
     (pool_error + nat \<times> page_id) \<times> ('d, 'w) buffer_pool" where
  "new_page crc D W P =
     (case evict_victim crc D W P of
        (Inl e, P1) \<Rightarrow> (Inl e, P1)
      | (Inr i, P1) \<Rightarrow>
          let p = of_nat (dv_page_count D (bp_device P1))
          in (case dv_extend D (bp_device P1) 1 of
                (Inl e, d) \<Rightarrow> (Inl (PoolIo e), P1\<lparr>bp_device := d\<rparr>)
              | (Inr _, d) \<Rightarrow>
                  (Inr (i, p), install (P1\<lparr>bp_device := d\<rparr>) i p
                     (write_checksum crc (set_page_id (replicate PAGE_SIZE 0) p)) True)))"

definition flush ::
  "(bytes \<Rightarrow> u32) \<Rightarrow> 'd device_ops \<Rightarrow> 'w wal_rule \<Rightarrow> ('d, 'w) buffer_pool \<Rightarrow> nat \<Rightarrow>
     (pool_error + unit) \<times> ('d, 'w) buffer_pool" where
  "flush crc D W P f = write_back crc D W P f"

fun write_back_all ::
  "(bytes \<Rightarrow> u32) \<Rightarrow> 'd device_ops \<Rightarrow> 'w wal_rule \<Rightarrow> nat list \<Rightarrow> ('d, 'w) buffer_pool \<Rightarrow>
     (pool_error + unit) \<times> ('d, 'w) buffer_pool" where
  "write_back_all crc D W [] P = (Inr (), P)"
| "write_back_all crc D W (i # is) P =
     (case write_back crc D W P i of
        (Inl e, P1) \<Rightarrow> (Inl e, P1)
      | (Inr _, P1) \<Rightarrow> write_back_all crc D W is P1)"

definition flush_all ::
  "(bytes \<Rightarrow> u32) \<Rightarrow> 'd device_ops \<Rightarrow> 'w wal_rule \<Rightarrow> ('d, 'w) buffer_pool \<Rightarrow> (pool_error + unit) \<times> ('d, 'w) buffer_pool" where
  "flush_all crc D W P =
     (case write_back_all crc D W (filter (\<lambda>i. fr_dirty (bp_frames P ! i)) [0..<length (bp_frames P)]) P of
        (Inl e, P1) \<Rightarrow> (Inl e, P1)
      | (Inr _, P1) \<Rightarrow>
          (case dv_sync_all D (bp_device P1) of
             (Inl e, d) \<Rightarrow> (Inl (PoolIo e), P1\<lparr>bp_device := d\<rparr>)
           | (Inr _, d) \<Rightarrow> (Inr (), P1\<lparr>bp_device := d\<rparr>)))"

end
