(* ===== verification/Buffer_Pool_Invariant.thy ===== *)
theory Buffer_Pool_Invariant
  imports Buffer_Pool
begin

text \<open>
  The contract of the buffer pool over any fault-free device and any write-ahead rule that keeps its
  promise: the page table and the frames agree, a clean frame holds what the device holds, and every
  page image on the device was hardened in the log first. Each operation keeps the invariant, and its
  effect on the pages the pool presents is the one of a page store without a cache.
\<close>

locale wal_contract =
  fixes W :: "'w wal_rule"
    and wok :: "'w \<Rightarrow> bool"
    and logged :: "'w \<Rightarrow> lsn \<Rightarrow> bool"
    and settled :: "'w \<Rightarrow> lsn \<Rightarrow> bool"
  assumes ensure_law: "wok w \<Longrightarrow> logged w l \<Longrightarrow> \<exists>w'. wr_ensure_durable W w l = (Inr (), w') \<and> wok w' \<and>
      settled w' l \<and> (\<forall>k. logged w k \<longrightarrow> logged w' k) \<and> (\<forall>k. settled w k \<longrightarrow> settled w' k)"
    and zero_law: "wok w \<Longrightarrow> logged w 0 \<and> settled w 0"

locale crash_device = block_device +
  assumes range_law: "ok d \<Longrightarrow> dv_page_count D d \<le> unat p \<Longrightarrow> \<exists>e. dv_read_page D d p = Inl e"
    and write_durable_law: "ok d \<Longrightarrow> unat p < dv_page_count D d \<Longrightarrow> length b = PAGE_SIZE \<Longrightarrow>
      dv_write_page D d p b = (Inr (), d') \<Longrightarrow> unat q < dv_page_count D d \<Longrightarrow>
      durable d' q = durable d q \<or> durable d' q = cur d' q"
    and extend_durable_law: "ok d \<Longrightarrow> dv_extend D d n = (Inr (), d') \<Longrightarrow> unat q < dv_page_count D d' \<Longrightarrow>
      durable d' q = (if unat q < dv_page_count D d then durable d q else replicate PAGE_SIZE 0)"

text \<open>The bytes of a page behind its checksum, and the pages the pool presents.\<close>

definition page_core :: "page \<Rightarrow> bytes" where
  "page_core pg = drop OFF_PAGE_TYPE pg"

definition pool_view :: "('d \<Rightarrow> page_id \<Rightarrow> page) \<Rightarrow> ('d, 'w) buffer_pool \<Rightarrow> page_id \<Rightarrow> bytes" where
  "pool_view cur P p = page_core (case fmlookup (bp_table P) p of
     Some i \<Rightarrow> fr_data (bp_frames P ! i) | None \<Rightarrow> cur (bp_device P) p)"

definition fresh_page :: "page_id \<Rightarrow> page" where
  "fresh_page p = set_page_id (replicate PAGE_SIZE 0) p"

definition unpinned :: "('d, 'w) buffer_pool \<Rightarrow> bool" where
  "unpinned P \<longleftrightarrow> (\<exists>fr \<in> set (bp_frames P). fr_page_id fr = None \<or> fr_pin_count fr = 0)"

text \<open>A pinned frame keeps its page, its pins and its content.\<close>

definition keeps_pinned :: "('d, 'w) buffer_pool \<Rightarrow> ('d, 'w) buffer_pool \<Rightarrow> bool" where
  "keeps_pinned P P' \<longleftrightarrow> length (bp_frames P') = length (bp_frames P) \<and>
     (\<forall>i < length (bp_frames P). fr_page_id (bp_frames P ! i) \<noteq> None \<and> 0 < fr_pin_count (bp_frames P ! i) \<longrightarrow>
       fr_page_id (bp_frames P' ! i) = fr_page_id (bp_frames P ! i) \<and>
       fr_pin_count (bp_frames P ! i) = fr_pin_count (bp_frames P' ! i) \<and>
       page_core (fr_data (bp_frames P' ! i)) = page_core (fr_data (bp_frames P ! i)))"

lemma keeps_pinned_refl [simp]: "keeps_pinned P P"
  by (simp add: keeps_pinned_def)

lemma keeps_pinned_trans: "keeps_pinned P Q \<Longrightarrow> keeps_pinned Q R \<Longrightarrow> keeps_pinned P R"
  by (simp add: keeps_pinned_def)

text \<open>The frames that are pinned keep their page and their content; the frame handed out gains a pin.\<close>

definition handles_kept :: "nat \<Rightarrow> ('d, 'w) buffer_pool \<Rightarrow> ('d, 'w) buffer_pool \<Rightarrow> bool" where
  "handles_kept i P P' \<longleftrightarrow> length (bp_frames P') = length (bp_frames P) \<and>
     (\<forall>j < length (bp_frames P). fr_page_id (bp_frames P ! j) \<noteq> None \<and> 0 < fr_pin_count (bp_frames P ! j) \<longrightarrow>
       fr_page_id (bp_frames P' ! j) = fr_page_id (bp_frames P ! j) \<and>
       fr_pin_count (bp_frames P' ! j) = fr_pin_count (bp_frames P ! j) + of_bool (j = i) \<and>
       page_core (fr_data (bp_frames P' ! j)) = page_core (fr_data (bp_frames P ! j)))"

lemma page_core_checksum [simp]: "length pg = PAGE_SIZE \<Longrightarrow> page_core (write_checksum crc pg) = page_core pg"
  by (rule nth_equalityI) (simp_all add: page_core_def write_checksum_def nth_copy_at length_copy_at page_offsets)

lemma header_lsn_zero: "header_lsn (replicate PAGE_SIZE 0) = 0"
proof -
  have "le64 0 = replicate 8 0" by code_simp
  then have "bslice 8 8 (replicate 8192 0) = le64 0" by (simp add: bslice_def)
  then show ?thesis by (simp add: header_lsn_def read_u64_def page_offsets)
qed

lemma find_index_Some: "find_index Q xs = Some i \<Longrightarrow> i < length xs \<and> Q (xs ! i)"
  using nth_length_takeWhile [of "\<lambda>x. \<not> Q x" xs] by (auto simp: find_index_def Let_def split: if_splits)

lemma find_index_None:
  assumes "find_index Q xs = None" "x \<in> set xs"
  shows "\<not> Q x"
proof -
  have "length xs \<le> length (takeWhile (\<lambda>x. \<not> Q x) xs)"
    using assms(1) by (simp add: find_index_def Let_def not_less split: if_splits)
  then have "takeWhile (\<lambda>x. \<not> Q x) xs = xs" by (metis takeWhile_eq_take take_all)
  then show ?thesis using assms(2) set_takeWhileD [of x "\<lambda>x. \<not> Q x" xs] by simp
qed

lemma set_frame_simps [simp]:
  "bp_device (set_frame P i g) = bp_device P" "bp_wal (set_frame P i g) = bp_wal P"
  "bp_table (set_frame P i g) = bp_table P" "bp_clock (set_frame P i g) = bp_clock P"
  "length (bp_frames (set_frame P i g)) = length (bp_frames P)"
  "i < length (bp_frames P) \<Longrightarrow> bp_frames (set_frame P i g) ! j = (if i = j then g (bp_frames P ! j) else bp_frames P ! j)"
  by (simp_all add: set_frame_def)

subsection \<open>The invariant\<close>

locale pool_env = crash_device + wal_contract +
  fixes crc :: "bytes \<Rightarrow> u32"
begin

definition frame_ok :: "'a \<Rightarrow> 'b \<Rightarrow> frame \<Rightarrow> bool" where
  "frame_ok d w fr \<longleftrightarrow> length (fr_data fr) = PAGE_SIZE \<and>
     (fr_dirty fr \<longrightarrow> fr_page_id fr \<noteq> None \<and> logged w (header_lsn (fr_data fr))) \<and>
     (\<forall>p. fr_page_id fr = Some p \<longrightarrow> unat p < dv_page_count D d \<and>
        (\<not> fr_dirty fr \<longrightarrow> fr_data fr = cur d p \<and> verify_checksum crc (fr_data fr)))"

definition table_ok :: "('a, 'b) buffer_pool \<Rightarrow> bool" where
  "table_ok P \<longleftrightarrow> (\<forall>p i. fmlookup (bp_table P) p = Some i \<longleftrightarrow>
     i < length (bp_frames P) \<and> fr_page_id (bp_frames P ! i) = Some p)"

definition device_ok :: "'a \<Rightarrow> 'b \<Rightarrow> bool" where
  "device_ok d w \<longleftrightarrow> ok d \<and> wok w \<and> dv_page_count D d < 2 ^ 64 \<and>
     (\<forall>p. unat p < dv_page_count D d \<longrightarrow> settled w (header_lsn (cur d p)) \<and> settled w (header_lsn (durable d p)))"

definition pool_inv :: "('a, 'b) buffer_pool \<Rightarrow> bool" where
  "pool_inv P \<longleftrightarrow> device_ok (bp_device P) (bp_wal P) \<and> bp_clock P < length (bp_frames P) \<and> table_ok P \<and>
     (\<forall>i < length (bp_frames P). frame_ok (bp_device P) (bp_wal P) (bp_frames P ! i)) \<and>
     (\<forall>p. unat p < dv_page_count D (bp_device P) \<longrightarrow> fmlookup (bp_table P) p = None \<longrightarrow>
        verify_checksum crc (cur (bp_device P) p))"

lemma pool_invD:
  assumes "pool_inv P"
  shows "ok (bp_device P)" "wok (bp_wal P)" "dv_page_count D (bp_device P) < 2 ^ 64"
    "bp_clock P < length (bp_frames P)" "table_ok P" "device_ok (bp_device P) (bp_wal P)"
    "i < length (bp_frames P) \<Longrightarrow> frame_ok (bp_device P) (bp_wal P) (bp_frames P ! i)"
    "i < length (bp_frames P) \<Longrightarrow> length (fr_data (bp_frames P ! i)) = PAGE_SIZE"
proof -
  show "i < length (bp_frames P) \<Longrightarrow> frame_ok (bp_device P) (bp_wal P) (bp_frames P ! i)" using assms by (simp add: pool_inv_def)
  then show "i < length (bp_frames P) \<Longrightarrow> length (fr_data (bp_frames P ! i)) = PAGE_SIZE" by (simp add: frame_ok_def)
qed (use assms in \<open>simp_all add: pool_inv_def device_ok_def\<close>)

lemma table_frame:
  "table_ok P \<Longrightarrow> fmlookup (bp_table P) p = Some i \<longleftrightarrow> i < length (bp_frames P) \<and> fr_page_id (bp_frames P ! i) = Some p"
  by (simp add: table_ok_def)

text \<open>Changes of the clock, the pins and the reference bits do not matter to the invariant.\<close>

lemma pool_inv_clock: "pool_inv P \<Longrightarrow> k < length (bp_frames P) \<Longrightarrow> pool_inv (P\<lparr>bp_clock := k\<rparr>)"
  by (simp add: pool_inv_def table_ok_def)

lemma pool_view_clock [simp]: "pool_view cur (P\<lparr>bp_clock := k\<rparr>) = pool_view cur P"
  by (simp add: pool_view_def fun_eq_iff split: option.split)

lemma set_frame_marks:
  assumes "pool_inv P" "i < length (bp_frames P)"
    and "\<And>fr. fr_page_id (g fr) = fr_page_id fr \<and> fr_data (g fr) = fr_data fr \<and> fr_dirty (g fr) = fr_dirty fr"
  shows "pool_inv (set_frame P i g)" "pool_view cur (set_frame P i g) = pool_view cur P"
proof -
  show "pool_view cur (set_frame P i g) = pool_view cur P"
    using assms(2,3) by (simp add: pool_view_def fun_eq_iff split: option.split)
  have "table_ok (set_frame P i g)" using pool_invD(5) [OF assms(1)] assms(2,3) by (simp add: table_ok_def)
  moreover have "frame_ok d w (g fr) = frame_ok d w fr" for d w fr using assms(3) by (simp add: frame_ok_def)
  ultimately show "pool_inv (set_frame P i g)" using assms(1,2) by (simp add: pool_inv_def)
qed

subsection \<open>Write-back\<close>

text \<open>What a write-back does: the frame becomes clean, and nothing a client sees changes.\<close>

definition written_back :: "nat \<Rightarrow> ('a, 'b) buffer_pool \<Rightarrow> ('a, 'b) buffer_pool \<Rightarrow> bool" where
  "written_back i P P' \<longleftrightarrow> pool_inv P' \<and> pool_view cur P' = pool_view cur P \<and>
     bp_table P' = bp_table P \<and> bp_clock P' = bp_clock P \<and>
     dv_page_count D (bp_device P') = dv_page_count D (bp_device P) \<and>
     length (bp_frames P') = length (bp_frames P) \<and> \<not> fr_dirty (bp_frames P' ! i) \<and>
     (\<forall>j < length (bp_frames P). fr_page_id (bp_frames P' ! j) = fr_page_id (bp_frames P ! j) \<and>
        fr_pin_count (bp_frames P' ! j) = fr_pin_count (bp_frames P ! j) \<and>
        fr_ref_bit (bp_frames P' ! j) = fr_ref_bit (bp_frames P ! j) \<and>
        page_core (fr_data (bp_frames P' ! j)) = page_core (fr_data (bp_frames P ! j)) \<and>
        (fr_dirty (bp_frames P' ! j) \<longrightarrow> fr_dirty (bp_frames P ! j)))"

lemma write_back_ok:
  assumes inv: "pool_inv P" and i: "i < length (bp_frames P)"
  shows "\<exists>P'. write_back crc D W P i = (Inr (), P') \<and> written_back i P P'"
proof (cases "fr_dirty (bp_frames P ! i)")
  case False
  then show ?thesis using assms by (auto simp: write_back_def written_back_def)
next
  case True
  let ?fr = "bp_frames P ! i"
  note f = pool_invD(7) [OF inv i]
  obtain p where p: "fr_page_id ?fr = Some p" "unat p < dv_page_count D (bp_device P)"
    using f True by (auto simp: frame_ok_def)
  define data where "data = write_checksum crc (fr_data ?fr)"
  have data: "length data = PAGE_SIZE" "header_lsn data = header_lsn (fr_data ?fr)" "page_core data = page_core (fr_data ?fr)"
    "verify_checksum crc data"
    using pool_invD(8) [OF inv i] by (simp_all add: data_def header_lsn_ops verify_write_checksum)
  have "logged (bp_wal P) (header_lsn data)" using f True data(2) by (simp add: frame_ok_def)
  from ensure_law [OF pool_invD(2) [OF inv] this] obtain w where w:
    "wr_ensure_durable W (bp_wal P) (header_lsn data) = (Inr (), w)" "wok w" "settled w (header_lsn data)"
    "\<And>k. logged (bp_wal P) k \<Longrightarrow> logged w k" "\<And>k. settled (bp_wal P) k \<Longrightarrow> settled w k" by blast
  from write_law [OF pool_invD(1) [OF inv] p(2) data(1)] obtain d where d:
    "dv_write_page D (bp_device P) p data = (Inr (), d)" "ok d" "dv_page_count D d = dv_page_count D (bp_device P)"
    "cur d p = data" "\<And>q. q \<noteq> p \<Longrightarrow> cur d q = cur (bp_device P) q" by blast
  define P' where "P' = (set_frame P i (\<lambda>fr. fr\<lparr>fr_data := data, fr_dirty := False\<rparr>))\<lparr>bp_wal := w, bp_device := d\<rparr>"
  have run: "write_back crc D W P i = (Inr (), P')"
    using True i p(1) w(1) d(1)
    by (simp add: write_back_def Let_def data_def [symmetric] P'_def set_frame_def)
  have fr': "bp_frames P' ! j = (if i = j then ?fr\<lparr>fr_data := data, fr_dirty := False\<rparr> else bp_frames P ! j)" for j
    using i by (simp add: P'_def)
  have other: "q \<noteq> p" if "fr_page_id (bp_frames P ! j) = Some q" "j < length (bp_frames P)" "j \<noteq> i" for j q
    using that p(1) i table_frame [OF pool_invD(5) [OF inv]] by (metis option.inject)
  have len: "length (bp_frames P') = length (bp_frames P)" "bp_table P' = bp_table P" "bp_clock P' = bp_clock P"
    "bp_device P' = d" "bp_wal P' = w" by (simp_all add: P'_def)
  have dev: "settled w (header_lsn (cur d q)) \<and> settled w (header_lsn (durable d q))" if "unat q < dv_page_count D d" for q
  proof -
    have c: "settled w (header_lsn (cur d q))"
      using that inv w(3,5) d(3-5) by (cases "q = p") (auto simp: pool_inv_def device_ok_def)
    then show ?thesis using write_durable_law [OF pool_invD(1) [OF inv] p(2) data(1) d(1), of q] that d(3) inv w(5)
      by (auto simp: pool_inv_def device_ok_def)
  qed
  have "frame_ok d w (bp_frames P' ! j)" if j: "j < length (bp_frames P)" for j
    using pool_invD(7) [OF inv j] other [OF _ j] data p d(3-5) w(4) by (auto simp: frame_ok_def fr')
  moreover have "table_ok P'" using pool_invD(5) [OF inv] by (auto simp: table_ok_def fr' len)
  moreover have "verify_checksum crc (cur d q)" if "unat q < dv_page_count D d" "fmlookup (bp_table P) q = None" for q
  proof -
    have "q \<noteq> p" using that(2) p(1) i table_frame [OF pool_invD(5) [OF inv], of p i] by auto
    then show ?thesis using that inv d(3,5) by (auto simp: pool_inv_def)
  qed
  ultimately have inv': "pool_inv P'" using inv dev d(2,3) w(2) len by (simp add: pool_inv_def device_ok_def)
  have "pool_view cur P' q = pool_view cur P q" for q
  proof (cases "fmlookup (bp_table P) q")
    case None
    then have "q \<noteq> p" using p(1) i table_frame [OF pool_invD(5) [OF inv], of p i] by auto
    then show ?thesis using None d(5) by (simp add: pool_view_def len)
  qed (use data(3) in \<open>simp add: pool_view_def len fr'\<close>)
  then have "written_back i P P'" using inv' data(3) d(3) len by (auto simp: written_back_def fr')
  then show ?thesis using run by blast
qed

lemma written_back_keeps: "written_back i P P' \<Longrightarrow> keeps_pinned P P'"
  by (auto simp: written_back_def keeps_pinned_def)

subsection \<open>Eviction\<close>

definition evicted :: "nat \<Rightarrow> ('a, 'b) buffer_pool \<Rightarrow> ('a, 'b) buffer_pool \<Rightarrow> bool" where
  "evicted i P P' \<longleftrightarrow> pool_inv P' \<and> pool_view cur P' = pool_view cur P \<and> keeps_pinned P P' \<and>
     dv_page_count D (bp_device P') = dv_page_count D (bp_device P) \<and>
     i < length (bp_frames P') \<and> fr_page_id (bp_frames P' ! i) = None \<and>
     (\<forall>q. fmlookup (bp_table P) q = None \<longrightarrow> fmlookup (bp_table P') q = None)"

lemma drop_frame:
  assumes inv: "pool_inv P" and i: "i < length (bp_frames P)" "fr_pin_count (bp_frames P ! i) = 0"
    "\<not> fr_dirty (bp_frames P ! i)" "fr_page_id (bp_frames P ! i) = Some p"
    and P': "P' = (set_frame P i (\<lambda>fr. fr\<lparr>fr_page_id := None\<rparr>))\<lparr>bp_table := fmdrop p (bp_table P)\<rparr>"
  shows "evicted i P P'"
proof -
  note t = table_frame [OF pool_invD(5) [OF inv]]
  have f: "fr_data (bp_frames P ! i) = cur (bp_device P) p" "verify_checksum crc (cur (bp_device P) p)"
    using pool_invD(7) [OF inv i(1)] i(3,4) by (auto simp: frame_ok_def)
  have fr': "bp_frames P' ! j = (if i = j then (bp_frames P ! i)\<lparr>fr_page_id := None\<rparr> else bp_frames P ! j)" for j
    using i(1) by (simp add: P')
  have c: "bp_device P' = bp_device P" "bp_wal P' = bp_wal P" "bp_table P' = fmdrop p (bp_table P)" "bp_clock P' = bp_clock P"
    "length (bp_frames P') = length (bp_frames P)" by (simp_all add: P')
  have pi: "fmlookup (bp_table P) p = Some i" using t i by simp
  have "fmlookup (bp_table P') q = Some j \<longleftrightarrow> j < length (bp_frames P') \<and> fr_page_id (bp_frames P' ! j) = Some q" for q j
    using t [of q j] t [of p j] pi i(1,4) by (cases "q = p"; cases "j = i") (auto simp: c fr')
  then have "table_ok P'" by (simp add: table_ok_def)
  moreover have "frame_ok (bp_device P) (bp_wal P) (bp_frames P' ! j)" if "j < length (bp_frames P)" for j
    using pool_invD(7) [OF inv that] i(3) by (auto simp: frame_ok_def fr')
  ultimately have "pool_inv P'" using inv f(2) by (auto simp: pool_inv_def c)
  moreover have "pool_view cur P' q = pool_view cur P q" for q
  proof (cases "fmlookup (bp_table P) q")
    case (Some j)
    then have "q = p \<longleftrightarrow> j = i" using t [of q j] pi i(4) by auto
    then show ?thesis using Some f(1) by (auto simp: pool_view_def c fr')
  next
    case None
    then have "q \<noteq> p" using pi by auto
    then show ?thesis using None by (simp add: pool_view_def c)
  qed
  moreover have "keeps_pinned P P'" using i(2) by (auto simp: keeps_pinned_def c fr')
  ultimately show ?thesis using i(1) by (auto simp: evicted_def c fr')
qed

lemma evicted_trans:
  "evicted i Q R \<Longrightarrow> pool_view cur Q = pool_view cur P \<Longrightarrow> keeps_pinned P Q \<Longrightarrow> bp_table Q = bp_table P \<Longrightarrow>
    dv_page_count D (bp_device Q) = dv_page_count D (bp_device P) \<Longrightarrow> evicted i P R"
  by (auto simp: evicted_def intro: keeps_pinned_trans)

text \<open>One step of the clock: it evicts the frame under the hand, or marks and moves on.\<close>

abbreviation tick_clock :: "('a, 'b) buffer_pool \<Rightarrow> ('a, 'b) buffer_pool" where
  "tick_clock P \<equiv> P\<lparr>bp_clock := (bp_clock P + 1) mod length (bp_frames P)\<rparr>"

abbreviation clear_ref :: "nat \<Rightarrow> ('a, 'b) buffer_pool \<Rightarrow> ('a, 'b) buffer_pool" where
  "clear_ref i P \<equiv> set_frame P i (\<lambda>fr. fr\<lparr>fr_ref_bit := False\<rparr>)"

lemma tick_inv:
  assumes "pool_inv P"
  shows "pool_inv (tick_clock P)" "keeps_pinned P (tick_clock P)"
    "pool_inv (clear_ref (bp_clock P) (tick_clock P))" "keeps_pinned P (clear_ref (bp_clock P) (tick_clock P))"
    "pool_view cur (clear_ref (bp_clock P) (tick_clock P)) = pool_view cur P"
proof -
  have n: "bp_clock P < length (bp_frames P)" by (rule pool_invD(4) [OF assms])
  then have "(bp_clock P + 1) mod length (bp_frames P) < length (bp_frames P)" by (intro mod_less_divisor) auto
  then show t: "pool_inv (tick_clock P)" by (rule pool_inv_clock [OF assms])
  show "keeps_pinned P (tick_clock P)" by (simp add: keeps_pinned_def)
  show "pool_inv (clear_ref (bp_clock P) (tick_clock P))" "pool_view cur (clear_ref (bp_clock P) (tick_clock P)) = pool_view cur P"
    using set_frame_marks [OF t, of "bp_clock P" "\<lambda>fr. fr\<lparr>fr_ref_bit := False\<rparr>"] n by simp_all
  show "keeps_pinned P (clear_ref (bp_clock P) (tick_clock P))" using n by (simp add: keeps_pinned_def)
qed

lemma sweep_evict:
  assumes inv: "pool_inv P" and v: "fr_pin_count (bp_frames P ! bp_clock P) = 0" "\<not> fr_ref_bit (bp_frames P ! bp_clock P)"
    and full: "\<forall>i < length (bp_frames P). fr_page_id (bp_frames P ! i) \<noteq> None"
  shows "\<exists>P'. clock_sweep crc D W (Suc k) P = (Inr (bp_clock P), P') \<and> evicted (bp_clock P) P P'"
proof -
  let ?i = "bp_clock P"
  let ?P1 = "tick_clock P"
  note t = tick_inv [OF inv]
  have i: "?i < length (bp_frames P)" by (rule pool_invD(4) [OF inv])
  from write_back_ok [OF t(1)] i obtain P2 where P2: "write_back crc D W ?P1 ?i = (Inr (), P2)" "written_back ?i ?P1 P2" by auto
  obtain p where p: "fr_page_id (bp_frames P2 ! ?i) = Some p" using P2(2) full i by (auto simp: written_back_def)
  define P3 where "P3 = (set_frame P2 ?i (\<lambda>fr. fr\<lparr>fr_page_id := None\<rparr>))\<lparr>bp_table := fmdrop p (bp_table P2)\<rparr>"
  have "evicted ?i P2 P3" using P2(2) v(1) i p by (intro drop_frame [where p = p]) (auto simp: written_back_def P3_def)
  moreover have "pool_view cur P2 = pool_view cur P" "bp_table P2 = bp_table P"
    "dv_page_count D (bp_device P2) = dv_page_count D (bp_device P)" using P2(2) by (simp_all add: written_back_def)
  ultimately have "evicted ?i P P3"
    using keeps_pinned_trans [OF t(2) written_back_keeps [OF P2(2)]] evicted_trans by blast
  moreover have "clock_sweep crc D W (Suc k) P = (Inr ?i, P3)" using v P2(1) p by (simp add: Let_def P3_def)
  ultimately show ?thesis by blast
qed

text \<open>
  Two turns of the clock suffice: a frame at distance \<open>dist\<close> from the hand is evicted within
  \<open>dist + 1\<close> steps if its reference bit is clear, and within one more turn otherwise.
\<close>

definition clock_dist :: "('a, 'b) buffer_pool \<Rightarrow> nat \<Rightarrow> nat" where
  "clock_dist P j = (if bp_clock P \<le> j then j - bp_clock P else j + length (bp_frames P) - bp_clock P)"

lemma clock_dist_tick:
  assumes "bp_clock P < length (bp_frames P)" "j < length (bp_frames P)"
  shows "clock_dist (tick_clock P) j = (if j = bp_clock P then length (bp_frames P) - 1 else clock_dist P j - 1)"
    "j \<noteq> bp_clock P \<Longrightarrow> 0 < clock_dist P j" "clock_dist P (bp_clock P) = 0"
proof -
  have "(bp_clock P + 1) mod length (bp_frames P) = (if bp_clock P + 1 = length (bp_frames P) then 0 else bp_clock P + 1)"
    using assms(1) by auto
  then show "clock_dist (tick_clock P) j = (if j = bp_clock P then length (bp_frames P) - 1 else clock_dist P j - 1)"
    "j \<noteq> bp_clock P \<Longrightarrow> 0 < clock_dist P j" "clock_dist P (bp_clock P) = 0"
    using assms by (auto simp: clock_dist_def)
qed

definition sweep_need :: "('a, 'b) buffer_pool \<Rightarrow> nat \<Rightarrow> nat" where
  "sweep_need P j = clock_dist P j + (if fr_ref_bit (bp_frames P ! j) then length (bp_frames P) else 0)"

lemma sweep_finds:
  assumes "pool_inv P" "j < length (bp_frames P)" "fr_pin_count (bp_frames P ! j) = 0" "sweep_need P j < k"
    "\<forall>i < length (bp_frames P). fr_page_id (bp_frames P ! i) \<noteq> None"
  shows "\<exists>i P'. clock_sweep crc D W k P = (Inr i, P') \<and> evicted i P P'"
  using assms
proof (induction k arbitrary: P)
  case (Suc k)
  let ?c = "bp_clock P"
  note t = tick_inv [OF Suc.prems(1)]
  have n: "?c < length (bp_frames P)" by (rule pool_invD(4) [OF Suc.prems(1)])
  note cd = clock_dist_tick [OF n Suc.prems(2)]
  consider "0 < fr_pin_count (bp_frames P ! ?c)" | "fr_pin_count (bp_frames P ! ?c) = 0" "fr_ref_bit (bp_frames P ! ?c)"
    | "fr_pin_count (bp_frames P ! ?c) = 0" "\<not> fr_ref_bit (bp_frames P ! ?c)" by (auto simp: word_gt_0)
  then show ?case
  proof cases
    case 1
    then have "j \<noteq> ?c" using Suc.prems(3) by auto
    then have "sweep_need (tick_clock P) j < k" using Suc.prems(4) cd by (auto simp: sweep_need_def)
    from Suc.IH [OF t(1) _ _ this] Suc.prems obtain i P' where
      "clock_sweep crc D W k (tick_clock P) = (Inr i, P')" "evicted i (tick_clock P) P'" by auto
    then show ?thesis using 1 t(2) evicted_trans [of i "tick_clock P" P' P] by (simp add: Let_def)
  next
    case 2
    let ?Q = "clear_ref ?c (tick_clock P)"
    have "clock_dist ?Q j = clock_dist (tick_clock P) j" by (simp add: clock_dist_def)
    then have "sweep_need ?Q j < k" using Suc.prems(4) 2(2) n cd by (auto simp: sweep_need_def split: if_splits)
    moreover have "j < length (bp_frames ?Q)" "fr_pin_count (bp_frames ?Q ! j) = 0"
      "\<forall>i < length (bp_frames ?Q). fr_page_id (bp_frames ?Q ! i) \<noteq> None" using Suc.prems n by simp_all
    ultimately obtain i P' where "clock_sweep crc D W k ?Q = (Inr i, P')" "evicted i ?Q P'"
      using Suc.IH [OF t(3)] by blast
    then show ?thesis using 2 t(4,5) evicted_trans [of i ?Q P' P] by (simp add: Let_def)
  next
    case 3
    then show ?thesis using sweep_evict [OF Suc.prems(1) 3 Suc.prems(5), of k] by blast
  qed
qed simp

lemma sweep_outcome:
  assumes "pool_inv P" "\<forall>i < length (bp_frames P). fr_page_id (bp_frames P ! i) \<noteq> None"
  shows "(\<exists>i P'. clock_sweep crc D W k P = (Inr i, P') \<and> evicted i P P') \<or>
    (\<exists>P'. clock_sweep crc D W k P = (Inl AllPinned, P') \<and> pool_inv P' \<and> pool_view cur P' = pool_view cur P \<and>
      keeps_pinned P P' \<and> dv_page_count D (bp_device P') = dv_page_count D (bp_device P))"
  using assms
proof (induction k arbitrary: P)
  case (Suc k)
  let ?c = "bp_clock P"
  note t = tick_inv [OF Suc.prems(1)]
  have n: "?c < length (bp_frames P)" by (rule pool_invD(4) [OF Suc.prems(1)])
  consider "0 < fr_pin_count (bp_frames P ! ?c)" | "fr_pin_count (bp_frames P ! ?c) = 0" "fr_ref_bit (bp_frames P ! ?c)"
    | "fr_pin_count (bp_frames P ! ?c) = 0" "\<not> fr_ref_bit (bp_frames P ! ?c)" by (auto simp: word_gt_0)
  then show ?case
  proof cases
    case 1
    then show ?thesis using Suc.IH [OF t(1)] Suc.prems(2) t(2) evicted_trans [of _ "tick_clock P" _ P]
        keeps_pinned_trans [OF t(2)] by (fastforce simp: Let_def)
  next
    case 2
    let ?Q = "clear_ref ?c (tick_clock P)"
    show ?thesis using 2 Suc.IH [OF t(3)] Suc.prems(2) t(4,5) n evicted_trans [of _ ?Q _ P]
        keeps_pinned_trans [OF t(4)] by (fastforce simp: Let_def)
  next
    case 3
    then show ?thesis using sweep_evict [OF Suc.prems(1) 3 Suc.prems(2), of k] by blast
  qed
qed simp

lemma evict_ok:
  assumes inv: "pool_inv P"
  shows "(\<exists>i P'. evict_victim crc D W P = (Inr i, P') \<and> evicted i P P') \<or>
    \<not> unpinned P \<and> (\<exists>P'. evict_victim crc D W P = (Inl AllPinned, P') \<and> pool_inv P' \<and> pool_view cur P' = pool_view cur P \<and>
      keeps_pinned P P' \<and> dv_page_count D (bp_device P') = dv_page_count D (bp_device P))"
proof (cases "find_index (\<lambda>fr. fr_page_id fr = None) (bp_frames P)")
  case (Some i)
  then show ?thesis using find_index_Some [OF Some] inv by (auto simp: evict_victim_def evicted_def)
next
  case None
  then have full: "\<forall>i < length (bp_frames P). fr_page_id (bp_frames P ! i) \<noteq> None"
    using find_index_None [OF None] by force
  have e: "evict_victim crc D W P = clock_sweep crc D W (2 * length (bp_frames P)) P" using None by (simp add: evict_victim_def)
  show ?thesis
  proof (cases "unpinned P")
    case True
    then obtain j where j: "j < length (bp_frames P)" "fr_pin_count (bp_frames P ! j) = 0"
      using full unfolding unpinned_def by (metis in_set_conv_nth)
    have "sweep_need P j < 2 * length (bp_frames P)"
      using j(1) pool_invD(4) [OF inv] by (auto simp: sweep_need_def clock_dist_def)
    then show ?thesis using sweep_finds [OF inv j _ full] e by simp
  next
    case False
    then show ?thesis using sweep_outcome [OF inv full] e by simp
  qed
qed

subsection \<open>The operations\<close>

text \<open>The invariant but for the page \<open>p\<close>, which is about to be installed.\<close>

definition pool_pre :: "page_id \<Rightarrow> ('a, 'b) buffer_pool \<Rightarrow> bool" where
  "pool_pre p P \<longleftrightarrow> device_ok (bp_device P) (bp_wal P) \<and> bp_clock P < length (bp_frames P) \<and> table_ok P \<and>
     (\<forall>i < length (bp_frames P). frame_ok (bp_device P) (bp_wal P) (bp_frames P ! i)) \<and>
     (\<forall>q. unat q < dv_page_count D (bp_device P) \<longrightarrow> fmlookup (bp_table P) q = None \<longrightarrow> q \<noteq> p \<longrightarrow>
        verify_checksum crc (cur (bp_device P) q))"

lemma install_ok:
  assumes pre: "pool_pre p P" and i: "i < length (bp_frames P)" "fr_page_id (bp_frames P ! i) = None"
    and p: "fmlookup (bp_table P) p = None" "unat p < dv_page_count D (bp_device P)"
    and data: "length data = PAGE_SIZE" "dirty \<Longrightarrow> logged (bp_wal P) (header_lsn data)"
      "\<not> dirty \<Longrightarrow> data = cur (bp_device P) p \<and> verify_checksum crc data"
    and P': "P' = install P i p data dirty"
  shows "pool_inv P'" "pool_view cur P' = (pool_view cur P)(p := page_core data)"
    "fr_page_id (bp_frames P' ! i) = Some p" "fr_data (bp_frames P' ! i) = data"
    "bp_device P' = bp_device P" "length (bp_frames P') = length (bp_frames P)"
    "\<And>j. j \<noteq> i \<Longrightarrow> bp_frames P' ! j = bp_frames P ! j"
proof -
  have "table_ok P" using pre by (simp add: pool_pre_def)
  note t = table_frame [OF this]
  have fr': "bp_frames P' ! j = (if i = j then (bp_frames P ! i)\<lparr>fr_data := data, fr_page_id := Some p, fr_dirty := dirty,
      fr_pin_count := 1, fr_ref_bit := True\<rparr> else bp_frames P ! j)" for j
    using i(1) by (simp add: P' install_def)
  have c: "bp_device P' = bp_device P" "bp_wal P' = bp_wal P" "bp_table P' = fmupd p i (bp_table P)" "bp_clock P' = bp_clock P"
    "length (bp_frames P') = length (bp_frames P)" by (simp_all add: P' install_def)
  then show "bp_device P' = bp_device P" "length (bp_frames P') = length (bp_frames P)" by simp_all
  show "fr_page_id (bp_frames P' ! i) = Some p" "fr_data (bp_frames P' ! i) = data"
    "\<And>j. j \<noteq> i \<Longrightarrow> bp_frames P' ! j = bp_frames P ! j" by (simp_all add: fr')
  have "fmlookup (bp_table P') q = Some j \<longleftrightarrow> j < length (bp_frames P') \<and> fr_page_id (bp_frames P' ! j) = Some q" for q j
    using t [of q j] t [of p j] p(1) i by (cases "q = p"; cases "j = i") (auto simp: c fr')
  then have "table_ok P'" by (simp add: table_ok_def)
  moreover have "frame_ok (bp_device P) (bp_wal P) (bp_frames P' ! j)" if "j < length (bp_frames P)" for j
  proof (cases "i = j")
    case False
    then show ?thesis using pre that by (simp add: pool_pre_def fr')
  qed (use data p(2) in \<open>auto simp: frame_ok_def fr'\<close>)
  ultimately show "pool_inv P'" using pre by (auto simp: pool_inv_def pool_pre_def c)
  have "fmlookup (bp_table P) q \<noteq> Some i" for q using t [of q i] i(2) by simp
  then show "pool_view cur P' = (pool_view cur P)(p := page_core data)"
    by (auto simp: pool_view_def c fr' fun_eq_iff split: option.split)
qed

lemma fetch_ok:
  assumes inv: "pool_inv P" and p: "unat p < dv_page_count D (bp_device P)"
    and room: "fmlookup (bp_table P) p \<noteq> None \<or> unpinned P"
  shows "\<exists>i P'. fetch crc D W P p = (Inr i, P') \<and> pool_inv P' \<and> pool_view cur P' = pool_view cur P \<and>
    dv_page_count D (bp_device P') = dv_page_count D (bp_device P) \<and> i < length (bp_frames P') \<and>
    fr_page_id (bp_frames P' ! i) = Some p \<and> page_core (fr_data (bp_frames P' ! i)) = pool_view cur P p \<and> handles_kept i P P'"
proof (cases "fmlookup (bp_table P) p")
  case (Some i)
  let ?g = "\<lambda>fr. fr\<lparr>fr_pin_count := fr_pin_count fr + 1, fr_ref_bit := True\<rparr>"
  have i: "i < length (bp_frames P)" "fr_page_id (bp_frames P ! i) = Some p"
    using table_frame [OF pool_invD(5) [OF inv]] Some by auto
  note m = set_frame_marks [OF inv i(1), of ?g]
  have "fetch crc D W P p = (Inr i, set_frame P i ?g)" using Some by (simp add: fetch_def)
  moreover have "handles_kept i P (set_frame P i ?g)" using i(1) by (simp add: handles_kept_def)
  ultimately show ?thesis using m i Some by (auto simp: pool_view_def)
next
  case None
  from evict_ok [OF inv] room None obtain i P1 where e: "evict_victim crc D W P = (Inr i, P1)" "evicted i P P1" by auto
  have P1: "pool_inv P1" "pool_view cur P1 = pool_view cur P" "keeps_pinned P P1" "i < length (bp_frames P1)"
    "fr_page_id (bp_frames P1 ! i) = None" "fmlookup (bp_table P1) p = None"
    "dv_page_count D (bp_device P1) = dv_page_count D (bp_device P)"
    using e(2) None by (auto simp: evicted_def)
  have r: "dv_read_page D (bp_device P1) p = Inr (cur (bp_device P1) p)" "length (cur (bp_device P1) p) = PAGE_SIZE"
    using read_law [OF pool_invD(1) [OF P1(1)]] p P1(7) by auto
  have v: "verify_checksum crc (cur (bp_device P1) p)" using P1(1,6,7) p by (simp add: pool_inv_def)
  define P' where "P' = install P1 i p (cur (bp_device P1) p) False"
  have p1: "unat p < dv_page_count D (bp_device P1)" using p P1(7) by simp
  have "pool_pre p P1" using P1(1) by (simp add: pool_inv_def pool_pre_def)
  note o = install_ok [OF this P1(4,5,6) p1 r(2) _ _ P'_def]
  have "pool_view cur P1 p = page_core (cur (bp_device P1) p)" using P1(6) by (simp add: pool_view_def)
  then have view: "pool_view cur P' = pool_view cur P" "page_core (fr_data (bp_frames P' ! i)) = pool_view cur P p"
    using o(2,4) v P1(2) by auto
  have "handles_kept i P P'" using P1(3,5) o(6,7) v by (auto simp: handles_kept_def keeps_pinned_def)
  moreover have "fetch crc D W P p = (Inr i, P')" using None e(1) r(1) v by (simp add: fetch_def P'_def)
  ultimately show ?thesis using o(1,3,5,6) v view P1(4,7) by auto
qed

lemma evicted_unpinned:
  assumes e: "evicted i P P'"
  shows "unpinned P"
proof (rule ccontr)
  assume u: "\<not> unpinned P"
  have i: "i < length (bp_frames P)" using e by (auto simp: evicted_def keeps_pinned_def)
  then have "fr_page_id (bp_frames P ! i) \<noteq> None" "0 < fr_pin_count (bp_frames P ! i)"
    using u nth_mem [OF i] by (auto simp: unpinned_def word_gt_0)
  then show False using e i by (auto simp: evicted_def keeps_pinned_def)
qed

lemma fetch_refuses:
  "pool_inv P \<Longrightarrow> fmlookup (bp_table P) p = None \<Longrightarrow> \<not> unpinned P \<Longrightarrow> fst (fetch crc D W P p) = Inl AllPinned"
  using evict_ok [of P] evicted_unpinned by (auto simp: fetch_def)

lemma zero_page_ok: "wok w \<Longrightarrow> settled w (header_lsn (replicate PAGE_SIZE 0)) \<and> logged w (header_lsn (replicate PAGE_SIZE 0))"
  using zero_law by (simp add: header_lsn_zero)

lemma extend_pre:
  assumes inv: "pool_inv P" and d: "dv_extend D (bp_device P) 1 = (Inr (), d)" "dv_page_count D (bp_device P) + 1 < 2 ^ 64"
    and p: "p = of_nat (dv_page_count D (bp_device P))"
  shows "pool_pre p (P\<lparr>bp_device := d\<rparr>)" "dv_page_count D d = dv_page_count D (bp_device P) + 1"
    "fmlookup (bp_table P) p = None" "unat p = dv_page_count D (bp_device P)"
    "\<And>q. unat q < dv_page_count D (bp_device P) \<Longrightarrow> pool_view cur (P\<lparr>bp_device := d\<rparr>) q = pool_view cur P q"
proof -
  let ?n = "dv_page_count D (bp_device P)"
  from extend_law [OF pool_invD(1) [OF inv] d(2)] d(1) have e: "ok d" "dv_page_count D d = ?n + 1"
    "\<And>q. unat q < ?n \<Longrightarrow> cur d q = cur (bp_device P) q" "\<And>q. ?n \<le> unat q \<Longrightarrow> unat q < ?n + 1 \<Longrightarrow> cur d q = replicate PAGE_SIZE 0"
    by auto
  then show "dv_page_count D d = ?n + 1" by simp
  show up: "unat p = ?n" using d(2) by (simp add: p unat_of_nat take_bit_nat_eq_self)
  have "unat q < ?n" if "fmlookup (bp_table P) q = Some j" for q j
    using that pool_invD(7) [OF inv] table_frame [OF pool_invD(5) [OF inv]] by (auto simp: frame_ok_def)
  then show none: "fmlookup (bp_table P) p = None" using up by (cases "fmlookup (bp_table P) p") force+
  show "pool_view cur (P\<lparr>bp_device := d\<rparr>) q = pool_view cur P q" if "unat q < ?n" for q
    using e(3) [OF that] by (simp add: pool_view_def split: option.split)
  have "settled (bp_wal P) (header_lsn (cur d q)) \<and> settled (bp_wal P) (header_lsn (durable d q))" if "unat q < ?n + 1" for q
    using that e(2-4) extend_durable_law [OF pool_invD(1) [OF inv] d(1), of q] inv zero_page_ok [OF pool_invD(2) [OF inv]]
    by (cases "unat q < ?n") (auto simp: pool_inv_def device_ok_def)
  then have dev: "device_ok d (bp_wal P)" using e(1,2) d(2) inv by (simp add: pool_inv_def device_ok_def)
  have "frame_ok d (bp_wal P) fr" if "frame_ok (bp_device P) (bp_wal P) fr" for fr
    using that e(2,3) by (auto simp: frame_ok_def)
  moreover have "verify_checksum crc (cur d q)" if "unat q < ?n + 1" "fmlookup (bp_table P) q = None" "q \<noteq> p" for q
    using that up word_unat_eq_iff [of q p] e(3) [of q] inv by (auto simp: pool_inv_def)
  ultimately show "pool_pre p (P\<lparr>bp_device := d\<rparr>)"
    using inv dev e(2) by (simp add: pool_inv_def pool_pre_def table_ok_def)
qed

lemma new_page_ok:
  assumes inv: "pool_inv P" and room: "unpinned P" "dv_page_count D (bp_device P) + 1 < 2 ^ 64"
    and p: "p = of_nat (dv_page_count D (bp_device P))"
  shows "\<exists>i P'. new_page crc D W P = (Inr (i, p), P') \<and> pool_inv P' \<and>
    dv_page_count D (bp_device P') = dv_page_count D (bp_device P) + 1 \<and>
    pool_view cur P' p = page_core (fresh_page p) \<and>
    (\<forall>q. unat q < dv_page_count D (bp_device P) \<longrightarrow> pool_view cur P' q = pool_view cur P q) \<and>
    i < length (bp_frames P') \<and> fr_page_id (bp_frames P' ! i) = Some p \<and> handles_kept i P P'"
proof -
  from evict_ok [OF inv] room(1) obtain i P1 where e: "evict_victim crc D W P = (Inr i, P1)" "evicted i P P1" by auto
  have P1: "pool_inv P1" "pool_view cur P1 = pool_view cur P" "keeps_pinned P P1" "i < length (bp_frames P1)"
    "fr_page_id (bp_frames P1 ! i) = None" "dv_page_count D (bp_device P1) = dv_page_count D (bp_device P)"
    using e(2) by (auto simp: evicted_def)
  from extend_law [OF pool_invD(1) [OF P1(1)], of 1] room(2) P1(6) obtain d where
    d: "dv_extend D (bp_device P1) 1 = (Inr (), d)" by auto
  note x = extend_pre [OF P1(1) d _ p [folded P1(6)]]
  define P' where "P' = install (P1\<lparr>bp_device := d\<rparr>) i p (write_checksum crc (fresh_page p)) True"
  have data: "length (write_checksum crc (fresh_page p)) = PAGE_SIZE"
    "logged (bp_wal P1) (header_lsn (write_checksum crc (fresh_page p)))" "page_core (write_checksum crc (fresh_page p)) = page_core (fresh_page p)"
    using zero_page_ok [OF pool_invD(2) [OF P1(1)]] by (simp_all add: fresh_page_def header_lsn_ops)
  have o: "pool_inv P'" "pool_view cur P' = (pool_view cur (P1\<lparr>bp_device := d\<rparr>))(p := page_core (fresh_page p))"
    "fr_page_id (bp_frames P' ! i) = Some p" "bp_device P' = d" "length (bp_frames P') = length (bp_frames P1)"
    "\<And>j. j \<noteq> i \<Longrightarrow> bp_frames P' ! j = bp_frames P1 ! j"
    using install_ok [OF x(1), of i "write_checksum crc (fresh_page p)" True P'] P1 x(2-4) data room(2) by (simp_all add: P'_def)
  have "handles_kept i P P'" using P1(3,5) o(5,6) by (auto simp: handles_kept_def keeps_pinned_def)
  moreover have "new_page crc D W P = (Inr (i, p), P')"
    using e(1) d P1(6) p by (simp add: new_page_def Let_def P'_def fresh_page_def)
  moreover have "pool_view cur P' q = pool_view cur P q" if "unat q < dv_page_count D (bp_device P)" for q
  proof -
    have "q \<noteq> p" using x(4) that room(2) P1(6) by auto
    then show ?thesis using o(2) x(5) [of q] that room(2) P1(2,6) by simp
  qed
  ultimately show ?thesis using o(1-5) x(2) P1(4,6) room(2) by auto
qed

text \<open>Whatever a fetch or an allocation returns, it changes no page.\<close>

lemma new_page_inv:
  assumes inv: "pool_inv P" "dv_page_count D (bp_device P) + 1 < 2 ^ 64"
  shows "pool_inv (snd (new_page crc D W P))"
proof (cases "unpinned P")
  case True
  then show ?thesis using new_page_ok [OF inv(1) True inv(2) refl] by auto
next
  case False
  then show ?thesis using evict_ok [OF inv(1)] evicted_unpinned by (auto simp: new_page_def)
qed

lemma fetch_inv:
  assumes inv: "pool_inv P"
  shows "pool_inv (snd (fetch crc D W P p))" "pool_view cur (snd (fetch crc D W P p)) = pool_view cur P"
proof -
  have "pool_inv (snd (fetch crc D W P p)) \<and> pool_view cur (snd (fetch crc D W P p)) = pool_view cur P"
  proof (cases "unat p < dv_page_count D (bp_device P) \<and> (fmlookup (bp_table P) p \<noteq> None \<or> unpinned P)")
    case True
    then show ?thesis using fetch_ok [OF inv, of p] by auto
  next
    case False
    have none: "fmlookup (bp_table P) p = None"
      using False pool_invD(7) [OF inv] table_frame [OF pool_invD(5) [OF inv]]
      by (cases "fmlookup (bp_table P) p") (auto simp: frame_ok_def)
    from evict_ok [OF inv] consider i P1 where "evict_victim crc D W P = (Inr i, P1)" "evicted i P P1"
      | P1 where "evict_victim crc D W P = (Inl AllPinned, P1)" "pool_inv P1" "pool_view cur P1 = pool_view cur P" by blast
    then show ?thesis
    proof cases
      case 1
      then have "dv_page_count D (bp_device P1) \<le> unat p" "pool_inv P1" "pool_view cur P1 = pool_view cur P"
        using False evicted_unpinned [OF 1(2)] by (auto simp: evicted_def)
      then show ?thesis using 1(1) none range_law [OF pool_invD(1), of P1 p] by (auto simp: fetch_def)
    qed (use none in \<open>simp add: fetch_def\<close>)
  qed
  then show "pool_inv (snd (fetch crc D W P p))" "pool_view cur (snd (fetch crc D W P p)) = pool_view cur P" by simp_all
qed

text \<open>A page of a frame that holds one may be changed freely, as long as its LSN is one of the log.\<close>

lemma page_mut_ok:
  assumes inv: "pool_inv P" and f: "f < length (bp_frames P)" "fr_page_id (bp_frames P ! f) = Some p"
    and g: "length (g (fr_data (bp_frames P ! f))) = PAGE_SIZE" "logged (bp_wal P) (header_lsn (g (fr_data (bp_frames P ! f))))"
    and P': "P' = set_frame P f (\<lambda>fr. fr\<lparr>fr_dirty := True, fr_data := g (fr_data fr)\<rparr>)"
  shows "page_mut P f g = (Inr (), P')" "pool_inv P'"
    "pool_view cur P' = (pool_view cur P)(p := page_core (g (fr_data (bp_frames P ! f))))"
proof -
  note t = table_frame [OF pool_invD(5) [OF inv]]
  show "page_mut P f g = (Inr (), P')" using f(1) by (simp add: page_mut_def P')
  have "table_ok P'" using pool_invD(5) [OF inv] f(1) by (simp add: table_ok_def P')
  moreover have "frame_ok (bp_device P) (bp_wal P) (bp_frames P' ! j)" if "j < length (bp_frames P)" for j
  proof (cases "f = j")
    case True
    then show ?thesis using pool_invD(7) [OF inv that] f g by (simp add: frame_ok_def P')
  qed (use pool_invD(7) [OF inv that] f(1) in \<open>simp add: P'\<close>)
  ultimately show "pool_inv P'" using inv by (simp add: pool_inv_def P')
  have pf: "fmlookup (bp_table P) p = Some f" using t f by simp
  show "pool_view cur P' = (pool_view cur P)(p := page_core (g (fr_data (bp_frames P ! f))))"
  proof
    fix q
    show "pool_view cur P' q = ((pool_view cur P)(p := page_core (g (fr_data (bp_frames P ! f))))) q"
    proof (cases "q = p")
      case False
      then have "fmlookup (bp_table P) q \<noteq> Some f" using t [of q f] f(2) by auto
      then show ?thesis using False f(1) by (auto simp: pool_view_def P' split: option.split)
    qed (use pf f(1) in \<open>simp add: pool_view_def P'\<close>)
  qed
qed

lemma unpin_ok:
  assumes "pool_inv P" "f < length (bp_frames P)"
  shows "\<exists>P'. unpin P f = (Inr (), P') \<and> pool_inv P' \<and> pool_view cur P' = pool_view cur P \<and> bp_device P' = bp_device P"
  using set_frame_marks [OF assms, of "\<lambda>fr. fr\<lparr>fr_pin_count := (if fr_pin_count fr = 0 then 0 else fr_pin_count fr - 1)\<rparr>"] assms(2)
  by (auto simp: unpin_def)

lemma write_back_all_ok:
  assumes "pool_inv P" "\<forall>i \<in> set is. i < length (bp_frames P)"
    "\<forall>i < length (bp_frames P). fr_dirty (bp_frames P ! i) \<longrightarrow> i \<in> set is"
  shows "\<exists>P'. write_back_all crc D W is P = (Inr (), P') \<and> pool_inv P' \<and> pool_view cur P' = pool_view cur P \<and>
    keeps_pinned P P' \<and> dv_page_count D (bp_device P') = dv_page_count D (bp_device P) \<and>
    (\<forall>i < length (bp_frames P'). \<not> fr_dirty (bp_frames P' ! i))"
  using assms
proof (induction "is" arbitrary: P)
  case (Cons i "is")
  from write_back_ok [OF Cons.prems(1), of i] Cons.prems(2) obtain P1 where
    P1: "write_back crc D W P i = (Inr (), P1)" "written_back i P P1" by auto
  have w: "pool_inv P1" "length (bp_frames P1) = length (bp_frames P)" "pool_view cur P1 = pool_view cur P"
    "dv_page_count D (bp_device P1) = dv_page_count D (bp_device P)"
    and d: "\<And>j. j < length (bp_frames P) \<Longrightarrow> fr_dirty (bp_frames P1 ! j) \<Longrightarrow> fr_dirty (bp_frames P ! j) \<and> j \<noteq> i"
    using P1(2) by (auto simp: written_back_def)
  have "\<forall>j \<in> set is. j < length (bp_frames P1)" using Cons.prems(2) w(2) by simp
  moreover have "\<forall>j < length (bp_frames P1). fr_dirty (bp_frames P1 ! j) \<longrightarrow> j \<in> set is"
    using Cons.prems(3) d w(2) by (metis set_ConsD)
  ultimately obtain P' where P': "write_back_all crc D W is P1 = (Inr (), P')" "pool_inv P'" "pool_view cur P' = pool_view cur P1"
    "keeps_pinned P1 P'" "dv_page_count D (bp_device P') = dv_page_count D (bp_device P1)"
    "\<forall>i < length (bp_frames P'). \<not> fr_dirty (bp_frames P' ! i)" using Cons.IH [OF w(1)] by blast
  have "write_back_all crc D W (i # is) P = (Inr (), P')" using P1(1) P'(1) by simp
  then show ?case using P' w(3,4) keeps_pinned_trans [OF written_back_keeps [OF P1(2)]] by force
qed simp

lemma flush_all_ok:
  assumes inv: "pool_inv P"
  shows "\<exists>P'. flush_all crc D W P = (Inr (), P') \<and> pool_inv P' \<and> keeps_pinned P P' \<and>
    dv_page_count D (bp_device P') = dv_page_count D (bp_device P) \<and>
    (\<forall>p. unat p < dv_page_count D (bp_device P) \<longrightarrow>
      pool_view cur P' p = pool_view cur P p \<and> page_core (durable (bp_device P') p) = pool_view cur P p)"
proof -
  let ?is = "filter (\<lambda>i. fr_dirty (bp_frames P ! i)) [0..<length (bp_frames P)]"
  from write_back_all_ok [OF inv, of ?is] obtain P1 where
    P1: "write_back_all crc D W ?is P = (Inr (), P1)" "pool_inv P1" "pool_view cur P1 = pool_view cur P" "keeps_pinned P P1"
    "dv_page_count D (bp_device P1) = dv_page_count D (bp_device P)" "\<And>i. i < length (bp_frames P1) \<Longrightarrow> \<not> fr_dirty (bp_frames P1 ! i)"
    by auto
  from sync_law [OF pool_invD(1) [OF P1(2)]] obtain d where
    d: "dv_sync_all D (bp_device P1) = (Inr (), d)" "ok d" "dv_page_count D d = dv_page_count D (bp_device P1)"
    "\<And>p. unat p < dv_page_count D (bp_device P1) \<Longrightarrow> cur d p = cur (bp_device P1) p \<and> durable d p = cur (bp_device P1) p" by auto
  define P' where "P' = P1\<lparr>bp_device := d\<rparr>"
  have "device_ok d (bp_wal P1)" using P1(2) d by (auto simp: pool_inv_def device_ok_def)
  moreover have "frame_ok d (bp_wal P1) fr" if "frame_ok (bp_device P1) (bp_wal P1) fr" for fr
    using that d(3,4) by (auto simp: frame_ok_def)
  ultimately have "pool_inv P'" using P1(2) d(3,4) by (auto simp: pool_inv_def table_ok_def P'_def)
  moreover have "keeps_pinned P P'" using P1(4) by (simp add: keeps_pinned_def P'_def)
  moreover have "flush_all crc D W P = (Inr (), P')" using P1(1) d(1) by (simp add: flush_all_def P'_def)
  moreover have "pool_view cur P1 p = page_core (cur (bp_device P1) p)" if "unat p < dv_page_count D (bp_device P1)" for p
    using P1(6) pool_invD(7) [OF P1(2)] table_frame [OF pool_invD(5) [OF P1(2)]]
    by (auto simp: pool_view_def frame_ok_def split: option.split)
  moreover have "pool_view cur P' p = pool_view cur P1 p" if "unat p < dv_page_count D (bp_device P1)" for p
    using d(4) [OF that] by (auto simp: pool_view_def P'_def split: option.split)
  ultimately show ?thesis using P1(3,5) d(3,4) by (intro exI [of _ P']) (simp add: P'_def)
qed

lemma with_wal_inv:
  assumes "with_wal d w capacity = Some P" "device_ok d w" "\<forall>p. unat p < dv_page_count D d \<longrightarrow> verify_checksum crc (cur d p)"
  shows "pool_inv P" "pool_view cur P = (\<lambda>p. page_core (cur d p))"
  using assms by (auto simp: with_wal_def pool_inv_def table_ok_def frame_ok_def frame_empty_def pool_view_def split: if_splits)

text \<open>The log may grow under the pool.\<close>

lemma wal_step_ok:
  assumes "pool_inv P" "wok w" "\<And>l. logged (bp_wal P) l \<Longrightarrow> logged w l" "\<And>l. settled (bp_wal P) l \<Longrightarrow> settled w l"
  shows "pool_inv (P\<lparr>bp_wal := w\<rparr>)" "pool_view cur (P\<lparr>bp_wal := w\<rparr>) = pool_view cur P"
proof -
  show "pool_view cur (P\<lparr>bp_wal := w\<rparr>) = pool_view cur P" by (simp add: pool_view_def fun_eq_iff split: option.split)
  have "frame_ok d w fr" if "frame_ok d (bp_wal P) fr" for d fr using that assms(3) unfolding frame_ok_def by blast
  then show "pool_inv (P\<lparr>bp_wal := w\<rparr>)" using assms by (simp add: pool_inv_def device_ok_def table_ok_def)
qed

end

end
