(* ===== verification/Buffer_Pool_Properties.thy ===== *)
theory Buffer_Pool_Properties
  imports Buffer_Pool_Invariant Wal_Crash
begin

text \<open>
  The buffer pool over the in-memory device with the log manager as its write-ahead rule. A client
  fetches, allocates, changes, unpins and flushes pages while the log is written under it; a page it
  changes is one it holds, and the LSN it stamps is one of the log.
\<close>

subsection \<open>The providers meet the contracts\<close>

interpretation mem_crash: crash_device mem_device_ops mem_device_ok current_page mem_durable
proof
  fix d and p :: page_id assume "mem_device_ok d" "dv_page_count mem_device_ops d \<le> unat p"
  then show "\<exists>e. dv_read_page mem_device_ops d p = Inl e"
    by (simp add: mem_device_ops_def mem_page_count_def mem_read_page_def)
next
  fix d d' and p q :: page_id and b :: page
  assume "mem_device_ok d" "dv_write_page mem_device_ops d p b = (Inr (), d')"
  then have "md_persisted d' = md_persisted d"
    by (auto simp: mem_device_ops_def mem_write_page_def tear_prefix_def tear_sectors_def mem_device_ok_def write_target_def split: if_splits)
  then show "mem_durable d' q = mem_durable d q \<or> mem_durable d' q = current_page d' q"
    by (simp add: mem_durable_def current_page_def device_crash_def)
next
  fix d d' n and q :: page_id
  assume "mem_device_ok d" "dv_extend mem_device_ops d n = (Inr (), d')" "unat q < dv_page_count mem_device_ops d'"
  then have "md_persisted d' = md_persisted d @ replicate n (replicate PAGE_SIZE 0)" "unat q < length (md_persisted d) + n"
    by (auto simp: mem_device_ops_def mem_extend_def mem_device_ok_def mem_page_count_def Let_def split: if_splits)
  then show "mem_durable d' q = (if unat q < dv_page_count mem_device_ops d then mem_durable d q else replicate PAGE_SIZE 0)"
    by (auto simp: mem_durable_def current_page_def device_crash_def mem_device_ops_def mem_page_count_def nth_append)
qed

definition rule_ok :: "mem_log_sink wal_manager \<Rightarrow> bool" where
  "rule_ok m \<longleftrightarrow> mem_sink_ok (wal_sink m) \<and> \<not> armed_sync_error (wal_sink m) \<and> durable_bytes (wal_sink m) \<noteq> []"

definition lsn_logged :: "mem_log_sink wal_manager \<Rightarrow> lsn \<Rightarrow> bool" where
  "lsn_logged m l \<longleftrightarrow> unat l < mem_buffered_len (wal_sink m)"

definition lsn_durable :: "mem_log_sink wal_manager \<Rightarrow> lsn \<Rightarrow> bool" where
  "lsn_durable m l \<longleftrightarrow> unat l < length (durable_bytes (wal_sink m))"

lemma mem_sync_rule:
  assumes "mem_sink_ok s" "\<not> armed_sync_error s"
  shows "\<exists>s'. mem_sync s = (Inr (), s') \<and> mem_sink_ok s' \<and> \<not> armed_sync_error s' \<and>
    length (durable_bytes s') = mem_buffered_len s \<and> mem_buffered_len s' = mem_buffered_len s"
proof -
  define s' where "s' = s\<lparr>snk_tail := snk_tail s @ snk_written s @ snk_pending s, snk_written := [], snk_pending := []\<rparr>"
  have "mem_sync s = (Inr (), s')" "mem_sink_ok s'" using assms by (simp_all add: mem_sync_def s'_def mem_sink_ok_def)
  moreover have "\<not> armed_sync_error s'" "durable_end s' = mem_buffered_len s" "mem_buffered_len s' = mem_buffered_len s"
    using assms by (simp_all add: s'_def mem_buffered_len_def durable_end_def)
  ultimately show ?thesis using length_durable_bytes by auto
qed

lemma durable_le_buffered: "mem_sink_ok s \<Longrightarrow> length (durable_bytes s) \<le> mem_buffered_len s"
  by (simp add: length_durable_bytes mem_buffered_len_def)

interpretation log_rule: wal_contract "shared_wal mem_sink_ops" rule_ok lsn_logged lsn_durable
proof
  fix m l assume m: "rule_ok m" "lsn_logged m l"
  then have ok: "mem_sink_ok (wal_sink m)" "\<not> armed_sync_error (wal_sink m)" by (simp_all add: rule_ok_def)
  from mem_sync_rule [OF this] obtain s' where s': "mem_sync (wal_sink m) = (Inr (), s')" "mem_sink_ok s'" "\<not> armed_sync_error s'"
    "length (durable_bytes s') = mem_buffered_len (wal_sink m)" "mem_buffered_len s' = mem_buffered_len (wal_sink m)" by blast
  have len: "sk_durable_len mem_sink_ops (wal_sink m) = length (durable_bytes (wal_sink m))"
    by (rule mem_sink.durable_len_law [OF ok(1)])
  have "\<exists>m'. ensure_durable mem_sink_ops m l = (Inr (), m') \<and> rule_ok m' \<and> lsn_durable m' l \<and>
    (\<forall>k. lsn_logged m k \<longrightarrow> lsn_logged m' k) \<and> (\<forall>k. lsn_durable m k \<longrightarrow> lsn_durable m' k)"
  proof (cases "length (durable_bytes (wal_sink m)) \<le> unat l")
    case True
    have "sk_sync mem_sink_ops = mem_sync" by (simp add: mem_sink_ops_def)
    then have "ensure_durable mem_sink_ops m l = (Inr (), m\<lparr>wal_sink := s'\<rparr>)"
      using True len s'(1) by (simp add: ensure_durable_def harden_def)
    moreover have "durable_bytes s' \<noteq> []" using s'(4) durable_le_buffered [OF ok(1)] m(1) by (auto simp: rule_ok_def)
    ultimately show ?thesis using s' m durable_le_buffered [OF ok(1)] by (auto simp: rule_ok_def lsn_logged_def lsn_durable_def)
  next
    case False
    then show ?thesis using m len by (simp add: ensure_durable_def lsn_durable_def)
  qed
  then show "\<exists>m'. wr_ensure_durable (shared_wal mem_sink_ops) m l = (Inr (), m') \<and> rule_ok m' \<and> lsn_durable m' l \<and>
    (\<forall>k. lsn_logged m k \<longrightarrow> lsn_logged m' k) \<and> (\<forall>k. lsn_durable m k \<longrightarrow> lsn_durable m' k)"
    by (simp add: shared_wal_def)
next
  fix m assume "rule_ok m"
  then show "lsn_logged m 0 \<and> lsn_durable m 0"
    using durable_le_buffered [of "wal_sink m"] le_zero_eq by (fastforce simp: rule_ok_def lsn_logged_def lsn_durable_def)
qed

interpretation no_rule: wal_contract no_wal "\<lambda>w. True" "\<lambda>w l. True" "\<lambda>w l. True"
  by unfold_locales (simp_all add: no_wal_def)

interpretation mem_pool: pool_env mem_device_ops mem_device_ok current_page mem_durable
    "shared_wal mem_sink_ops" rule_ok lsn_logged lsn_durable crc for crc ..

text \<open>The log only grows under the calls of its manager.\<close>

definition sink_grows :: "mem_log_sink \<Rightarrow> mem_log_sink \<Rightarrow> bool" where
  "sink_grows s s' \<longleftrightarrow> (mem_sink_ok s \<and> \<not> armed_sync_error s \<longrightarrow> mem_sink_ok s' \<and> \<not> armed_sync_error s' \<and>
     length (durable_bytes s) \<le> length (durable_bytes s') \<and> mem_buffered_len s \<le> mem_buffered_len s')"

lemma sink_grows_refl: "sink_grows s s"
  by (simp add: sink_grows_def)

lemma sink_grows_append: "sink_grows s s1 \<Longrightarrow> sink_grows s (sk_append mem_sink_ops s1 bs)"
  using mem_sink.append_law [of s1 bs] by (auto simp: sink_grows_def mem_sink_ops_def mem_append_def mem_buffered_len_def durable_end_def)

lemma sink_grows_sync: "sink_grows s s1 \<Longrightarrow> sink_grows s (snd (sk_sync mem_sink_ops s1))"
  using mem_sync_rule [of s1] durable_le_buffered [of s1] by (fastforce simp: sink_grows_def mem_sink_ops_def)

lemma do_op_grows: "sink_grows (wal_sink m) (wal_sink (do_op crc mem_sink_ops m op))"
proof (cases op)
  case (OpCheckpoint dpt)
  then show ?thesis using mem_log.sink_of_checkpoint [of crc m dpt]
      sink_grows_sync [OF sink_grows_append [OF sink_grows_append [OF sink_grows_refl]]] by auto
qed (auto simp: wal_begin_def log_update_def log_update_borrowed_def log_update_redo_only_def wal_append_def Let_def
    wal_commit_def commit_at_def commit_at_no_sync_def append_commit_record_def compensate_next_def write_clr_def
    finish_rollback_def ensure_durable_def wal_flush_def mem_log.sink_of_harden mem_log.sink_of_finish_commit
    split: sum.splits option.splits intro!: sink_grows_sync sink_grows_append sink_grows_refl)

subsection \<open>Runs of a client\<close>

type_synonym mem_pool = "(mem_device, mem_log_sink wal_manager) buffer_pool"

inductive pool_step :: "(bytes \<Rightarrow> u32) \<Rightarrow> mem_pool \<Rightarrow> mem_pool \<Rightarrow> bool" for crc where
  step_fetch: "pool_step crc P (snd (fetch crc mem_device_ops (shared_wal mem_sink_ops) P p))"
| step_new: "pool_page_count mem_device_ops P + 1 < 2 ^ 64 \<Longrightarrow>
    pool_step crc P (snd (new_page crc mem_device_ops (shared_wal mem_sink_ops) P))"
| step_mut: "f < length (bp_frames P) \<Longrightarrow> fr_page_id (bp_frames P ! f) \<noteq> None \<Longrightarrow>
    length (g (fr_data (bp_frames P ! f))) = PAGE_SIZE \<Longrightarrow>
    lsn_logged (bp_wal P) (header_lsn (g (fr_data (bp_frames P ! f)))) \<Longrightarrow>
    pool_step crc P (snd (page_mut P f g))"
| step_unpin: "f < length (bp_frames P) \<Longrightarrow> pool_step crc P (snd (unpin P f))"
| step_flush: "f < length (bp_frames P) \<Longrightarrow>
    pool_step crc P (snd (flush crc mem_device_ops (shared_wal mem_sink_ops) P f))"
| step_flush_all: "pool_step crc P (snd (flush_all crc mem_device_ops (shared_wal mem_sink_ops) P))"
| step_log: "pool_step crc P (P\<lparr>bp_wal := do_op crc mem_sink_ops (bp_wal P) op\<rparr>)"

text \<open>A device and a log the pool may be opened on: sound pages that are not ahead of the log.\<close>

definition pool_start :: "(bytes \<Rightarrow> u32) \<Rightarrow> mem_device \<Rightarrow> mem_log_sink wal_manager \<Rightarrow> bool" where
  "pool_start crc d m \<longleftrightarrow> mem_device_ok d \<and> rule_ok m \<and> length (md_persisted d) < 2 ^ 64 \<and>
     (\<forall>p. unat p < length (md_persisted d) \<longrightarrow> verify_checksum crc (current_page d p) \<and>
        lsn_durable m (header_lsn (current_page d p)) \<and> lsn_durable m (header_lsn (mem_durable d p)))"

definition pool_run :: "(bytes \<Rightarrow> u32) \<Rightarrow> mem_pool \<Rightarrow> bool" where
  "pool_run crc P \<longleftrightarrow> (\<exists>d m capacity P0. pool_start crc d m \<and> with_wal d m capacity = Some P0 \<and> (pool_step crc)\<^sup>*\<^sup>* P0 P)"

lemma mem_count [simp]: "dv_page_count mem_device_ops d = length (md_persisted d)"
  by (simp add: mem_device_ops_def mem_page_count_def)

lemma pool_step_inv: "pool_step crc P P' \<Longrightarrow> mem_pool.pool_inv crc P \<Longrightarrow> mem_pool.pool_inv crc P'"
proof (induction rule: pool_step.induct)
  case (step_mut f P g)
  then show ?case using mem_pool.page_mut_ok(1,2) [of crc P f _ g] by auto
next
  case (step_flush f P)
  then show ?case using mem_pool.write_back_ok [of crc P f] by (auto simp: flush_def mem_pool.written_back_def)
next
  case (step_flush_all P)
  then show ?case using mem_pool.flush_all_ok [of crc P] by auto
next
  case (step_unpin f P)
  then show ?case using mem_pool.unpin_ok [of crc P f] by auto
next
  case (step_log P op)
  have "rule_ok (bp_wal P)" using step_log by (rule mem_pool.pool_invD(2))
  then have w: "rule_ok (do_op crc mem_sink_ops (bp_wal P) op)"
    "lsn_logged (bp_wal P) l \<Longrightarrow> lsn_logged (do_op crc mem_sink_ops (bp_wal P) op) l"
    "lsn_durable (bp_wal P) l \<Longrightarrow> lsn_durable (do_op crc mem_sink_ops (bp_wal P) op) l" for l
    using do_op_grows [of "bp_wal P" crc op] by (auto simp: sink_grows_def rule_ok_def lsn_logged_def lsn_durable_def)
  show ?case by (rule mem_pool.wal_step_ok(1) [OF step_log w])
qed (use mem_pool.fetch_inv mem_pool.new_page_inv in \<open>simp_all add: pool_page_count_def\<close>)

lemma pool_run_inv:
  assumes "pool_run crc P"
  shows "mem_pool.pool_inv crc P"
proof -
  obtain d m capacity P0 where s: "pool_start crc d m" "with_wal d m capacity = Some P0" "(pool_step crc)\<^sup>*\<^sup>* P0 P"
    using assms by (auto simp: pool_run_def)
  have "mem_pool.pool_inv crc P0"
    using s(1) by (intro mem_pool.with_wal_inv(1) [OF s(2)]) (simp_all add: pool_start_def mem_pool.device_ok_def)
  with s(3) show ?thesis by (induction rule: rtranclp_induct) (auto intro: pool_step_inv)
qed

text \<open>A pool of one frame over an empty device and a new log, with one page allocated.\<close>

definition demo_pool0 :: mem_pool where
  "demo_pool0 = \<lparr>bp_device = mem_device_new 0,
     bp_wal = \<lparr>wal_sink = mem_sink_new\<lparr>snk_tail := wal_header\<rparr>, wal_active = fmempty\<rparr>,
     bp_frames = [frame_empty], bp_table = fmempty, bp_clock = 0\<rparr>"

lemma demo_pool0_run: "pool_run (\<lambda>_. 0) demo_pool0"
proof -
  let ?m = "\<lparr>wal_sink = mem_sink_new\<lparr>snk_tail := wal_header\<rparr>, wal_active = fmempty\<rparr>"
  have "length wal_header = 8" by (simp add: wal_header_def)
  then have "wal_header \<noteq> []" by (metis list.size(3) zero_neq_numeral)
  then have "rule_ok ?m"
    by (simp add: rule_ok_def mem_sink_ok_def mem_sink_new_def durable_bytes_def durable_end_def copy_at_def)
  then have "pool_start (\<lambda>_. 0) (mem_device_new 0) ?m" by (simp add: pool_start_def mem_device_ok_def mem_device_new_def)
  moreover have "with_wal (mem_device_new 0) ?m 1 = Some demo_pool0" by (simp add: with_wal_def demo_pool0_def)
  ultimately show ?thesis by (auto simp: pool_run_def)
qed

lemma pool_run_step: "pool_run crc P \<Longrightarrow> pool_step crc P P' \<Longrightarrow> pool_run crc P'"
  unfolding pool_run_def by (meson rtranclp.rtrancl_into_rtrancl)

lemma demo_pool1:
  "\<exists>P. pool_run (\<lambda>_. 0) P \<and> pool_page_count mem_device_ops P = 1 \<and> fmlookup (bp_table P) 0 \<noteq> None \<and>
    pool_view current_page P 0 = page_core (fresh_page 0)"
proof -
  note inv = pool_run_inv [OF demo_pool0_run]
  have c: "dv_page_count mem_device_ops (bp_device demo_pool0) = 0" by (simp add: demo_pool0_def mem_device_new_def)
  have "unpinned demo_pool0" by (simp add: unpinned_def demo_pool0_def frame_empty_def)
  from mem_pool.new_page_ok [OF inv this _ refl, unfolded c] obtain f P where
    P: "new_page (\<lambda>_. 0) mem_device_ops (shared_wal mem_sink_ops) demo_pool0 = (Inr (f, 0), P)"
    "dv_page_count mem_device_ops (bp_device P) = 1" "pool_view current_page P 0 = page_core (fresh_page 0)"
    "f < length (bp_frames P)" "fr_page_id (bp_frames P ! f) = Some 0" by auto
  have run: "pool_run (\<lambda>_. 0) P"
    using pool_run_step [OF demo_pool0_run pool_step.step_new] P(1) c by (simp add: pool_page_count_def)
  have "fmlookup (bp_table P) 0 = Some f"
    using mem_pool.table_frame [OF mem_pool.pool_invD(5) [OF pool_run_inv [OF run]]] P(4,5) by simp
  then show ?thesis using run P(2,3) unfolding pool_page_count_def by blast
qed

text \<open>
  C6: The pool presents a page store. In every reachable state a page of the device can be fetched
  unless it is not cached and every frame is pinned, in which case the pool says so; the frame handed
  out holds the page with the content last given to it, a fetch changes the content of no page and no
  pinned frame, an allocation adds one fresh page, and a change through a frame changes that page only.
\<close>

theorem pool_presents_page_store:
  assumes "pool_run crc P"
  shows "(\<forall>p. unat p < pool_page_count mem_device_ops P \<longrightarrow> fmlookup (bp_table P) p \<noteq> None \<or> unpinned P \<longrightarrow>
      (\<exists>f P'. fetch crc mem_device_ops (shared_wal mem_sink_ops) P p = (Inr f, P') \<and>
        f < length (bp_frames P') \<and> fr_page_id (bp_frames P' ! f) = Some p \<and>
        page_core (fr_data (bp_frames P' ! f)) = pool_view current_page P p \<and>
        pool_view current_page P' = pool_view current_page P \<and> handles_kept f P P')) \<and>
    (\<forall>p. fmlookup (bp_table P) p = None \<longrightarrow> \<not> unpinned P \<longrightarrow>
      fst (fetch crc mem_device_ops (shared_wal mem_sink_ops) P p) = Inl AllPinned) \<and>
    (unpinned P \<longrightarrow> pool_page_count mem_device_ops P + 1 < 2 ^ 64 \<longrightarrow>
      (\<exists>f P'. new_page crc mem_device_ops (shared_wal mem_sink_ops) P = (Inr (f, of_nat (pool_page_count mem_device_ops P)), P') \<and>
        pool_page_count mem_device_ops P' = pool_page_count mem_device_ops P + 1 \<and>
        pool_view current_page P' (of_nat (pool_page_count mem_device_ops P)) =
          page_core (fresh_page (of_nat (pool_page_count mem_device_ops P))) \<and>
        (\<forall>q. unat q < pool_page_count mem_device_ops P \<longrightarrow> pool_view current_page P' q = pool_view current_page P q) \<and>
        handles_kept f P P')) \<and>
    (\<forall>f p g. f < length (bp_frames P) \<and> fr_page_id (bp_frames P ! f) = Some p \<and>
      length (g (fr_data (bp_frames P ! f))) = PAGE_SIZE \<and> lsn_logged (bp_wal P) (header_lsn (g (fr_data (bp_frames P ! f)))) \<longrightarrow>
      (\<exists>P'. page_mut P f g = (Inr (), P') \<and>
        pool_view current_page P' = (pool_view current_page P)(p := page_core (g (fr_data (bp_frames P ! f))))))"
proof -
  note inv = pool_run_inv [OF assms]
  show ?thesis
    using mem_pool.fetch_ok [OF inv] mem_pool.fetch_refuses [OF inv] mem_pool.new_page_ok [OF inv _ _ refl]
      mem_pool.page_mut_ok [OF inv _ _ _ _ refl]
    unfolding pool_page_count_def by (intro conjI allI impI) (blast+)
qed

theorem pool_presents_page_store_witness:
  "\<exists>P f P'. pool_page_count mem_device_ops P = 1 \<and> fetch (\<lambda>_. 0) mem_device_ops (shared_wal mem_sink_ops) P 0 = (Inr f, P') \<and>
    page_core (fr_data (bp_frames P' ! f)) = page_core (fresh_page 0)"
proof -
  obtain P where P: "pool_run (\<lambda>_. 0) P" "pool_page_count mem_device_ops P = 1" "fmlookup (bp_table P) 0 \<noteq> None"
    "pool_view current_page P 0 = page_core (fresh_page 0)" using demo_pool1 by blast
  have "unat (0 :: page_id) < pool_page_count mem_device_ops P" using P(2) by simp
  then obtain f P' where "fetch (\<lambda>_. 0) mem_device_ops (shared_wal mem_sink_ops) P 0 = (Inr f, P')"
    "page_core (fr_data (bp_frames P' ! f)) = pool_view current_page P 0"
    using pool_presents_page_store [OF P(1)] P(3) by meson
  then show ?thesis using P(2,4) by metis
qed

text \<open>
  C5: The log before the data. In every reachable state, every page image a crash leaves on the device
  has a page LSN inside the part of the log the crash leaves, whatever was evicted or flushed when, and a
  \<^verbatim>\<open>flush_all\<close> returns with every page of the pool on the device, where a crash leaves it.
\<close>

theorem pages_never_overtake_the_log:
  assumes "pool_run crc P"
  shows "(\<forall>p. unat p < pool_page_count mem_device_ops P \<longrightarrow>
      unat (header_lsn (current_page (device_crash (bp_device P)) p)) < length (durable_bytes (sink_crash (wal_sink (bp_wal P))))) \<and>
    (\<exists>P'. flush_all crc mem_device_ops (shared_wal mem_sink_ops) P = (Inr (), P') \<and>
      pool_page_count mem_device_ops P' = pool_page_count mem_device_ops P \<and>
      (\<forall>p. unat p < pool_page_count mem_device_ops P \<longrightarrow>
        page_core (current_page (device_crash (bp_device P')) p) = pool_view current_page P p))"
proof -
  note inv = pool_run_inv [OF assms]
  have "durable_bytes (sink_crash s) = durable_bytes s" for s
    by (simp add: sink_crash_def durable_bytes_def durable_end_def)
  then show ?thesis using mem_pool.pool_invD(6) [OF inv] mem_pool.flush_all_ok [OF inv]
    by (auto simp: mem_pool.device_ok_def lsn_durable_def mem_durable_def pool_page_count_def)
qed

theorem pages_never_overtake_the_log_witness:
  "\<exists>P :: mem_pool. pool_page_count mem_device_ops P = 1 \<and>
    unat (header_lsn (current_page (device_crash (bp_device P)) 0)) < length (durable_bytes (sink_crash (wal_sink (bp_wal P))))"
proof -
  obtain P where P: "pool_run (\<lambda>_. 0) P" "pool_page_count mem_device_ops P = 1" using demo_pool1 by blast
  have "unat (header_lsn (current_page (device_crash (bp_device P)) 0)) < length (durable_bytes (sink_crash (wal_sink (bp_wal P))))"
    using pages_never_overtake_the_log [OF P(1)] P(2) by simp
  then show ?thesis using P(2) by blast
qed

end
