(* ===== verification/Spec2Isabelle.thy ===== *)
theory Spec2Isabelle
  imports Lifecycle_Properties Serializability_Properties Wal_Properties Page_Properties Columnar_Properties Buffer_Pool_Properties
begin

text \<open>
  A verification library for the transactional core of Graphus, a labelled-property-graph database
  server. All paths are relative to \<^verbatim>\<open>src/crates\<close>.

  \<^bold>\<open>The program and how its parts interact.\<close> A client's transaction runs in the manager of
  \<^verbatim>\<open>graphus-txn\<close>: it draws its snapshot and its commit timestamp from the oracle, reads and writes
  version chains through the store contract, and is validated by the conflict tracker before it may
  commit. Durability is the business of \<^verbatim>\<open>graphus-wal\<close>: changes of pages are logged before the pages
  are written, a commit is acknowledged once its record is durable, and after a crash recovery scans
  the log, repeats history and takes the uncommitted transactions back. Pages live on the device of
  \<^verbatim>\<open>graphus-io\<close>, are cached by the buffer pool of \<^verbatim>\<open>graphus-bufpool\<close>, which writes a dirty page only
  after it has asked the log to be durable up to the page's LSN, and have the header and record
  layout of \<^verbatim>\<open>graphus-bufpool/src/page.rs\<close> and \<^verbatim>\<open>graphus-storage/src/paging.rs\<close>. Cold property columns
  are compressed by the codecs of \<^verbatim>\<open>graphus-columnar\<close>.

  \<^bold>\<open>Conventions.\<close> A Rust \<^verbatim>\<open>u64\<close> is a \<open>64 word\<close> and wraps; \<^verbatim>\<open>i64\<close> and \<^verbatim>\<open>f64\<close> are their 64-bit patterns;
  byte strings are lists of \<open>8 word\<close>. Sizes and offsets (\<^verbatim>\<open>usize\<close>) are natural numbers where the code
  cannot overflow, with the checked or wrapping operation written out where it can. A \<^verbatim>\<open>Result\<close> is a
  sum with the error on the left; \<^verbatim>\<open>panic!\<close>, a failed \<^verbatim>\<open>assert!\<close> and an aborting sync are values. A
  stateful method returns its result together with the state it leaves behind, also when it fails.
  A trait is a record of operations (\<open>store_ops\<close>, \<open>sink_ops\<close>, \<open>apply_ops\<close>, \<open>device_ops\<close>,
  \<open>wal_rule\<close>), and its contract is a locale. Hash-map iteration order, the clock, the checksum
  function \<^verbatim>\<open>crc32c\<close> and the durability hook are parameters.

  \<^bold>\<open>The transaction layer.\<close>
  \<open>Prelude\<close> and \<open>Bytes\<close> hold the shared vocabulary. \<open>Version_Stamp\<close> models module \<^verbatim>\<open>version\<close> of
  \<^verbatim>\<open>graphus-core/src/lib.rs\<close>; \<open>Oracle\<close> \<^verbatim>\<open>oracle.rs\<close>; \<open>Visibility\<close> \<^verbatim>\<open>snapshot.rs\<close> and \<^verbatim>\<open>visibility.rs\<close>;
  \<open>Versioned_Store\<close> \<^verbatim>\<open>store.rs\<close> and \<^verbatim>\<open>gc.rs\<close> with the contract \<open>versioned_store\<close> (interpreted on the
  in-memory store as \<open>mem\<close>), and \<open>Version_Chain\<close> the lemmas on one chain; \<open>Ssi\<close> \<^verbatim>\<open>ssi.rs\<close>;
  \<open>Manager\<close> \<^verbatim>\<open>manager.rs\<close>, every public operation with its failure paths. \<open>Ssi_Invariant\<close> and
  \<open>Manager_Invariant\<close> prove that every operation keeps the invariant of its component;
  \<open>Isolation\<close> lifts this to all interleavings of requests as an inductive step relation and
  \<open>Isolation_Properties\<close> and \<open>Lifecycle_Properties\<close> state what clients may rely on: stable snapshots
  of the committed state, first-committer-wins, rollback without trace, collection of exactly the
  dead versions, absence of panics. \<open>History\<close> models the checker of \<^verbatim>\<open>serializability.rs\<close> and proves
  that it decides acyclicity; \<open>Ssi_Safety\<close>, \<open>Serializability\<close> and \<open>Serializability_Properties\<close> show
  that the committed transactions of a run without collection, deletes and snapshot-level
  transactions form an acyclic serialization graph, and give the two runs, one with a collection
  and one with a delete, in which they do not.

  \<^bold>\<open>The write-ahead log and recovery.\<close>
  \<open>Log_Record\<close> and \<open>Checkpoint\<close> model the byte formats of \<^verbatim>\<open>graphus-wal/src/record.rs\<close> and
  \<^verbatim>\<open>checkpoint.rs\<close>; \<open>Log_Sink\<close> the trait of \<^verbatim>\<open>sink.rs\<close> with its contracts \<open>log_sink\<close> and
  \<open>recoverable_log\<close> (interpreted on the in-memory sink); \<open>Wal_Manager\<close> \<^verbatim>\<open>manager.rs\<close>; \<open>Log_Scan\<close> and
  \<open>Recovery\<close> the windowed scans and the three phases of \<^verbatim>\<open>recovery.rs\<close>. \<open>Wal_Log\<close> and \<open>Recovery_Spec\<close>
  reduce the scans and the heap-driven undo loop to folds over the list of records; \<open>Log_Discipline\<close>
  and \<open>Atomic_Recovery\<close> show that recovery onto any store that meets \<open>page_store\<close> leaves exactly the
  committed changes; \<open>Wal_Run\<close> and \<open>Wal_Rollback\<close> that every run of the manager keeps the log in the
  form recovery needs; \<open>Wal_Crash\<close> joins these for a crash at any point of a run, \<open>Wal_Demo\<close> evaluates
  one run, and \<open>Wal_Properties\<close> states the results.

  \<^bold>\<open>Pages, device and buffer pool.\<close>
  \<open>Block_Device\<close> models \<^verbatim>\<open>graphus-io/src/block.rs\<close> and \<^verbatim>\<open>mem.rs\<close> with the contract \<open>block_device\<close>;
  \<open>Page\<close> the page header, record addressing and patches; \<open>Device_Target\<close>
  \<^verbatim>\<open>graphus-storage/src/recovery.rs\<close>, which meets \<open>page_store\<close> over every device that meets its
  contract; \<open>Page_Properties\<close> states the layout results. \<open>Buffer_Pool\<close> models
  \<^verbatim>\<open>graphus-bufpool/src/pool.rs\<close> and \<^verbatim>\<open>graphus-storage/src/wal_rule.rs\<close>; \<open>Buffer_Pool_Invariant\<close> proves
  the invariant of the pool over the contracts \<open>crash_device\<close> and \<open>wal_contract\<close>, and
  \<open>Buffer_Pool_Properties\<close> interprets them on the in-memory device and the log manager: no page on
  the device is ever ahead of the durable log, and the pool presents one store of pages whatever it
  evicts.

  \<^bold>\<open>Column codecs.\<close>
  \<open>Bit_Pack\<close>, \<open>Int_Column\<close>, \<open>Dictionary_Column\<close> and \<open>Gorilla\<close> model \<^verbatim>\<open>graphus-columnar/src\<close> file by
  file; \<open>Columnar_Properties\<close> states the round trips and that whatever a decoder accepts from
  untrusted bytes is well formed.

  \<^bold>\<open>Bounds, fuel and partiality.\<close> Loops whose end depends on data are partial functions (the scans,
  the undo loop, the draw of torn sectors), and the properties state that they return; the depth-first
  search of the checker has a termination proof, and the CLOCK sweep runs the two rounds the source gives it. Runs of the log manager are bounded to logs below \<open>2 ^ 63\<close> bytes and records
  below \<open>2 ^ 32\<close> bytes, the ranges of the format's fields; timestamps and transaction ids to 63 bits,
  the range the version stamps can hold.

  \<^bold>\<open>Not modelled.\<close> \<^verbatim>\<open>graphus-cypher\<close>, \<^verbatim>\<open>graphus-index\<close>, \<^verbatim>\<open>graphus-gds\<close> and \<^verbatim>\<open>graphus-elle\<close> (query language,
  secondary indexes, graph algorithms and a history checker of its own, each a system of the size of
  the one modelled here); \<^verbatim>\<open>graphus-bolt\<close>, \<^verbatim>\<open>graphus-rest\<close>, \<^verbatim>\<open>graphus-server\<close>, \<^verbatim>\<open>graphus-cli\<close>,
  \<^verbatim>\<open>graphus-auth\<close>, \<^verbatim>\<open>graphus-crypto\<close> and \<^verbatim>\<open>graphus-sysres\<close> (protocols, processes and operating-system
  services around the core, mostly input and output); the file, fsync, io_uring and segment backends
  of \<^verbatim>\<open>graphus-io\<close> and \<^verbatim>\<open>graphus-wal\<close> (their behaviour is the operating system's; the contracts state
  what the core relies on); the latch-based \<^verbatim>\<open>concurrent.rs\<close> of the buffer pool and the group-commit and
  page-map helpers (threads and atomics have no sequential model); the record store of
  \<^verbatim>\<open>graphus-storage\<close> above paging and recovery; and the simulators, generators, benchmarks and demos.
\<close>

end
